(* ===== verification/Aegis_Prelude.thy ===== *)
theory Aegis_Prelude
  imports "HOL-Library.Word" "HOL-Library.Multiset" "HOL-Library.Sublist"
begin

text \<open>
  What every component of the model shares: the machine integer types, the outcome type of
  code that may go wrong (\<open>'a res\<close>, with the fault on the left), checked reads of a memory
  block, the two string conversions the C++ streams perform, and a coding of the
  unspecified iteration order of the standard's unordered containers.
\<close>

unbundle bit_operations_syntax

text \<open>Facts of the form: an operation keeps what a component promises of its state.\<close>

named_theorems keeps "operations keep the invariant of their component"

section \<open>Machine integers\<close>

type_synonym u8 = "8 word"
type_synonym u16 = "16 word"
type_synonym u32 = "32 word"
type_synonym u64 = "64 word"
type_synonym bytes = "u8 list"

lemma unat_u8: "unat (a :: u8) < 256"
  using unsigned_less [of a, where 'a = nat] by simp

lemma unat_u16: "unat (a :: u16) < 65536"
  using unsigned_less [of a, where 'a = nat] by simp

lemma unat_u32: "unat (a :: u32) < 4294967296"
  using unsigned_less [of a, where 'a = nat] by simp

section \<open>Outcomes\<close>

text \<open>
  Every way in which the modelled code leaves the defined behaviour of C++ or throws:
  a read outside the block a pointer points into, a signed overflow, a shift by at least
  the width (or of a bit out of the type), an integer division by zero, the two
  exceptions of \<open>std::stoi\<close>, and that of a vector resized beyond its largest size.
\<close>

datatype fault =
    Out_Of_Bounds
  | Signed_Overflow
  | Shift_Range
  | Division_By_Zero
  | Invalid_Argument
  | Out_Of_Range
  | Length_Error

type_synonym 'a res = "fault + 'a"

primrec andThen :: "'a res \<Rightarrow> ('a \<Rightarrow> 'b res) \<Rightarrow> 'b res" where
  "andThen (Inl e) f = Inl e"
| "andThen (Inr x) f = f x"

lemma andThen_cong [fundef_cong]:
  "r = r' \<Longrightarrow> (\<And>x. r' = Inr x \<Longrightarrow> f x = f' x) \<Longrightarrow> andThen r f = andThen r' f'"
  by (cases r') auto

lemma andThen_eq_Inr [simp]:
  "andThen r f = Inr y \<longleftrightarrow> (\<exists>x. r = Inr x \<and> f x = Inr y)"
  by (cases r) auto

lemma andThen_assoc: "andThen (andThen r f) g = andThen r (\<lambda>x. andThen (f x) g)"
  by (cases r) auto

lemma andThen_if [simp]:
  "andThen (if b then r else s) f = (if b then andThen r f else andThen s f)"
  by simp

definition returns :: "'a res \<Rightarrow> bool" where
  "returns r \<longleftrightarrow> (\<exists>x. r = Inr x)"

lemma returns_Inr [simp]: "returns (Inr x)"
  by (simp add: returns_def)

lemma returns_Inl [simp]: "\<not> returns (Inl e)"
  by (simp add: returns_def)

lemma returns_andThen [intro]:
  "returns r \<Longrightarrow> (\<And>x. r = Inr x \<Longrightarrow> returns (f x)) \<Longrightarrow> returns (andThen r f)"
  by (auto simp: returns_def)

lemma returnsE: "returns r \<Longrightarrow> (\<And>x. r = Inr x \<Longrightarrow> P) \<Longrightarrow> P"
  by (auto simp: returns_def)

section \<open>Checked reads of a memory block\<close>

text \<open>
  A pointer of the source is an index into the block it points into; the index is an
  integer, because pointer arithmetic can leave the block on both sides. Reading one byte
  outside the block is the fault \<open>Out_Of_Bounds\<close>; so is copying a range that is not
  inside it.
\<close>

definition rd :: "bytes \<Rightarrow> int \<Rightarrow> u8 res" where
  "rd m i = (if 0 \<le> i \<and> i < int (length m) then Inr (m ! nat i) else Inl Out_Of_Bounds)"

definition rd_range :: "bytes \<Rightarrow> int \<Rightarrow> nat \<Rightarrow> bytes res" where
  "rd_range m i n =
     (if 0 \<le> i \<and> i + int n \<le> int (length m) then Inr (take n (drop (nat i) m))
      else Inl Out_Of_Bounds)"

text \<open>The \<open>len\<close> bytes at pointer \<open>p\<close>, when they all lie inside the block.\<close>

definition in_block :: "bytes \<Rightarrow> int \<Rightarrow> nat \<Rightarrow> bool" where
  "in_block m p len \<longleftrightarrow> 0 \<le> p \<and> p + int len \<le> int (length m)"

definition view :: "bytes \<Rightarrow> int \<Rightarrow> nat \<Rightarrow> bytes" where
  "view m p len = take len (drop (nat p) m)"

lemma in_block_self [simp]: "in_block m 0 (length m)"
  by (simp add: in_block_def)

lemma view_self [simp]: "view m 0 (length m) = m"
  by (simp add: view_def)

lemma length_view: "in_block m p len \<Longrightarrow> length (view m p len) = len"
  by (auto simp: in_block_def view_def)

lemma rd_view:
  assumes "in_block m p len" and "k < len"
  shows "rd m (p + int k) = Inr (view m p len ! k)"
proof -
  have "nat (p + int k) = nat p + k" and "nat p + len \<le> length m"
    using assms by (auto simp: in_block_def)
  then show ?thesis using assms by (auto simp: rd_def view_def in_block_def)
qed

lemma rd_nth: "k < length m \<Longrightarrow> rd m (int k) = Inr (m ! k)"
  by (simp add: rd_def)

lemma rd_range_view:
  assumes "in_block m p len" and "k + n \<le> len"
  shows "rd_range m (p + int k) n = Inr (take n (drop k (view m p len)))"
proof -
  have e: "nat (p + int k) = nat p + k"
    using assms by (auto simp: in_block_def)
  have "take n (drop k (view m p len)) = take n (drop (nat p + k) m)"
    using assms by (simp add: view_def drop_take add.commute min_absorb1)
  then show ?thesis using assms e by (simp add: rd_range_def in_block_def)
qed

lemma rd_returns: "0 \<le> i \<Longrightarrow> i < int (length m) \<Longrightarrow> returns (rd m i)"
  by (simp add: rd_def)

section \<open>Strings\<close>

text \<open>
  A \<open>std::string\<close> is a list of 8-bit characters. \<open>str_of\<close> is the
  \<open>reinterpret_cast\<close> of a byte range to characters, \<open>bytes_of\<close> its inverse.
\<close>

definition str_of :: "bytes \<Rightarrow> string" where
  "str_of bs = map (\<lambda>b. char_of (unat b)) bs"

definition bytes_of :: "string \<Rightarrow> bytes" where
  "bytes_of s = map (\<lambda>c. word_of_nat (of_char c)) s"

lemma length_str_of [simp]: "length (str_of bs) = length bs"
  by (simp add: str_of_def)

lemma length_bytes_of [simp]: "length (bytes_of s) = length s"
  by (simp add: bytes_of_def)

lemma str_of_bytes_of [simp]: "str_of (bytes_of s) = s"
proof -
  have "unat (word_of_nat (of_char c) :: u8) = of_char c" for c :: char
    by (simp add: unat_of_nat of_char_mod_256)
  then show ?thesis by (simp add: str_of_def bytes_of_def o_def)
qed

text \<open>Unsigned decimal, as \<open>std::to_string\<close> and \<open>operator<<\<close> print it.\<close>

fun dec :: "nat \<Rightarrow> string" where
  "dec n = (if n < 10 then [char_of (48 + n)] else dec (n div 10) @ [char_of (48 + n mod 10)])"

declare dec.simps [simp del]

definition digit :: "char \<Rightarrow> bool" where
  "digit c \<longleftrightarrow> 48 \<le> (of_char c :: nat) \<and> (of_char c :: nat) \<le> 57"

definition digit_val :: "char \<Rightarrow> nat" where
  "digit_val c = of_char c - 48"

definition dec_val :: "nat \<Rightarrow> string \<Rightarrow> nat" where
  "dec_val v s = foldl (\<lambda>a c. a * 10 + digit_val c) v s"

lemma digit_char_of [simp]: "d < 10 \<Longrightarrow> digit (char_of (48 + d :: nat))"
  by (simp add: digit_def)

lemma digit_val_char_of [simp]: "d < 10 \<Longrightarrow> digit_val (char_of (48 + d :: nat)) = d"
  by (simp add: digit_val_def)

lemma dec_nonempty: "dec n \<noteq> []"
  by (subst dec.simps) simp

lemma dec_digits: "\<forall>c \<in> set (dec n). digit c"
proof (induction n rule: dec.induct)
  case (1 n)
  then show ?case
    by (cases "n < 10") (auto simp: dec.simps [of n])
qed

lemma dec_val_append: "dec_val v (s @ t) = dec_val (dec_val v s) t"
  by (simp add: dec_val_def)

lemma dec_val_dec: "dec_val 0 (dec n) = n"
proof (induction n rule: dec.induct)
  case (1 n)
  show ?case
  proof (cases "n < 10")
    case True
    then show ?thesis by (simp add: dec.simps [of n] dec_val_def)
  next
    case False
    with 1 have "dec_val 0 (dec (n div 10)) = n div 10" by simp
    with False show ?thesis
      by (simp add: dec.simps [of n] dec_val_append) (simp add: dec_val_def)
  qed
qed

section \<open>Unspecified iteration order\<close>

text \<open>
  The unordered containers of the standard library are lists of their elements in the
  order an iteration visits them. Where the standard leaves that order open (inserting may
  put the new element anywhere and may rehash), the operation takes a list of numbers that
  codes the rearrangement: \<open>insert_at\<close> puts an element at an index, and \<open>reorder ns\<close>
  re-inserts the elements one by one at the indices \<open>ns\<close> gives. Every permutation has
  a code, and whatever the code, the result is a permutation.
\<close>

definition insert_at :: "nat \<Rightarrow> 'a \<Rightarrow> 'a list \<Rightarrow> 'a list" where
  "insert_at n x xs = take n xs @ x # drop n xs"

fun reorder :: "nat list \<Rightarrow> 'a list \<Rightarrow> 'a list" where
  "reorder (n # ns) (x # xs) = insert_at n x (reorder ns xs)"
| "reorder _ xs = xs"

lemma mset_insert_at [simp]: "mset (insert_at n x xs) = add_mset x (mset xs)"
proof -
  have "mset (take n xs) + mset (drop n xs) = mset xs"
    by (metis append_take_drop_id mset_append)
  then show ?thesis by (simp add: insert_at_def)
qed

lemma mset_reorder [simp]: "mset (reorder ns xs) = mset xs"
  by (induction ns xs rule: reorder.induct) auto

lemma set_reorder [simp]: "set (reorder ns xs) = set xs"
  using mset_reorder by (rule mset_eq_setD)

lemma length_reorder [simp]: "length (reorder ns xs) = length xs"
  using mset_reorder by (rule mset_eq_length)

lemma distinct_reorder [simp]: "distinct (reorder ns xs) = distinct xs"
  by (metis mset_eq_imp_distinct_iff mset_reorder)

lemma distinct_map_reorder [simp]: "distinct (map f (reorder ns xs)) = distinct (map f xs)"
  by (metis mset_eq_imp_distinct_iff mset_map mset_reorder)

lemma map_of_reorder:
  "distinct (map fst xs) \<Longrightarrow> map_of (reorder ns xs) = map_of xs"
  by (rule map_of_eqI) (auto simp: map_of_eq_Some_iff set_reorder image_iff)

lemma reorder_complete:
  assumes "mset ys = mset xs"
  shows "\<exists>ns. reorder ns xs = ys"
  using assms
proof (induction xs arbitrary: ys)
  case Nil
  then show ?case by simp
next
  case (Cons x xs)
  from Cons.prems have "x \<in> set ys"
    by (metis list.set_intros(1) mset_eq_setD)
  then obtain us vs where ys: "ys = us @ x # vs"
    by (meson split_list)
  with Cons.prems have "mset (us @ vs) = mset xs" by simp
  then obtain ns where "reorder ns xs = us @ vs"
    using Cons.IH by blast
  then have "reorder (length us # ns) (x # xs) = ys"
    by (simp add: ys insert_at_def)
  then show ?case by blast
qed

end
