(* ===== verification/Portable_Net.thy ===== *)
theory Portable_Net
  imports Aegis_Prelude
begin

text \<open>
  \<open>include/platform.h\<close>: byte swapping and the conversion between network and host byte
  order. The host's own byte order, which \<open>isLittleEndian\<close> finds out at run time, is the
  parameter \<open>le\<close> of the model: \<open>load16\<close> and \<open>load32\<close> are the native loads
  (\<open>*reinterpret_cast<const uint16_t*>(p)\<close>, \<open>memcpy(&x, p, 4)\<close>) of a host of that order,
  \<open>store16\<close> and \<open>store32\<close> the bytes such a host writes for a value.
\<close>

section \<open>Byte swapping\<close>

definition swapBytes16 :: "u16 \<Rightarrow> u16" where
  "swapBytes16 v = drop_bit 8 (v AND 0xFF00) OR push_bit 8 (v AND 0x00FF)"

definition swapBytes32 :: "u32 \<Rightarrow> u32" where
  "swapBytes32 v =
     drop_bit 24 (v AND 0xFF000000) OR drop_bit 8 (v AND 0x00FF0000) OR
     push_bit 8 (v AND 0x0000FF00) OR push_bit 24 (v AND 0x000000FF)"

definition isLittleEndian :: "bool \<Rightarrow> bool" where
  "isLittleEndian le = le"

definition netToHost16 :: "bool \<Rightarrow> u16 \<Rightarrow> u16" where
  "netToHost16 le v = (if isLittleEndian le then swapBytes16 v else v)"

definition netToHost32 :: "bool \<Rightarrow> u32 \<Rightarrow> u32" where
  "netToHost32 le v = (if isLittleEndian le then swapBytes32 v else v)"

definition hostToNet16 :: "bool \<Rightarrow> u16 \<Rightarrow> u16" where
  "hostToNet16 le v = netToHost16 le v"

definition hostToNet32 :: "bool \<Rightarrow> u32 \<Rightarrow> u32" where
  "hostToNet32 le v = netToHost32 le v"

section \<open>Native loads and stores\<close>

definition be16 :: "u8 \<Rightarrow> u8 \<Rightarrow> u16" where
  "be16 a b = push_bit 8 (ucast a) OR ucast b"

definition be32 :: "u8 \<Rightarrow> u8 \<Rightarrow> u8 \<Rightarrow> u8 \<Rightarrow> u32" where
  "be32 a b c d =
     push_bit 24 (ucast a) OR push_bit 16 (ucast b) OR push_bit 8 (ucast c) OR ucast d"

definition load16 :: "bool \<Rightarrow> u8 \<Rightarrow> u8 \<Rightarrow> u16" where
  "load16 le a b = (if le then be16 b a else be16 a b)"

definition load32 :: "bool \<Rightarrow> u8 \<Rightarrow> u8 \<Rightarrow> u8 \<Rightarrow> u8 \<Rightarrow> u32" where
  "load32 le a b c d = (if le then be32 d c b a else be32 a b c d)"

definition store16 :: "bool \<Rightarrow> u16 \<Rightarrow> bytes" where
  "store16 le v =
     (let b = (\<lambda>k. ucast (drop_bit k v) :: u8)
      in if le then [b 0, b 8] else [b 8, b 0])"

definition store32 :: "bool \<Rightarrow> u32 \<Rightarrow> bytes" where
  "store32 le v =
     (let b = (\<lambda>k. ucast (drop_bit k v) :: u8)
      in if le then [b 0, b 8, b 16, b 24] else [b 24, b 16, b 8, b 0])"

lemma length_store16 [simp]: "length (store16 le v) = 2"
  by (simp add: store16_def Let_def)

lemma length_store32 [simp]: "length (store32 le v) = 4"
  by (simp add: store32_def Let_def)

section \<open>Bit-level facts\<close>

lemma byte_masks:
  "(0xFF00 :: u16) = push_bit 8 (mask 8)" "(0x00FF :: u16) = mask 8"
  "(0xFF000000 :: u32) = push_bit 24 (mask 8)" "(0x00FF0000 :: u32) = push_bit 16 (mask 8)"
  "(0x0000FF00 :: u32) = push_bit 8 (mask 8)" "(0x000000FF :: u32) = mask 8"
  by (simp_all add: mask_numeral)

lemma bit_u8_less: "bit (v::u8) n \<Longrightarrow> n < 8"
  by (drule bit_imp_le_length) simp

lemma bit_u16_less: "bit (v::u16) n \<Longrightarrow> n < 16"
  by (drule bit_imp_le_length) simp

lemma bit_u32_less: "bit (v::u32) n \<Longrightarrow> n < 32"
  by (drule bit_imp_le_length) simp

lemma bit_be16:
  "bit (be16 a b) n = (if n < 8 then bit b n else bit a (n - 8))"
  by (auto simp: be16_def bit_simps dest: bit_u8_less)

lemma bit_be32:
  "bit (be32 a b c d) n =
     (if n < 8 then bit d n else if n < 16 then bit c (n - 8)
      else if n < 24 then bit b (n - 16) else bit a (n - 24))"
  by (auto simp: be32_def bit_simps dest: bit_u8_less)

lemma bit_swapBytes16:
  "bit (swapBytes16 v) n = (if n < 8 then bit v (n + 8) else n < 16 \<and> bit v (n - 8))"
  by (auto simp: swapBytes16_def byte_masks bit_simps add.commute dest: bit_u16_less)

lemma bit_swapBytes32:
  "bit (swapBytes32 v) n =
     (if n < 8 then bit v (n + 24) else if n < 16 then bit v (n + 8)
      else if n < 24 then bit v (n - 8) else n < 32 \<and> bit v (n - 24))"
  by (auto simp: swapBytes32_def byte_masks bit_simps add.commute dest: bit_u32_less)

lemma swapBytes16_be16: "swapBytes16 (be16 a b) = be16 b a"
  by (rule bit_eqI) (auto simp: bit_be16 bit_swapBytes16 dest: bit_u8_less)

lemma swapBytes32_be32: "swapBytes32 (be32 a b c d) = be32 d c b a"
  by (rule bit_eqI) (auto simp: bit_be32 bit_swapBytes32 dest: bit_u8_less)

lemma be16_bytes: "be16 (ucast (drop_bit 8 v)) (ucast v) = v"
  by (rule bit_eqI) (auto simp: bit_be16 bit_simps dest: bit_u16_less)

lemma be32_bytes:
  "be32 (ucast (drop_bit 24 v)) (ucast (drop_bit 16 v)) (ucast (drop_bit 8 v)) (ucast v) = v"
  by (rule bit_eqI) (auto simp: bit_be32 bit_simps dest: bit_u32_less)

lemma unat_be16: "unat (be16 a b) = 256 * unat a + unat b"
proof -
  have "push_bit 8 (ucast a :: u16) OR ucast b = push_bit 8 (ucast a) + ucast b"
    by (rule disjunctive_add [symmetric]) (auto simp: bit_simps dest: bit_u8_less)
  moreover have "unat (push_bit 8 (ucast a :: u16)) = 256 * unat a"
    using unat_u8 [of a] by (simp add: push_bit_eq_mult unat_word_ariths unsigned_ucast_eq take_bit_nat_eq_self)
  moreover have "unat a < 256" "unat b < 256" by (rule unat_u8)+
  ultimately show ?thesis
    by (simp add: be16_def unat_word_ariths unsigned_ucast_eq take_bit_nat_eq_self)
qed

section \<open>The conversions are what they promise on either host\<close>

lemma netToHost16_load16: "netToHost16 le (load16 le a b) = be16 a b"
  by (simp add: netToHost16_def isLittleEndian_def load16_def swapBytes16_be16)

lemma netToHost32_load32: "netToHost32 le (load32 le a b c d) = be32 a b c d"
  by (simp add: netToHost32_def isLittleEndian_def load32_def swapBytes32_be32)

lemma load16_store16: "store16 le v = [a, b] \<Longrightarrow> load16 le a b = v"
  by (auto simp: store16_def load16_def Let_def be16_bytes split: if_splits)

lemma load32_store32: "store32 le v = [a, b, c, d] \<Longrightarrow> load32 le a b c d = v"
  by (auto simp: store32_def load32_def Let_def be32_bytes split: if_splits)

lemma swap_load16: "swapBytes16 (load16 (\<not> le) a b) = load16 le a b"
  by (simp add: load16_def swapBytes16_be16)

lemma swap_load32: "swapBytes32 (load32 (\<not> le) a b c d) = load32 le a b c d"
  by (simp add: load32_def swapBytes32_be32)

lemma swapBytes16_involution: "swapBytes16 (swapBytes16 v) = v"
  by (metis be16_bytes swapBytes16_be16)

lemma swapBytes32_involution: "swapBytes32 (swapBytes32 v) = v"
  by (metis be32_bytes swapBytes32_be32)

lemma hostToNet16_inverse: "netToHost16 le (hostToNet16 le v) = v"
  by (simp add: hostToNet16_def netToHost16_def swapBytes16_involution)

lemma hostToNet32_inverse: "netToHost32 le (hostToNet32 le v) = v"
  by (simp add: hostToNet32_def netToHost32_def swapBytes32_involution)

end
