(* ===== verification/Aegis_Types.thy ===== *)
theory Aegis_Types
  imports Aegis_Prelude
begin

text \<open>
  \<open>include/types.h\<close> and \<open>src/types.cpp\<close>: the five-tuple that identifies a flow, its hash,
  the application types with their names and the signature table that maps a server name
  to an application, the connection record, the packet job and the statistics.
\<close>

section \<open>Five-tuples\<close>

record five_tuple =
  src_ip :: u32
  dst_ip :: u32
  src_port :: u16
  dst_port :: u16
  protocol :: u8

definition eq_tuple :: "five_tuple \<Rightarrow> five_tuple \<Rightarrow> bool" where
  "eq_tuple t other \<longleftrightarrow>
     src_ip t = src_ip other \<and> dst_ip t = dst_ip other \<and>
     src_port t = src_port other \<and> dst_port t = dst_port other \<and>
     protocol t = protocol other"

definition reverse :: "five_tuple \<Rightarrow> five_tuple" where
  "reverse t = \<lparr>src_ip = dst_ip t, dst_ip = src_ip t, src_port = dst_port t,
     dst_port = src_port t, protocol = protocol t\<rparr>"

text \<open>
  \<open>formatIP\<close> is the lambda of \<open>FiveTuple::toString\<close>; the same four shifts are
  \<open>PacketParser::ipToString\<close> and \<open>RuleManager::ipToString\<close>.
\<close>

definition formatIP :: "u32 \<Rightarrow> string" where
  "formatIP ip =
     dec (unat (drop_bit 0 ip AND 0xFF)) @ ''.'' @
     dec (unat (drop_bit 8 ip AND 0xFF)) @ ''.'' @
     dec (unat (drop_bit 16 ip AND 0xFF)) @ ''.'' @
     dec (unat (drop_bit 24 ip AND 0xFF))"

definition toString :: "five_tuple \<Rightarrow> string" where
  "toString t =
     formatIP (src_ip t) @ '':'' @ dec (unat (src_port t)) @ '' -> '' @
     formatIP (dst_ip t) @ '':'' @ dec (unat (dst_port t)) @ '' ('' @
     (if protocol t = 6 then ''TCP'' else if protocol t = 17 then ''UDP'' else ''?'') @ '')''"

lemma eq_tuple_iff: "eq_tuple t other \<longleftrightarrow> t = other"
  by (cases t; cases other) (simp add: eq_tuple_def)

lemma reverse_reverse [simp]: "reverse (reverse t) = t"
  by (simp add: reverse_def)

section \<open>The flow hash\<close>

definition combine :: "u64 \<Rightarrow> u32 \<Rightarrow> u64" where
  "combine hash val = (hash XOR ucast val) * 1099511628211"

definition FiveTupleHash :: "five_tuple \<Rightarrow> u64" where
  "FiveTupleHash t =
     (let hash = 14695981039346656037;
          hash = combine hash (src_ip t);
          hash = combine hash (dst_ip t);
          hash = combine hash (ucast (src_port t));
          hash = combine hash (ucast (dst_port t));
          hash = combine hash (ucast (protocol t))
      in hash)"

text \<open>
  The multiplier is odd, so it has an inverse modulo \<open>2 ^ 64\<close>, and one mixing step is
  injective in the hash and in the mixed value.
\<close>

lemma fnv_prime_inverse: "(1099511628211 :: u64) * 14886173955864302971 = 1"
  by simp

lemma mult_fnv_prime_inject:
  "(x :: u64) * 1099511628211 = y * 1099511628211 \<longleftrightarrow> x = y"
proof
  assume "x * 1099511628211 = y * 1099511628211"
  then have "x * 1099511628211 * 14886173955864302971
      = y * 1099511628211 * 14886173955864302971"
    by simp
  then show "x = y"
    by (simp only: mult.assoc fnv_prime_inverse mult_1_right)
qed simp

lemma xor_cancel_right [simp]: "(x :: u64) XOR z = y XOR z \<longleftrightarrow> x = y"
proof
  assume "x XOR z = y XOR z"
  then have "(x XOR z) XOR z = (y XOR z) XOR z" by simp
  then show "x = y" by (simp only: xor.assoc xor_self_eq xor.right_neutral)
qed simp

lemma xor_cancel_left: "(z :: u64) XOR x = z XOR y \<longleftrightarrow> x = y"
  by (metis xor.commute xor_cancel_right)

lemma ucast_u64_inject: "(ucast (v :: u32) :: u64) = ucast w \<longleftrightarrow> v = w"
proof
  have u: "unat (ucast v :: u64) = unat v" for v :: u32
    using unat_u32 [of v] by (simp add: unsigned_ucast_eq take_bit_nat_eq_self)
  assume "(ucast v :: u64) = ucast w"
  then have "unat v = unat w" by (metis u)
  then show "v = w" by (rule unsigned_word_eqI)
qed simp

lemma combine_inject_hash [simp]: "combine h v = combine h' v \<longleftrightarrow> h = h'"
  by (simp add: combine_def mult_fnv_prime_inject)

lemma combine_inject_val [simp]: "combine h v = combine h w \<longleftrightarrow> v = w"
  by (simp add: combine_def mult_fnv_prime_inject xor_cancel_left ucast_u64_inject)

lemma ucast_u32_inject:
  "(ucast (v :: u16) :: u32) = ucast w \<longleftrightarrow> v = w" (is ?A)
  "(ucast (b :: u8) :: u32) = ucast c \<longleftrightarrow> b = c" (is ?B)
proof -
  have u: "unat (ucast v :: u32) = unat v" for v :: u16
    using unat_u16 [of v] by (simp add: unsigned_ucast_eq take_bit_nat_eq_self)
  show ?A by (metis u unsigned_word_eqI)
  have w: "unat (ucast v :: u32) = unat v" for v :: u8
    using unat_u8 [of v] by (simp add: unsigned_ucast_eq take_bit_nat_eq_self)
  show ?B by (metis w unsigned_word_eqI)
qed


section \<open>Application types\<close>

datatype AppType =
    UNKNOWN | HTTP | HTTPS | DNS | TLS | QUIC | GOOGLE | FACEBOOK | YOUTUBE | TWITTER
  | INSTAGRAM | NETFLIX | AMAZON | MICROSOFT | APPLE | WHATSAPP | TELEGRAM | TIKTOK
  | SPOTIFY | ZOOM | DISCORD | GITHUB | CLOUDFLARE | APP_COUNT

text \<open>The values \<open>static_cast<AppType>(i)\<close> for \<open>0 <= i < APP_COUNT\<close>, in order.\<close>

definition app_types :: "AppType list" where
  "app_types =
     [UNKNOWN, HTTP, HTTPS, DNS, TLS, QUIC, GOOGLE, FACEBOOK, YOUTUBE, TWITTER,
      INSTAGRAM, NETFLIX, AMAZON, MICROSOFT, APPLE, WHATSAPP, TELEGRAM, TIKTOK,
      SPOTIFY, ZOOM, DISCORD, GITHUB, CLOUDFLARE]"

fun appTypeToString :: "AppType \<Rightarrow> string" where
  "appTypeToString UNKNOWN = ''Unknown''"
| "appTypeToString HTTP = ''HTTP''"
| "appTypeToString HTTPS = ''HTTPS''"
| "appTypeToString DNS = ''DNS''"
| "appTypeToString TLS = ''TLS''"
| "appTypeToString QUIC = ''QUIC''"
| "appTypeToString GOOGLE = ''Google''"
| "appTypeToString FACEBOOK = ''Facebook''"
| "appTypeToString YOUTUBE = ''YouTube''"
| "appTypeToString TWITTER = ''Twitter/X''"
| "appTypeToString INSTAGRAM = ''Instagram''"
| "appTypeToString NETFLIX = ''Netflix''"
| "appTypeToString AMAZON = ''Amazon''"
| "appTypeToString MICROSOFT = ''Microsoft''"
| "appTypeToString APPLE = ''Apple''"
| "appTypeToString WHATSAPP = ''WhatsApp''"
| "appTypeToString TELEGRAM = ''Telegram''"
| "appTypeToString TIKTOK = ''TikTok''"
| "appTypeToString SPOTIFY = ''Spotify''"
| "appTypeToString ZOOM = ''Zoom''"
| "appTypeToString DISCORD = ''Discord''"
| "appTypeToString GITHUB = ''GitHub''"
| "appTypeToString CLOUDFLARE = ''Cloudflare''"
| "appTypeToString _ = ''Unknown''"

text \<open>
  The loop over the enumeration that turns a name into an application; it is in
  \<open>RuleManager::loadRules\<close>, \<open>DPIEngine::blockApp\<close> and \<open>DPIEngine::unblockApp\<close>.
\<close>

definition find_app :: "string \<Rightarrow> AppType option" where
  "find_app name = List.find (\<lambda>a. appTypeToString a = name) app_types"

lemma set_app_types: "set app_types = UNIV - {APP_COUNT}"
proof -
  have "a = APP_COUNT \<or> a \<in> set app_types" for a
    by (cases a) (simp_all add: app_types_def)
  then show ?thesis by (auto simp: app_types_def)
qed

lemma find_app_name: "a \<noteq> APP_COUNT \<Longrightarrow> find_app (appTypeToString a) = Some a"
  by (cases a) (simp_all add: find_app_def app_types_def)

lemma find_app_Some: "find_app name = Some a \<Longrightarrow> appTypeToString a = name \<and> a \<noteq> APP_COUNT"
  by (auto simp: find_app_def find_Some_iff set_app_types dest: nth_mem)

section \<open>From a server name to an application\<close>

text \<open>\<open>std::tolower\<close> in the C locale, which the program never changes.\<close>

definition tolower :: "char \<Rightarrow> char" where
  "tolower c =
     (let n = of_char c :: nat in if 65 \<le> n \<and> n \<le> 90 then char_of (n + 32) else c)"

text \<open>
  \<open>match_at\<close> is the inner loop (over \<open>j\<close>) of \<open>containsCaseInsensitive\<close>, \<open>search_from\<close>
  the outer one (over \<open>i\<close>); its bound \<open>haystack.length() - needle.length()\<close> does not
  wrap because of the length test before it.
\<close>

function match_at :: "string \<Rightarrow> string \<Rightarrow> nat \<Rightarrow> nat \<Rightarrow> bool" where
  "match_at haystack needle i j =
     (if j < length needle then
        if tolower (haystack ! (i + j)) \<noteq> tolower (needle ! j) then False
        else match_at haystack needle i (j + 1)
      else True)"
  by pat_completeness auto
termination
  by (relation "measure (\<lambda>(h, n, i, j). length n - j)") auto

function search_from :: "string \<Rightarrow> string \<Rightarrow> nat \<Rightarrow> bool" where
  "search_from haystack needle i =
     (if i \<le> length haystack - length needle then
        if match_at haystack needle i 0 then True
        else search_from haystack needle (i + 1)
      else False)"
  by pat_completeness auto
termination
  by (relation "measure (\<lambda>(h, n, i). Suc (length h) - i)") auto

declare match_at.simps [simp del] search_from.simps [simp del]

definition containsCaseInsensitive :: "string \<Rightarrow> string \<Rightarrow> bool" where
  "containsCaseInsensitive haystack needle =
     (if length needle > length haystack then False else search_from haystack needle 0)"

definition APP_SIGNATURES :: "(string \<times> AppType) list" where
  "APP_SIGNATURES =
    [(''google'', GOOGLE), (''gstatic'', GOOGLE), (''googleapis'', GOOGLE),
     (''ggpht'', GOOGLE), (''gvt1'', GOOGLE),
     (''youtube'', YOUTUBE), (''ytimg'', YOUTUBE), (''youtu.be'', YOUTUBE),
     (''yt3.ggpht'', YOUTUBE),
     (''facebook'', FACEBOOK), (''fbcdn'', FACEBOOK), (''fb.com'', FACEBOOK),
     (''fbsbx'', FACEBOOK), (''meta.com'', FACEBOOK),
     (''instagram'', INSTAGRAM), (''cdninstagram'', INSTAGRAM),
     (''whatsapp'', WHATSAPP), (''wa.me'', WHATSAPP),
     (''twitter'', TWITTER), (''twimg'', TWITTER), (''x.com'', TWITTER), (''t.co'', TWITTER),
     (''netflix'', NETFLIX), (''nflxvideo'', NETFLIX), (''nflximg'', NETFLIX),
     (''amazon'', AMAZON), (''amazonaws'', AMAZON), (''cloudfront'', AMAZON), (''aws'', AMAZON),
     (''microsoft'', MICROSOFT), (''msn.com'', MICROSOFT), (''office'', MICROSOFT),
     (''azure'', MICROSOFT), (''live.com'', MICROSOFT), (''outlook'', MICROSOFT),
     (''bing'', MICROSOFT),
     (''apple'', APPLE), (''icloud'', APPLE), (''itunes'', APPLE)]"

fun first_signature :: "string \<Rightarrow> (string \<times> AppType) list \<Rightarrow> AppType option" where
  "first_signature sni [] = None"
| "first_signature sni ((signature, app) # sigs) =
     (if containsCaseInsensitive sni signature then Some app else first_signature sni sigs)"

definition sniToAppType :: "string \<Rightarrow> AppType" where
  "sniToAppType sni =
     (if sni = [] then UNKNOWN
      else case first_signature sni APP_SIGNATURES of
        Some app \<Rightarrow> app
      | None \<Rightarrow>
          if containsCaseInsensitive sni ''telegram'' \<or> containsCaseInsensitive sni ''t.me''
            then TELEGRAM
          else if containsCaseInsensitive sni ''tiktok'' \<or> containsCaseInsensitive sni ''bytedance''
            then TIKTOK
          else if containsCaseInsensitive sni ''spotify'' \<or> containsCaseInsensitive sni ''scdn.co''
            then SPOTIFY
          else if containsCaseInsensitive sni ''zoom'' then ZOOM
          else if containsCaseInsensitive sni ''discord'' then DISCORD
          else if containsCaseInsensitive sni ''github'' then GITHUB
          else if containsCaseInsensitive sni ''cloudflare'' \<or> containsCaseInsensitive sni ''cf-''
            then CLOUDFLARE
          else HTTPS)"


section \<open>Connections, packet jobs and statistics\<close>

datatype ConnectionState = NEW | ESTABLISHED | CLASSIFIED | BLOCKED | CLOSED

datatype PacketAction = FORWARD | DROP | INSPECT | LOG_ONLY

text \<open>A \<open>steady_clock\<close> time point is its count of nanoseconds.\<close>

type_synonym time_point = int

record connection =
  conn_tuple :: five_tuple
  conn_state :: ConnectionState
  app_type :: AppType
  conn_sni :: string
  packets_in :: u64
  packets_out :: u64
  bytes_in :: u64
  bytes_out :: u64
  first_seen :: time_point
  last_seen :: time_point
  conn_action :: PacketAction
  syn_seen :: bool
  syn_ack_seen :: bool
  fin_seen :: bool

text \<open>
  The job's \<open>payload_data\<close> pointer is the index it has in the job's own data block, if it
  was set. The fields without an initialiser that \<open>createPacketJob\<close> always sets start as 0.
\<close>

record packet_job =
  packet_id :: u32
  job_tuple :: five_tuple
  job_data :: bytes
  eth_offset :: nat
  ip_offset :: nat
  transport_offset :: nat
  payload_offset :: nat
  payload_length :: nat
  job_flags :: u8
  payload_data :: "nat option"
  job_ts_sec :: u32
  job_ts_usec :: u32

record dpi_stats =
  total_packets :: u64
  total_bytes :: u64
  forwarded_packets :: u64
  dropped_packets :: u64
  tcp_packets :: u64
  udp_packets :: u64
  other_packets :: u64
  active_connections :: u64

definition initial_stats :: dpi_stats where
  "initial_stats = \<lparr>total_packets = 0, total_bytes = 0, forwarded_packets = 0,
     dropped_packets = 0, tcp_packets = 0, udp_packets = 0, other_packets = 0,
     active_connections = 0\<rparr>"

subsection \<open>The two search loops are a substring test\<close>

abbreviation lower :: "string \<Rightarrow> string" where
  "lower s \<equiv> map tolower s"

lemma match_at_iff:
  "match_at h n i j \<longleftrightarrow> (\<forall>k. j \<le> k \<and> k < length n \<longrightarrow> tolower (h ! (i + k)) = tolower (n ! k))"
proof (induction h n i j rule: match_at.induct)
  case (1 h n i j)
  show ?case
  proof (cases "j < length n")
    case True
    have "(j \<le> k \<and> k < length n) = (k = j \<or> j + 1 \<le> k \<and> k < length n)" for k
      using True by auto
    then show ?thesis
      using 1 True by (cases "tolower (h ! (i + j)) = tolower (n ! j)")
        (auto simp: match_at.simps [of h n i j])
  qed (auto simp: match_at.simps [of h n i j])
qed

lemma match_at_0_iff:
  assumes "i + length n \<le> length h"
  shows "match_at h n i 0 \<longleftrightarrow> take (length n) (drop i (lower h)) = lower n"
  using assms by (auto simp: match_at_iff list_eq_iff_nth_eq min_absorb1)

lemma search_from_iff:
  "search_from h n i \<longleftrightarrow> (\<exists>k. i \<le> k \<and> k \<le> length h - length n \<and> match_at h n k 0)"
proof (induction h n i rule: search_from.induct)
  case (1 h n i)
  show ?case
  proof (cases "i \<le> length h - length n \<and> \<not> match_at h n i 0")
    case True
    then have "search_from h n i = search_from h n (i + 1)" by (simp add: search_from.simps [of h n i])
    moreover have "(i \<le> k \<and> match_at h n k 0) = (i + 1 \<le> k \<and> match_at h n k 0)" for k
      using True by (cases "k = i") auto
    ultimately show ?thesis using 1 True by metis
  next
    case False
    then show ?thesis by (auto simp: search_from.simps [of h n i])
  qed
qed

lemma containsCaseInsensitive_iff:
  "containsCaseInsensitive h n \<longleftrightarrow> sublist (lower n) (lower h)"
proof (cases "length n \<le> length h")
  case le: True
  have "search_from h n 0 \<longleftrightarrow>
      (\<exists>k. k + length n \<le> length h \<and> take (length n) (drop k (lower h)) = lower n)"
    using le by (auto simp: search_from_iff match_at_0_iff le_diff_conv2 cong: conj_cong)
  also have "\<dots> \<longleftrightarrow> sublist (lower n) (lower h)" (is "?L \<longleftrightarrow> ?R")
  proof
    assume ?L
    then obtain k where "take (length n) (drop k (lower h)) = lower n" by blast
    then have "lower h = take k (lower h) @ lower n @ drop (length n) (drop k (lower h))"
      by (metis append_take_drop_id)
    then show ?R by (metis sublist_appendI)
  next
    assume ?R
    then obtain ps ss where d: "lower h = ps @ lower n @ ss" by (auto simp: sublist_def)
    then have "length h = length ps + length n + length ss"
      by (metis add.assoc length_append length_map)
    with d show ?L by (intro exI [of _ "length ps"]) simp
  qed
  finally show ?thesis using le by (simp add: containsCaseInsensitive_def)
next
  case False
  then show ?thesis by (auto simp: containsCaseInsensitive_def dest: sublist_length_le)
qed

lemma contains_mono:
  "sublist (lower n') (lower n) \<Longrightarrow> containsCaseInsensitive h n \<Longrightarrow> containsCaseInsensitive h n'"
  by (auto simp: containsCaseInsensitive_iff intro: sublist_order.order_trans)

lemma contains_empty_name: "n \<noteq> [] \<Longrightarrow> \<not> containsCaseInsensitive [] n"
  by (simp add: containsCaseInsensitive_def)

lemma tolower_idem [simp]: "tolower (tolower c) = tolower c"
  by (simp add: tolower_def Let_def)

lemma contains_lower [simp]: "containsCaseInsensitive (lower h) n = containsCaseInsensitive h n"
  by (simp add: containsCaseInsensitive_iff o_def)

subsection \<open>Which applications a name can give\<close>

lemma first_signature_lower [simp]: "first_signature (lower h) sigs = first_signature h sigs"
  by (induction h sigs rule: first_signature.induct) auto

lemma first_signature_append:
  "first_signature sni (xs @ ys) =
     (case first_signature sni xs of None \<Rightarrow> first_signature sni ys | Some a \<Rightarrow> Some a)"
  by (induction sni xs rule: first_signature.induct) auto

lemma first_signature_in: "first_signature sni sigs = Some a \<Longrightarrow> a \<in> snd ` set sigs"
  by (induction sni sigs rule: first_signature.induct) (auto split: if_splits)

lemma first_signature_hit:
  "containsCaseInsensitive sni n \<Longrightarrow> (n, a) \<in> set sigs \<Longrightarrow> \<exists>b. first_signature sni sigs = Some b"
  by (induction sni sigs rule: first_signature.induct) auto

lemma app_of_prefix_hit:
  assumes "containsCaseInsensitive sni n" and "(n, a) \<in> set (take k APP_SIGNATURES)"
    and "n \<noteq> []"
  shows "sniToAppType sni \<in> snd ` set (take k APP_SIGNATURES)"
proof -
  obtain b where b: "first_signature sni (take k APP_SIGNATURES) = Some b"
    using assms first_signature_hit by blast
  then have "first_signature sni (take k APP_SIGNATURES @ drop k APP_SIGNATURES) = Some b"
    by (subst first_signature_append) simp
  then have "first_signature sni APP_SIGNATURES = Some b" by simp
  moreover have "sni \<noteq> []" using assms contains_empty_name by blast
  ultimately show ?thesis using first_signature_in [OF b] by (simp add: sniToAppType_def)
qed

text \<open>Two five-tuples that differ in one field only never share a hash, whichever the field.\<close>

theorem hash_field_injective:
  "(FiveTupleHash (t\<lparr>src_ip := a\<rparr>) = FiveTupleHash t \<longleftrightarrow> a = src_ip t) \<and>
   (FiveTupleHash (t\<lparr>dst_ip := b\<rparr>) = FiveTupleHash t \<longleftrightarrow> b = dst_ip t) \<and>
   (FiveTupleHash (t\<lparr>src_port := c\<rparr>) = FiveTupleHash t \<longleftrightarrow> c = src_port t) \<and>
   (FiveTupleHash (t\<lparr>dst_port := d\<rparr>) = FiveTupleHash t \<longleftrightarrow> d = dst_port t) \<and>
   (FiveTupleHash (t\<lparr>protocol := e\<rparr>) = FiveTupleHash t \<longleftrightarrow> e = protocol t)"
  by (simp add: FiveTupleHash_def ucast_u32_inject)

text \<open>The nested search loops decide whether the signature occurs in the name as a
  substring when both are lowered.\<close>

theorem containsCaseInsensitive_substring:
  "containsCaseInsensitive h n \<longleftrightarrow> (\<exists>pre post. lower h = pre @ lower n @ post)"
  by (simp add: containsCaseInsensitive_iff sublist_def)

text \<open>A name never gives a transport-level class: the result is \<open>UNKNOWN\<close> exactly for
  the empty name, and never \<open>HTTP\<close>, \<open>DNS\<close>, \<open>TLS\<close>, \<open>QUIC\<close> or \<open>APP_COUNT\<close>;
  and the case of the letters does not matter.\<close>

theorem sniToAppType_range:
  "(sniToAppType sni = UNKNOWN \<longleftrightarrow> sni = []) \<and>
   sniToAppType sni \<notin> {HTTP, DNS, TLS, QUIC, APP_COUNT} \<and>
   sniToAppType (lower sni) = sniToAppType sni"
proof -
  have sigs: "a \<notin> {UNKNOWN, HTTP, HTTPS, DNS, TLS, QUIC, APP_COUNT}"
    if "first_signature sni APP_SIGNATURES = Some a" for a
    using first_signature_in [OF that] by (auto simp: APP_SIGNATURES_def)
  show ?thesis
  proof (cases "first_signature sni APP_SIGNATURES")
    case None
    then show ?thesis by (simp add: sniToAppType_def)
  next
    case (Some a)
    then show ?thesis using sigs by (auto simp: sniToAppType_def)
  qed
qed

text \<open>The short signatures \<open>x.com\<close> and \<open>t.co\<close> come before the ones of Netflix and
  Microsoft, and \<open>ggpht\<close> before \<open>yt3.ggpht\<close>: no name with \<open>netflix.com\<close> in it is classified
  as Netflix, none with \<open>microsoft.com\<close> as Microsoft, none with \<open>yt3.ggpht\<close> as YouTube.\<close>

theorem signatures_shadowed:
  "(containsCaseInsensitive sni ''netflix.com'' \<longrightarrow> sniToAppType sni \<noteq> NETFLIX) \<and>
   (containsCaseInsensitive sni ''microsoft.com'' \<longrightarrow> sniToAppType sni \<noteq> MICROSOFT) \<and>
   (containsCaseInsensitive sni ''yt3.ggpht'' \<longrightarrow> sniToAppType sni = GOOGLE)"
proof (intro conjI impI)
  assume "containsCaseInsensitive sni ''netflix.com''"
  then have "containsCaseInsensitive sni ''x.com''"
    by (rule contains_mono [rotated]) code_simp
  then have "sniToAppType sni \<in> snd ` set (take 22 APP_SIGNATURES)"
    by (rule app_of_prefix_hit [where a = TWITTER]) (simp_all add: APP_SIGNATURES_def)
  then show "sniToAppType sni \<noteq> NETFLIX" by (auto simp: APP_SIGNATURES_def)
next
  assume "containsCaseInsensitive sni ''microsoft.com''"
  then have "containsCaseInsensitive sni ''t.co''"
    by (rule contains_mono [rotated]) code_simp
  then have "sniToAppType sni \<in> snd ` set (take 22 APP_SIGNATURES)"
    by (rule app_of_prefix_hit [where a = TWITTER]) (simp_all add: APP_SIGNATURES_def)
  then show "sniToAppType sni \<noteq> MICROSOFT" by (auto simp: APP_SIGNATURES_def)
next
  assume "containsCaseInsensitive sni ''yt3.ggpht''"
  then have "containsCaseInsensitive sni ''ggpht''"
    by (rule contains_mono [rotated]) code_simp
  then have "sniToAppType sni \<in> snd ` set (take 5 APP_SIGNATURES)"
    by (rule app_of_prefix_hit [where a = GOOGLE]) (simp_all add: APP_SIGNATURES_def)
  then show "sniToAppType sni = GOOGLE" by (auto simp: APP_SIGNATURES_def)
qed


theorem signatures_shadowed_witness:
  "containsCaseInsensitive ''www.netflix.com'' ''netflix.com'' \<and>
   sniToAppType ''www.netflix.com'' \<noteq> NETFLIX \<and>
   sniToAppType ''WWW.Microsoft.com'' \<noteq> MICROSOFT \<and>
   sniToAppType ''yt3.ggpht.com'' = GOOGLE"
proof -
  have "containsCaseInsensitive ''www.netflix.com'' ''netflix.com''"
    "containsCaseInsensitive ''WWW.Microsoft.com'' ''microsoft.com''"
    "containsCaseInsensitive ''yt3.ggpht.com'' ''yt3.ggpht''"
    unfolding containsCaseInsensitive_iff by code_simp+
  then show ?thesis
    using signatures_shadowed [of "''www.netflix.com''"] signatures_shadowed [of "''WWW.Microsoft.com''"]
      signatures_shadowed [of "''yt3.ggpht.com''"] by blast
qed

end
