(* ===== verification/Pcap_Reader.thy ===== *)
theory Pcap_Reader
  imports Portable_Net
begin

text \<open>
  \<open>include/pcap_reader.h\<close> and \<open>src/pcap_reader.cpp\<close>. The file system is a parameter \<open>fs\<close>
  (the content of each file that can be opened), the host's byte order the parameter \<open>le\<close>.
  An \<open>ifstream\<close> is its unread bytes, whether it is open and its \<open>good()\<close> state. A structure
  filled by \<open>read\<close> is the one its bytes decode to: a short read overwrites a prefix of the
  old bytes.
\<close>

section \<open>The standard's input file stream\<close>

record ifstream =
  is_open :: bool
  rest :: bytes
  good :: bool

definition closed_stream :: ifstream where
  "closed_stream = \<lparr>is_open = False, rest = [], good = True\<rparr>"

definition ifs_open :: "(string \<Rightarrow> bytes option) \<Rightarrow> string \<Rightarrow> ifstream \<Rightarrow> ifstream" where
  "ifs_open fs name f =
     (case fs name of
        None \<Rightarrow> f\<lparr>is_open := False, good := False\<rparr>
      | Some bs \<Rightarrow> f\<lparr>is_open := True, rest := bs, good := True\<rparr>)"

definition ifs_close :: "ifstream \<Rightarrow> ifstream" where
  "ifs_close f = f\<lparr>is_open := False, rest := []\<rparr>"

definition ifs_read :: "nat \<Rightarrow> ifstream \<Rightarrow> bytes \<times> ifstream" where
  "ifs_read n f =
     (if \<not> good f then ([], f)
      else if n \<le> length (rest f) then (take n (rest f), f\<lparr>rest := drop n (rest f)\<rparr>)
      else (rest f, f\<lparr>rest := [], good := False\<rparr>))"

section \<open>Headers and their bytes\<close>

record pcap_global_header =
  magic_number :: u32
  version_major :: u16
  version_minor :: u16
  thiszone :: u32
  sigfigs :: u32
  snaplen :: u32
  network :: u32

record pcap_packet_header =
  ts_sec :: u32
  ts_usec :: u32
  incl_len :: u32
  orig_len :: u32

record raw_packet =
  header :: pcap_packet_header
  raw_data :: bytes

definition ld16 :: "bool \<Rightarrow> bytes \<Rightarrow> nat \<Rightarrow> u16" where
  "ld16 le bs i = load16 le (bs ! i) (bs ! (i + 1))"

definition ld32 :: "bool \<Rightarrow> bytes \<Rightarrow> nat \<Rightarrow> u32" where
  "ld32 le bs i = load32 le (bs ! i) (bs ! (i + 1)) (bs ! (i + 2)) (bs ! (i + 3))"

definition encode_global :: "bool \<Rightarrow> pcap_global_header \<Rightarrow> bytes" where
  "encode_global le h =
     store32 le (magic_number h) @ store16 le (version_major h) @ store16 le (version_minor h) @
     store32 le (thiszone h) @ store32 le (sigfigs h) @ store32 le (snaplen h) @
     store32 le (network h)"

definition decode_global :: "bool \<Rightarrow> bytes \<Rightarrow> pcap_global_header" where
  "decode_global le bs =
     \<lparr>magic_number = ld32 le bs 0, version_major = ld16 le bs 4, version_minor = ld16 le bs 6,
      thiszone = ld32 le bs 8, sigfigs = ld32 le bs 12, snaplen = ld32 le bs 16,
      network = ld32 le bs 20\<rparr>"

definition encode_packet_header :: "bool \<Rightarrow> pcap_packet_header \<Rightarrow> bytes" where
  "encode_packet_header le h =
     store32 le (ts_sec h) @ store32 le (ts_usec h) @ store32 le (incl_len h) @
     store32 le (orig_len h)"

definition decode_packet_header :: "bool \<Rightarrow> bytes \<Rightarrow> pcap_packet_header" where
  "decode_packet_header le bs =
     \<lparr>ts_sec = ld32 le bs 0, ts_usec = ld32 le bs 4, incl_len = ld32 le bs 8,
      orig_len = ld32 le bs 12\<rparr>"

definition overwrite :: "bytes \<Rightarrow> bytes \<Rightarrow> bytes" where
  "overwrite new old = new @ drop (length new) old"

section \<open>The reader\<close>

record pcap_reader =
  ifs :: ifstream
  global_header :: pcap_global_header
  needs_byte_swap :: bool

definition PCAP_MAGIC_NATIVE :: u32 where
  "PCAP_MAGIC_NATIVE = 0xa1b2c3d4"

definition PCAP_MAGIC_SWAPPED :: u32 where
  "PCAP_MAGIC_SWAPPED = 0xd4c3b2a1"

definition maybeSwap16 :: "pcap_reader \<Rightarrow> u16 \<Rightarrow> u16" where
  "maybeSwap16 r v =
     (if \<not> needs_byte_swap r then v
      else drop_bit 8 (v AND 0xFF00) OR push_bit 8 (v AND 0x00FF))"

definition maybeSwap32 :: "pcap_reader \<Rightarrow> u32 \<Rightarrow> u32" where
  "maybeSwap32 r v =
     (if \<not> needs_byte_swap r then v
      else drop_bit 24 (v AND 0xFF000000) OR drop_bit 8 (v AND 0x00FF0000) OR
           push_bit 8 (v AND 0x0000FF00) OR push_bit 24 (v AND 0x000000FF))"

definition close :: "pcap_reader \<Rightarrow> pcap_reader" where
  "close r =
     (let r = (if is_open (ifs r) then r\<lparr>ifs := ifs_close (ifs r)\<rparr> else r)
      in r\<lparr>needs_byte_swap := False\<rparr>)"

definition swap_global :: "pcap_reader \<Rightarrow> pcap_global_header \<Rightarrow> pcap_global_header" where
  "swap_global r h =
     h\<lparr>version_major := maybeSwap16 r (version_major h),
       version_minor := maybeSwap16 r (version_minor h),
       snaplen := maybeSwap32 r (snaplen h),
       network := maybeSwap32 r (network h)\<rparr>"

definition pcap_open ::
  "bool \<Rightarrow> (string \<Rightarrow> bytes option) \<Rightarrow> string \<Rightarrow> pcap_reader \<Rightarrow> bool \<times> pcap_reader" where
  "pcap_open le fs filename r =
     (let r = close r;
          r = r\<lparr>ifs := ifs_open fs filename (ifs r)\<rparr>
      in if \<not> is_open (ifs r) then (False, r)
         else
           let (got, f) = ifs_read 24 (ifs r);
               r = r\<lparr>ifs := f, global_header :=
                 decode_global le (overwrite got (encode_global le (global_header r)))\<rparr>
           in if \<not> good f then (False, close r)
              else if magic_number (global_header r) = PCAP_MAGIC_NATIVE then
                (True, r\<lparr>needs_byte_swap := False\<rparr>)
              else if magic_number (global_header r) = PCAP_MAGIC_SWAPPED then
                let r = r\<lparr>needs_byte_swap := True\<rparr>
                in (True, r\<lparr>global_header := swap_global r (global_header r)\<rparr>)
              else (False, close r))"

definition swap_packet_header :: "pcap_reader \<Rightarrow> pcap_packet_header \<Rightarrow> pcap_packet_header" where
  "swap_packet_header r h =
     (if needs_byte_swap r then
        h\<lparr>ts_sec := maybeSwap32 r (ts_sec h), ts_usec := maybeSwap32 r (ts_usec h),
          incl_len := maybeSwap32 r (incl_len h), orig_len := maybeSwap32 r (orig_len h)\<rparr>
      else h)"

definition resize :: "nat \<Rightarrow> bytes \<Rightarrow> bytes" where
  "resize n xs = take n xs @ replicate (n - length xs) 0"

definition readNextPacket ::
  "bool \<Rightarrow> pcap_reader \<Rightarrow> raw_packet \<Rightarrow> bool \<times> pcap_reader \<times> raw_packet" where
  "readNextPacket le r packet =
     (if \<not> is_open (ifs r) then (False, r, packet)
      else
        let (got, f) = ifs_read 16 (ifs r);
            r = r\<lparr>ifs := f\<rparr>;
            packet = packet\<lparr>header := decode_packet_header le
              (overwrite got (encode_packet_header le (header packet)))\<rparr>
        in if \<not> good f then (False, r, packet)
           else
             let packet = packet\<lparr>header := swap_packet_header r (header packet)\<rparr>;
                 len = incl_len (header packet)
             in if len > snaplen (global_header r) \<or> len > 65535 then (False, r, packet)
                else
                  let buf = resize (unat len) (raw_data packet);
                      (got, f) = ifs_read (unat len) (ifs r);
                      r = r\<lparr>ifs := f\<rparr>;
                      packet = packet\<lparr>raw_data := overwrite got buf\<rparr>
                  in (good f, r, packet))"


section \<open>Loads and stores of the header fields\<close>

lemma load16_store16_other:
  "store16 fe v = [a, b] \<Longrightarrow> load16 le a b = (if fe = le then v else swapBytes16 v)"
  using load16_store16 [of fe v a b] swap_load16 [of le a b] by (cases "fe = le") auto

lemma load32_store32_other:
  "store32 fe v = [a, b, c, d] \<Longrightarrow> load32 le a b c d = (if fe = le then v else swapBytes32 v)"
  using load32_store32 [of fe v a b c d] swap_load32 [of le a b c d] by (cases "fe = le") auto

lemma list4: "length xs = 4 \<Longrightarrow> xs = [xs ! 0, xs ! 1, xs ! 2, xs ! 3]"
  by (auto simp: numeral_eq_Suc length_Suc_conv)

lemma list2: "length xs = 2 \<Longrightarrow> xs = [xs ! 0, xs ! 1]"
  by (auto simp: numeral_eq_Suc length_Suc_conv)

lemma ld16_store16:
  assumes "drop i bs = store16 fe v @ ys" and "i \<le> length bs"
  shows "ld16 le bs i = (if fe = le then v else swapBytes16 v)"
proof -
  have n: "bs ! (i + k) = store16 fe v ! k" if "k < 2" for k
    using assms that by (metis length_store16 nth_append nth_drop)
  show ?thesis unfolding ld16_def
    by (rule load16_store16_other) (metis One_nat_def add.right_neutral length_store16 lessI
      list2 n numeral_2_eq_2 zero_less_numeral)
qed

lemma ld32_store32:
  assumes "drop i bs = store32 fe v @ ys" and "i \<le> length bs"
  shows "ld32 le bs i = (if fe = le then v else swapBytes32 v)"
proof -
  have n: "bs ! (i + k) = store32 fe v ! k" if "k < 4" for k
    using assms that by (metis length_store32 nth_append nth_drop)
  have "store32 fe v = [bs ! i, bs ! (i + 1), bs ! (i + 2), bs ! (i + 3)]"
    using n [of 0] n [of 1] n [of 2] n [of 3] list4 [of "store32 fe v"] by simp
  then show ?thesis unfolding ld32_def by (rule load32_store32_other)
qed

lemma length_encode_global [simp]: "length (encode_global le h) = 24"
  by (simp add: encode_global_def)

lemma length_encode_packet_header [simp]: "length (encode_packet_header le h) = 16"
  by (simp add: encode_packet_header_def)

text \<open>The header a host reads from bytes of either byte order, before any swap.\<close>

definition flip_global :: "bool \<Rightarrow> pcap_global_header \<Rightarrow> pcap_global_header" where
  "flip_global other h =
     (if other then
        \<lparr>magic_number = swapBytes32 (magic_number h), version_major = swapBytes16 (version_major h),
         version_minor = swapBytes16 (version_minor h), thiszone = swapBytes32 (thiszone h),
         sigfigs = swapBytes32 (sigfigs h), snaplen = swapBytes32 (snaplen h),
         network = swapBytes32 (network h)\<rparr>
      else h)"

definition flip_packet_header :: "bool \<Rightarrow> pcap_packet_header \<Rightarrow> pcap_packet_header" where
  "flip_packet_header other h =
     (if other then
        \<lparr>ts_sec = swapBytes32 (ts_sec h), ts_usec = swapBytes32 (ts_usec h),
         incl_len = swapBytes32 (incl_len h), orig_len = swapBytes32 (orig_len h)\<rparr>
      else h)"

lemma decode_encode_global: "decode_global le (encode_global fe h) = flip_global (fe \<noteq> le) h"
proof -
  let ?bs = "encode_global fe h"
  have d: "ld32 le ?bs 0 = (if fe = le then magic_number h else swapBytes32 (magic_number h))"
    "ld16 le ?bs 4 = (if fe = le then version_major h else swapBytes16 (version_major h))"
    "ld16 le ?bs 6 = (if fe = le then version_minor h else swapBytes16 (version_minor h))"
    "ld32 le ?bs 8 = (if fe = le then thiszone h else swapBytes32 (thiszone h))"
    "ld32 le ?bs 12 = (if fe = le then sigfigs h else swapBytes32 (sigfigs h))"
    "ld32 le ?bs 16 = (if fe = le then snaplen h else swapBytes32 (snaplen h))"
    "ld32 le ?bs 20 = (if fe = le then network h else swapBytes32 (network h))"
    by (rule ld32_store32 ld16_store16; simp add: encode_global_def)+
  show ?thesis
    unfolding decode_global_def d by (simp add: flip_global_def)
qed

lemma decode_encode_packet_header:
  "decode_packet_header le (encode_packet_header fe h) = flip_packet_header (fe \<noteq> le) h"
proof -
  let ?bs = "encode_packet_header fe h"
  have d: "ld32 le ?bs 0 = (if fe = le then ts_sec h else swapBytes32 (ts_sec h))"
    "ld32 le ?bs 4 = (if fe = le then ts_usec h else swapBytes32 (ts_usec h))"
    "ld32 le ?bs 8 = (if fe = le then incl_len h else swapBytes32 (incl_len h))"
    "ld32 le ?bs 12 = (if fe = le then orig_len h else swapBytes32 (orig_len h))"
    by (rule ld32_store32; simp add: encode_packet_header_def)+
  show ?thesis
    unfolding decode_packet_header_def d by (simp add: flip_packet_header_def)
qed


section \<open>Reading every packet\<close>

text \<open>
  The loop of \<open>readerThreadFunc\<close> around \<open>readNextPacket\<close>: the packets it sees, in order.
  Each successful read takes at least a packet header from the stream.
\<close>

lemma ifs_read_rest: "ifs_read n f = (got, f') \<Longrightarrow> good f' \<Longrightarrow> length (rest f) = n + length (rest f')"
  by (auto simp: ifs_read_def split: if_splits)

lemma readNextPacket_shrinks:
  assumes "readNextPacket le r p = (True, r', p')"
  shows "length (rest (ifs r')) < length (rest (ifs r))"
proof -
  obtain got f where 1: "ifs_read 16 (ifs r) = (got, f)" by fastforce
  let ?r = "r\<lparr>ifs := f\<rparr>"
  let ?h = "swap_packet_header ?r (decode_packet_header le
    (overwrite got (encode_packet_header le (header p))))"
  obtain got' f' where 2: "ifs_read (unat (incl_len ?h)) f = (got', f')" by fastforce
  have "good f" "good f'" "ifs r' = f'"
    using assms 1 2 by (auto simp: readNextPacket_def Let_def split: if_splits)
  then show ?thesis using ifs_read_rest [OF 1] ifs_read_rest [OF 2] by simp
qed

function read_packets :: "bool \<Rightarrow> pcap_reader \<Rightarrow> raw_packet \<Rightarrow> raw_packet list" where
  "read_packets le r packet =
     (case readNextPacket le r packet of
        (ok, r', packet') \<Rightarrow> if ok then packet' # read_packets le r' packet' else [])"
  by pat_completeness auto
termination
  by (relation "measure (\<lambda>(le, r, p). length (rest (ifs r)))")
     (auto dest: readNextPacket_shrinks [OF sym])

declare read_packets.simps [simp del]


section \<open>What the reader makes of a file\<close>

lemma maybeSwap16_eq: "maybeSwap16 r v = (if needs_byte_swap r then swapBytes16 v else v)"
  by (simp add: maybeSwap16_def swapBytes16_def)

lemma maybeSwap32_eq: "maybeSwap32 r v = (if needs_byte_swap r then swapBytes32 v else v)"
  by (simp add: maybeSwap32_def swapBytes32_def)

lemmas swap_simps =
  maybeSwap16_eq maybeSwap32_eq swapBytes16_involution swapBytes32_involution

lemma overwrite_all [simp]: "length old \<le> length new \<Longrightarrow> overwrite new old = new"
  by (simp add: overwrite_def)

lemma length_resize [simp]: "length (resize n xs) = n"
  by (simp add: resize_def)

definition packet_bytes :: "bool \<Rightarrow> raw_packet \<Rightarrow> bytes" where
  "packet_bytes fe p = encode_packet_header fe (header p) @ raw_data p"

definition pcap_bytes :: "bool \<Rightarrow> pcap_global_header \<Rightarrow> raw_packet list \<Rightarrow> bytes" where
  "pcap_bytes fe h ps = encode_global fe h @ concat (map (packet_bytes fe) ps)"

definition fits :: "u32 \<Rightarrow> raw_packet \<Rightarrow> bool" where
  "fits snap p \<longleftrightarrow>
     unat (incl_len (header p)) = length (raw_data p) \<and>
     incl_len (header p) \<le> snap \<and> incl_len (header p) \<le> 65535"

lemma swap_flip_packet_header:
  "needs_byte_swap r = other \<Longrightarrow> swap_packet_header r (flip_packet_header other h) = h"
  by (simp add: swap_packet_header_def flip_packet_header_def swap_simps)

lemma raw_packet_upd: "(q :: raw_packet)\<lparr>header := header p, raw_data := raw_data p\<rparr> = p"
  by (cases p; cases q) simp

lemma readNextPacket_packet_bytes:
  assumes "is_open (ifs r)" "good (ifs r)" "rest (ifs r) = packet_bytes fe p @ tail"
    and "needs_byte_swap r \<longleftrightarrow> fe \<noteq> le" "fits (snaplen (global_header r)) p"
  shows "readNextPacket le r q = (True, r\<lparr>ifs := (ifs r)\<lparr>rest := tail\<rparr>\<rparr>, p)"
proof -
  let ?f = "(ifs r)\<lparr>rest := raw_data p @ tail\<rparr>"
  let ?r = "r\<lparr>ifs := ?f\<rparr>"
  have 1: "ifs_read 16 (ifs r) = (encode_packet_header fe (header p), ?f)"
    using assms by (simp add: ifs_read_def packet_bytes_def)
  have h: "swap_packet_header ?r (flip_packet_header (fe \<noteq> le) (header p)) = header p"
    using assms by (intro swap_flip_packet_header) simp
  have 2: "ifs_read (length (raw_data p)) ?f = (raw_data p, (ifs r)\<lparr>rest := tail\<rparr>)"
    using assms by (simp add: ifs_read_def)
  have len: "unat (incl_len (header p)) = length (raw_data p)"
    "\<not> (incl_len (header p) > snaplen (global_header r) \<or> incl_len (header p) > 65535)"
    using assms by (auto simp: fits_def)
  show ?thesis
    using assms(1,2) 2 len
    by (simp add: readNextPacket_def Let_def 1 h [simplified] decode_encode_packet_header raw_packet_upd)
qed

lemma readNextPacket_too_long:
  assumes "is_open (ifs r)" "good (ifs r)" "rest (ifs r) = packet_bytes fe p @ tail"
    and "needs_byte_swap r \<longleftrightarrow> fe \<noteq> le"
    and "incl_len (header p) > snaplen (global_header r) \<or> incl_len (header p) > 65535"
  shows "fst (readNextPacket le r q) = False"
proof -
  let ?f = "(ifs r)\<lparr>rest := raw_data p @ tail\<rparr>"
  let ?r = "r\<lparr>ifs := ?f\<rparr>"
  have 1: "ifs_read 16 (ifs r) = (encode_packet_header fe (header p), ?f)"
    using assms by (simp add: ifs_read_def packet_bytes_def)
  have h: "swap_packet_header ?r (flip_packet_header (fe \<noteq> le) (header p)) = header p"
    using assms by (intro swap_flip_packet_header) simp
  show ?thesis using assms
    by (auto simp: readNextPacket_def Let_def 1 h [simplified] decode_encode_packet_header)
qed

lemma read_packets_bytes:
  assumes "is_open (ifs r)" "good (ifs r)" "rest (ifs r) = concat (map (packet_bytes fe) ps)"
    and "needs_byte_swap r \<longleftrightarrow> fe \<noteq> le" "snaplen (global_header r) = snap"
    and "\<forall>p \<in> set ps. unat (incl_len (header p)) = length (raw_data p)"
  shows "read_packets le r q = takeWhile (fits snap) ps"
  using assms
proof (induction ps arbitrary: r q)
  case Nil
  then have "fst (readNextPacket le r q) = False"
    by (simp add: readNextPacket_def ifs_read_def)
  then show ?case by (auto simp: read_packets.simps [of le r q] split: prod.splits)
next
  case (Cons p ps)
  let ?r = "r\<lparr>ifs := (ifs r)\<lparr>rest := concat (map (packet_bytes fe) ps)\<rparr>\<rparr>"
  show ?case
  proof (cases "fits snap p")
    case True
    then have "readNextPacket le r q = (True, ?r, p)"
      using Cons.prems by (intro readNextPacket_packet_bytes) auto
    moreover have "read_packets le ?r p = takeWhile (fits snap) ps"
      using Cons.prems by (intro Cons.IH) auto
    ultimately show ?thesis using True by (simp add: read_packets.simps [of le r q])
  next
    case False
    then have "fst (readNextPacket le r q) = False"
      using Cons.prems by (intro readNextPacket_too_long) (auto simp: fits_def)
    then show ?thesis using False
      by (auto simp: read_packets.simps [of le r q] split: prod.splits)
  qed
qed

lemma magic_swapped: "swapBytes32 PCAP_MAGIC_NATIVE = PCAP_MAGIC_SWAPPED"
  by (simp add: PCAP_MAGIC_NATIVE_def PCAP_MAGIC_SWAPPED_def swapBytes32_def)

text \<open>
  The header \<open>pcap_open\<close> leaves behind for a file of byte order \<open>fe\<close>: four fields are
  swapped back, but the magic number, the time zone and the accuracy are not.
\<close>

definition opened_header :: "bool \<Rightarrow> bool \<Rightarrow> pcap_global_header \<Rightarrow> pcap_global_header" where
  "opened_header le fe h =
     (if fe = le then h
      else h\<lparr>magic_number := PCAP_MAGIC_SWAPPED, thiszone := swapBytes32 (thiszone h),
             sigfigs := swapBytes32 (sigfigs h)\<rparr>)"

lemma pcap_open_bytes:
  assumes "fs name = Some (encode_global fe h @ tail)"
    and "magic_number h = PCAP_MAGIC_NATIVE"
  shows "pcap_open le fs name r =
    (True, \<lparr>ifs = \<lparr>is_open = True, rest = tail, good = True\<rparr>,
            global_header = opened_header le fe h, needs_byte_swap = (fe \<noteq> le)\<rparr>)"
proof -
  have m: "PCAP_MAGIC_SWAPPED \<noteq> PCAP_MAGIC_NATIVE"
    by (simp add: PCAP_MAGIC_NATIVE_def PCAP_MAGIC_SWAPPED_def)
  have sw: "swap_global r (flip_global True h) = opened_header le (\<not> le) h"
    if "needs_byte_swap r" for r
    using assms(2) that
    by (simp add: swap_global_def flip_global_def opened_header_def magic_swapped swap_simps)
  show ?thesis
    using assms m sw
    by (cases "fe = le")
       (simp_all add: pcap_open_def Let_def ifs_open_def ifs_read_def decode_encode_global
          opened_header_def flip_global_def magic_swapped close_def ifs_close_def)
qed


lemma ifs_open_simps [simp]:
  "fs name = None \<Longrightarrow> is_open (ifs_open fs name f) = False"
  "fs name = Some bs \<Longrightarrow> ifs_open fs name f = f\<lparr>is_open := True, rest := bs, good := True\<rparr>"
  by (simp_all add: ifs_open_def)

lemma close_closed [simp]: "\<not> is_open (ifs (close r))" "\<not> needs_byte_swap (close r)"
  by (simp_all add: close_def ifs_close_def Let_def)

lemma ld32_take: "24 \<le> length bs \<Longrightarrow> ld32 le (take 24 bs) 0 = ld32 le bs 0"
  by (simp add: ld32_def)

text \<open>\<open>open\<close> succeeds exactly on a readable file that holds a whole global header with one
  of the two magic numbers in the host's byte order; otherwise the stream is closed again and
  no byte swap is left set.\<close>

theorem pcap_open_accepts:
  "(fst (pcap_open le fs name r) \<longleftrightarrow>
      (\<exists>bs. fs name = Some bs \<and> 24 \<le> length bs \<and>
            (ld32 le bs 0 = PCAP_MAGIC_NATIVE \<or> ld32 le bs 0 = PCAP_MAGIC_SWAPPED))) \<and>
   (\<not> fst (pcap_open le fs name r) \<longrightarrow>
      \<not> is_open (ifs (snd (pcap_open le fs name r))) \<and>
      \<not> needs_byte_swap (snd (pcap_open le fs name r)))"
proof (cases "fs name")
  case None
  then show ?thesis by (simp add: pcap_open_def Let_def)
next
  case (Some bs)
  then show ?thesis
    by (auto simp: pcap_open_def Let_def ifs_read_def decode_global_def ld32_take)
qed

theorem pcap_open_accepts_witness:
  "\<forall>r. fst (pcap_open True (\<lambda>_. Some (store32 True PCAP_MAGIC_NATIVE @ replicate 20 0)) ''in.pcap'' r) \<and>
   \<not> fst (pcap_open True (\<lambda>_. Some [0xd4]) ''in.pcap'' r) \<and>
   \<not> is_open (ifs (snd (pcap_open True (\<lambda>_. Some [0xd4]) ''in.pcap'' r)))"
proof
  fix r :: pcap_reader
  let ?bs = "store32 True PCAP_MAGIC_NATIVE @ replicate 20 0"
  have "ld32 True ?bs 0 = PCAP_MAGIC_NATIVE"
    using ld32_store32 [of 0 ?bs True PCAP_MAGIC_NATIVE "replicate 20 0" True] by simp
  then have "fst (pcap_open True (\<lambda>_. Some ?bs) ''in.pcap'' r)"
    by (simp add: pcap_open_accepts)
  moreover have "\<not> fst (pcap_open True (\<lambda>_. Some [0xd4]) ''in.pcap'' r)"
    by (simp add: pcap_open_accepts)
  ultimately show "fst (pcap_open True (\<lambda>_. Some ?bs) ''in.pcap'' r) \<and>
      \<not> fst (pcap_open True (\<lambda>_. Some [0xd4]) ''in.pcap'' r) \<and>
      \<not> is_open (ifs (snd (pcap_open True (\<lambda>_. Some [0xd4]) ''in.pcap'' r)))"
    by (simp add: pcap_open_accepts)
qed

text \<open>C36: a capture written in either byte order, read on a host of either byte order, gives
  back its packets, headers and data, up to the first packet longer than the snapshot length
  or 65535 bytes; there the reader stops, whatever follows.\<close>

theorem pcap_round_trip:
  assumes "fs name = Some (pcap_bytes fe h ps)" and "magic_number h = PCAP_MAGIC_NATIVE"
    and "\<forall>p \<in> set ps. unat (incl_len (header p)) = length (raw_data p)"
  shows "\<exists>r'. pcap_open le fs name r = (True, r') \<and>
    read_packets le r' q = takeWhile (fits (snaplen h)) ps"
proof -
  let ?body = "concat (map (packet_bytes fe) ps)"
  let ?r = "\<lparr>ifs = \<lparr>is_open = True, rest = ?body, good = True\<rparr>,
    global_header = opened_header le fe h, needs_byte_swap = (fe \<noteq> le)\<rparr>"
  have "pcap_open le fs name r = (True, ?r)"
    using assms by (intro pcap_open_bytes) (simp_all add: pcap_bytes_def)
  moreover have "read_packets le ?r q = takeWhile (fits (snaplen h)) ps"
    using assms by (intro read_packets_bytes [where fe = fe]) (auto simp: opened_header_def)
  ultimately show ?thesis by blast
qed

theorem pcap_round_trip_witness:
  "let h = \<lparr>magic_number = PCAP_MAGIC_NATIVE, version_major = 2, version_minor = 4, thiszone = 0,
            sigfigs = 0, snaplen = 4, network = 1\<rparr>;
       pkt = (\<lambda>n. \<lparr>header = \<lparr>ts_sec = 7, ts_usec = 8, incl_len = of_nat n, orig_len = 9\<rparr>,
                   raw_data = replicate n 0xAB\<rparr>)
   in \<forall>r q. \<exists>r'. pcap_open True (\<lambda>_. Some (pcap_bytes False h [pkt 3, pkt 5, pkt 2])) ''be.pcap'' r = (True, r')
        \<and> read_packets True r' q = [pkt 3]"
proof -
  let ?h = "\<lparr>magic_number = PCAP_MAGIC_NATIVE, version_major = 2, version_minor = 4, thiszone = 0,
            sigfigs = 0, snaplen = 4, network = 1\<rparr>"
  let ?pkt = "\<lambda>n. \<lparr>header = \<lparr>ts_sec = 7, ts_usec = 8, incl_len = of_nat n, orig_len = 9\<rparr>,
                   raw_data = replicate n 0xAB\<rparr>"
  have "takeWhile (fits (snaplen ?h)) [?pkt 3, ?pkt 5, ?pkt 2] = [?pkt 3]"
    by (simp add: fits_def)
  then show ?thesis
    using pcap_round_trip [of "\<lambda>_. Some (pcap_bytes False ?h [?pkt 3, ?pkt 5, ?pkt 2])"
        "''be.pcap''" False ?h "[?pkt 3, ?pkt 5, ?pkt 2]" True]
    by (simp add: Let_def)
qed

end
