(* ===== verification/Packet_Parser.thy ===== *)
theory Packet_Parser
  imports Aegis_Types Portable_Net Pcap_Reader
begin

text \<open>
  \<open>include/packet_parser.h\<close> and \<open>src/packet_parser.cpp\<close>: the Ethernet, IPv4, TCP and UDP
  layers of a captured frame. Every read of the frame is a checked read, so a result
  \<open>Inr\<close> says that no byte outside the captured data was touched. The layer parsers change
  the packet record field by field as the code does, also on the paths that return false.
\<close>

section \<open>The parsed packet\<close>

record parsed_packet =
  timestamp_sec :: u32
  timestamp_usec :: u32
  src_mac :: string
  dest_mac :: string
  ether_type :: u16
  has_ip :: bool
  ip_version :: u8
  src_ip_str :: string
  dest_ip_str :: string
  ip_protocol :: u8
  ttl :: u8
  has_tcp :: bool
  has_udp :: bool
  l4_src_port :: u16
  l4_dest_port :: u16
  tcp_flags :: u8
  seq_number :: u32
  ack_number :: u32
  parsed_payload_length :: nat
  parsed_payload_data :: "nat option"

text \<open>\<open>ParsedPacket()\<close> value-initialises: every field starts as zero.\<close>

definition empty_packet :: parsed_packet where
  "empty_packet =
     \<lparr>timestamp_sec = 0, timestamp_usec = 0, src_mac = [], dest_mac = [], ether_type = 0,
      has_ip = False, ip_version = 0, src_ip_str = [], dest_ip_str = [], ip_protocol = 0, ttl = 0,
      has_tcp = False, has_udp = False, l4_src_port = 0, l4_dest_port = 0, tcp_flags = 0,
      seq_number = 0, ack_number = 0, parsed_payload_length = 0, parsed_payload_data = None\<rparr>"

definition FIN :: u8 where "FIN = 0x01"
definition SYN :: u8 where "SYN = 0x02"
definition RST :: u8 where "RST = 0x04"
definition PSH :: u8 where "PSH = 0x08"
definition ACK :: u8 where "ACK = 0x10"
definition URG :: u8 where "URG = 0x20"

definition ICMP_PROTO :: u8 where "ICMP_PROTO = 1"
definition TCP_PROTO :: u8 where "TCP_PROTO = 6"
definition UDP_PROTO :: u8 where "UDP_PROTO = 17"
definition ETHERTYPE_IPv4 :: u16 where "ETHERTYPE_IPv4 = 0x0800"

section \<open>Text forms\<close>

definition hex_digit :: "nat \<Rightarrow> char" where
  "hex_digit n = (if n < 10 then char_of (48 + n) else char_of (87 + n))"

definition hex2 :: "u8 \<Rightarrow> string" where
  "hex2 b = [hex_digit (unat b div 16), hex_digit (unat b mod 16)]"

function mac_loop :: "bytes \<Rightarrow> nat \<Rightarrow> nat \<Rightarrow> string \<Rightarrow> string res" where
  "mac_loop m mac i ss =
     (if i < 6 then
        andThen (rd m (int (mac + i)))
          (\<lambda>b. mac_loop m mac (i + 1) (ss @ (if i > 0 then '':'' else []) @ hex2 b))
      else Inr ss)"
  by pat_completeness auto
termination
  by (relation "measure (\<lambda>(m, mac, i, ss). 6 - i)") auto

declare mac_loop.simps [simp del]

definition macToString :: "bytes \<Rightarrow> nat \<Rightarrow> string res" where
  "macToString m mac = mac_loop m mac 0 []"

definition ipToString :: "u32 \<Rightarrow> string" where
  "ipToString ip =
     dec (unat (drop_bit 0 ip AND 0xFF)) @ ''.'' @
     dec (unat (drop_bit 8 ip AND 0xFF)) @ ''.'' @
     dec (unat (drop_bit 16 ip AND 0xFF)) @ ''.'' @
     dec (unat (drop_bit 24 ip AND 0xFF))"

definition protocolToString :: "u8 \<Rightarrow> string" where
  "protocolToString p =
     (if p = ICMP_PROTO then ''ICMP'' else if p = TCP_PROTO then ''TCP''
      else if p = UDP_PROTO then ''UDP'' else ''Unknown('' @ dec (unat p) @ '')'')"

definition tcpFlagsToString :: "u8 \<Rightarrow> string" where
  "tcpFlagsToString flags =
     (let result = (if flags AND SYN \<noteq> 0 then ''SYN '' else []) @
                   (if flags AND ACK \<noteq> 0 then ''ACK '' else []) @
                   (if flags AND FIN \<noteq> 0 then ''FIN '' else []) @
                   (if flags AND RST \<noteq> 0 then ''RST '' else []) @
                   (if flags AND PSH \<noteq> 0 then ''PSH '' else []) @
                   (if flags AND URG \<noteq> 0 then ''URG '' else []);
          result = (if result \<noteq> [] then butlast result else result)
      in if result = [] then ''none'' else result)"

section \<open>The layers\<close>

definition rd16 :: "bool \<Rightarrow> bytes \<Rightarrow> nat \<Rightarrow> u16 res" where
  "rd16 le m i =
     andThen (rd m (int i)) (\<lambda>a. andThen (rd m (int (i + 1))) (\<lambda>b. Inr (load16 le a b)))"

definition rd32 :: "bool \<Rightarrow> bytes \<Rightarrow> nat \<Rightarrow> u32 res" where
  "rd32 le m i =
     andThen (rd m (int i)) (\<lambda>a. andThen (rd m (int (i + 1))) (\<lambda>b.
     andThen (rd m (int (i + 2))) (\<lambda>c. andThen (rd m (int (i + 3))) (\<lambda>d.
       Inr (load32 le a b c d)))))"

definition parseEthernet ::
  "bool \<Rightarrow> bytes \<Rightarrow> nat \<Rightarrow> parsed_packet \<Rightarrow> nat \<Rightarrow> (bool \<times> parsed_packet \<times> nat) res" where
  "parseEthernet le data len parsed offset =
     (if len < 14 then Inr (False, parsed, offset)
      else
        andThen (macToString data 0) (\<lambda>dm.
        andThen (macToString data 6) (\<lambda>sm.
        andThen (rd16 le data 12) (\<lambda>et.
          Inr (True, parsed\<lparr>dest_mac := dm, src_mac := sm, ether_type := netToHost16 le et\<rparr>,
               14)))))"

definition parseIPv4 ::
  "bool \<Rightarrow> bytes \<Rightarrow> nat \<Rightarrow> parsed_packet \<Rightarrow> nat \<Rightarrow> (bool \<times> parsed_packet \<times> nat) res" where
  "parseIPv4 le data len parsed offset =
     (if len < offset + 20 then Inr (False, parsed, offset)
      else
        andThen (rd data (int offset)) (\<lambda>version_ihl.
          let parsed = parsed\<lparr>ip_version := drop_bit 4 version_ihl AND 0x0F\<rparr>;
              ihl = version_ihl AND 0x0F
          in if ip_version parsed \<noteq> 4 then Inr (False, parsed, offset)
             else
               let ip_header_len = unat ihl * 4
               in if ip_header_len < 20 \<or> len < offset + ip_header_len
                  then Inr (False, parsed, offset)
                  else
                    andThen (rd data (int (offset + 8))) (\<lambda>t.
                    andThen (rd data (int (offset + 9))) (\<lambda>pr.
                    andThen (rd32 le data (offset + 12)) (\<lambda>src.
                    andThen (rd32 le data (offset + 16)) (\<lambda>dest.
                      Inr (True, parsed\<lparr>ttl := t, ip_protocol := pr, src_ip_str := ipToString src,
                             dest_ip_str := ipToString dest, has_ip := True\<rparr>,
                           offset + ip_header_len)))))))"

definition parseTCP ::
  "bool \<Rightarrow> bytes \<Rightarrow> nat \<Rightarrow> parsed_packet \<Rightarrow> nat \<Rightarrow> (bool \<times> parsed_packet \<times> nat) res" where
  "parseTCP le data len parsed offset =
     (if len < offset + 20 then Inr (False, parsed, offset)
      else
        andThen (rd16 le data offset) (\<lambda>sp.
        andThen (rd16 le data (offset + 2)) (\<lambda>dp.
        andThen (rd32 le data (offset + 4)) (\<lambda>sq.
        andThen (rd32 le data (offset + 8)) (\<lambda>ak.
        andThen (rd data (int (offset + 12))) (\<lambda>d12.
        andThen (rd data (int (offset + 13))) (\<lambda>fl.
          let parsed = parsed\<lparr>l4_src_port := netToHost16 le sp, l4_dest_port := netToHost16 le dp,
                seq_number := netToHost32 le sq, ack_number := netToHost32 le ak,
                tcp_flags := fl\<rparr>;
              tcp_header_len = unat (drop_bit 4 d12 AND 0x0F) * 4
          in if tcp_header_len < 20 \<or> len < offset + tcp_header_len
             then Inr (False, parsed, offset)
             else Inr (True, parsed\<lparr>has_tcp := True\<rparr>, offset + tcp_header_len))))))))"

definition parseUDP ::
  "bool \<Rightarrow> bytes \<Rightarrow> nat \<Rightarrow> parsed_packet \<Rightarrow> nat \<Rightarrow> (bool \<times> parsed_packet \<times> nat) res" where
  "parseUDP le data len parsed offset =
     (if len < offset + 8 then Inr (False, parsed, offset)
      else
        andThen (rd16 le data offset) (\<lambda>sp.
        andThen (rd16 le data (offset + 2)) (\<lambda>dp.
          Inr (True, parsed\<lparr>l4_src_port := netToHost16 le sp, l4_dest_port := netToHost16 le dp,
                 has_udp := True\<rparr>, offset + 8))))"

definition parse_l4 ::
  "bool \<Rightarrow> bytes \<Rightarrow> nat \<Rightarrow> parsed_packet \<Rightarrow> nat \<Rightarrow> (bool \<times> parsed_packet \<times> nat) res" where
  "parse_l4 le data len parsed offset =
     (if ip_protocol parsed = TCP_PROTO then parseTCP le data len parsed offset
      else if ip_protocol parsed = UDP_PROTO then parseUDP le data len parsed offset
      else Inr (True, parsed, offset))"

definition parse_l3 ::
  "bool \<Rightarrow> bytes \<Rightarrow> nat \<Rightarrow> parsed_packet \<Rightarrow> nat \<Rightarrow> (bool \<times> parsed_packet \<times> nat) res" where
  "parse_l3 le data len parsed offset =
     (if ether_type parsed = ETHERTYPE_IPv4 then
        andThen (parseIPv4 le data len parsed offset) (\<lambda>(ok, parsed, offset).
          if \<not> ok then Inr (False, parsed, offset) else parse_l4 le data len parsed offset)
      else Inr (True, parsed, offset))"

definition set_payload :: "nat \<Rightarrow> parsed_packet \<Rightarrow> nat \<Rightarrow> parsed_packet" where
  "set_payload len parsed offset =
     (if offset < len
      then parsed\<lparr>parsed_payload_length := len - offset, parsed_payload_data := Some offset\<rparr>
      else parsed\<lparr>parsed_payload_length := 0, parsed_payload_data := None\<rparr>)"

definition parse :: "bool \<Rightarrow> raw_packet \<Rightarrow> (bool \<times> parsed_packet) res" where
  "parse le raw =
     (let parsed = empty_packet\<lparr>timestamp_sec := ts_sec (header raw),
            timestamp_usec := ts_usec (header raw)\<rparr>;
          data = raw_data raw; len = length data
      in andThen (parseEthernet le data len parsed 0) (\<lambda>(ok, parsed, offset).
           if \<not> ok then Inr (False, parsed)
           else
             andThen (parse_l3 le data len parsed offset) (\<lambda>(ok, parsed, offset).
               if \<not> ok then Inr (False, parsed)
               else Inr (True, set_payload len parsed offset))))"


section \<open>The layout of a frame\<close>

text \<open>
  Where the layers of a frame lie and when it is well formed, stated on the bytes alone:
  the specification the layer parsers are checked against.
\<close>

definition l3_len :: "bytes \<Rightarrow> nat" where
  "l3_len d = unat (d ! 14 AND 0x0F) * 4"

definition l4_off :: "bytes \<Rightarrow> nat" where
  "l4_off d = 14 + l3_len d"

definition tcp_len :: "bytes \<Rightarrow> nat" where
  "tcp_len d = unat (drop_bit 4 (d ! (l4_off d + 12)) AND 0x0F) * 4"

definition ipv4_frame :: "bytes \<Rightarrow> bool" where
  "ipv4_frame d \<longleftrightarrow>
     34 \<le> length d \<and> be16 (d ! 12) (d ! 13) = ETHERTYPE_IPv4 \<and>
     drop_bit 4 (d ! 14) AND 0x0F = 4 \<and> 20 \<le> l3_len d \<and> l4_off d \<le> length d"

definition tcp_frame :: "bytes \<Rightarrow> bool" where
  "tcp_frame d \<longleftrightarrow>
     ipv4_frame d \<and> d ! 23 = TCP_PROTO \<and> l4_off d + 20 \<le> length d \<and>
     20 \<le> tcp_len d \<and> l4_off d + tcp_len d \<le> length d"

definition udp_frame :: "bytes \<Rightarrow> bool" where
  "udp_frame d \<longleftrightarrow> ipv4_frame d \<and> d ! 23 = UDP_PROTO \<and> l4_off d + 8 \<le> length d"

definition payload_start :: "bytes \<Rightarrow> nat" where
  "payload_start d = l4_off d + (if d ! 23 = TCP_PROTO then tcp_len d else 8)"

lemmas frame_defs = ipv4_frame_def tcp_frame_def udp_frame_def

lemma rd_int [simp]: "k < length m \<Longrightarrow> rd m (int k) = Inr (m ! k)"
  by (rule rd_nth)

lemma rd_0 [simp]: "0 < length m \<Longrightarrow> rd m 0 = Inr (m ! 0)"
  using rd_nth [of 0 m] by simp

lemma rd_numeral [simp]: "numeral k < length m \<Longrightarrow> rd m (numeral k) = Inr (m ! numeral k)"
  using rd_nth [of "numeral k" m] by simp

lemma rd16_eq: "i + 1 < length m \<Longrightarrow> rd16 le m i = Inr (load16 le (m ! i) (m ! (i + 1)))"
  unfolding rd16_def by (subst rd_nth, simp, subst andThen.simps, subst rd_nth) simp_all

lemma rd32_eq:
  "i + 3 < length m \<Longrightarrow>
   rd32 le m i = Inr (load32 le (m ! i) (m ! (i + 1)) (m ! (i + 2)) (m ! (i + 3)))"
  unfolding rd32_def
  by (subst rd_nth, simp, subst andThen.simps, subst rd_nth, simp, subst andThen.simps,
      subst rd_nth, simp, subst andThen.simps, subst rd_nth) simp_all

lemma rd16_eqI: "j = i + 1 \<Longrightarrow> j < length m \<Longrightarrow> rd16 le m i = Inr (load16 le (m ! i) (m ! j))"
  by (simp only: rd16_eq)

lemma rd32_eqI:
  "j = i + 1 \<Longrightarrow> k = i + 2 \<Longrightarrow> l = i + 3 \<Longrightarrow> l < length m \<Longrightarrow>
   rd32 le m i = Inr (load32 le (m ! i) (m ! j) (m ! k) (m ! l))"
  by (simp only: rd32_eq)

lemma mac_loop_returns: "mac + 6 \<le> length m \<Longrightarrow> returns (mac_loop m mac i ss)"
proof (induction m mac i ss rule: mac_loop.induct)
  case (1 m mac i ss)
  show ?case
  proof (cases "i < 6")
    case True
    then have "rd m (int (mac + i)) = Inr (m ! (mac + i))" using "1.prems" by (intro rd_nth) simp
    then show ?thesis using 1 True by (simp add: mac_loop.simps [of m mac i ss])
  next
    case False
    then show ?thesis by (simp add: mac_loop.simps [of m mac i ss])
  qed
qed

lemma macToString_Inr: "mac + 6 \<le> length m \<Longrightarrow> \<exists>s. macToString m mac = Inr s"
  using mac_loop_returns [of mac m 0 "[]"] by (simp add: macToString_def returns_def)

text \<open>What each layer does on a frame, on every path.\<close>

lemma parseEthernet_short:
  "length d < 14 \<Longrightarrow> parseEthernet le d (length d) p off = Inr (False, p, off)"
  by (simp add: parseEthernet_def)

lemma parseEthernet_eq:
  assumes "14 \<le> length d"
  shows "\<exists>dm sm. parseEthernet le d (length d) p off =
    Inr (True, p\<lparr>dest_mac := dm, src_mac := sm, ether_type := be16 (d ! 12) (d ! 13)\<rparr>, 14)"
proof -
  obtain dm sm where "macToString d 0 = Inr dm" "macToString d 6 = Inr sm"
    using assms macToString_Inr [of 0 d] macToString_Inr [of 6 d] by auto
  then show ?thesis
    using assms by (simp add: parseEthernet_def rd16_eq netToHost16_load16) blast
qed

definition with_ip :: "bool \<Rightarrow> bytes \<Rightarrow> parsed_packet \<Rightarrow> parsed_packet" where
  "with_ip le d p =
     p\<lparr>ip_version := 4, ttl := d ! 22, ip_protocol := d ! 23,
       src_ip_str := ipToString (load32 le (d ! 26) (d ! 27) (d ! 28) (d ! 29)),
       dest_ip_str := ipToString (load32 le (d ! 30) (d ! 31) (d ! 32) (d ! 33)), has_ip := True\<rparr>"

lemma parseIPv4_eq:
  assumes "be16 (d ! 12) (d ! 13) = ETHERTYPE_IPv4"
  shows "\<exists>p'. has_tcp p' = has_tcp p \<and> has_udp p' = has_udp p \<and>
    parseIPv4 le d (length d) p 14 =
      (if ipv4_frame d then Inr (True, with_ip le d p, l4_off d) else Inr (False, p', 14))"
proof (cases "34 \<le> length d")
  case False
  then show ?thesis by (intro exI [of _ p]) (simp add: parseIPv4_def ipv4_frame_def)
next
  case len: True
  let ?p = "p\<lparr>ip_version := drop_bit 4 (d ! 14) AND 0x0F\<rparr>"
  show ?thesis
  proof (cases "drop_bit 4 (d ! 14) AND 0x0F = 4 \<and> 20 \<le> l3_len d \<and> l4_off d \<le> length d")
    case True
    then show ?thesis using assms len
      by (intro exI [of _ p])
         (simp add: parseIPv4_def ipv4_frame_def rd32_eq Let_def l3_len_def l4_off_def with_ip_def)
  next
    case False
    then show ?thesis using len
      by (intro exI [of _ ?p])
         (auto simp add: parseIPv4_def ipv4_frame_def Let_def l3_len_def l4_off_def)
  qed
qed

definition with_tcp :: "bytes \<Rightarrow> parsed_packet \<Rightarrow> parsed_packet" where
  "with_tcp d p =
     (let t = l4_off d
      in p\<lparr>l4_src_port := be16 (d ! t) (d ! (t + 1)),
           l4_dest_port := be16 (d ! (t + 2)) (d ! (t + 3)),
           seq_number := be32 (d ! (t + 4)) (d ! (t + 5)) (d ! (t + 6)) (d ! (t + 7)),
           ack_number := be32 (d ! (t + 8)) (d ! (t + 9)) (d ! (t + 10)) (d ! (t + 11)),
           tcp_flags := d ! (t + 13), has_tcp := True\<rparr>)"

definition with_udp :: "bytes \<Rightarrow> parsed_packet \<Rightarrow> parsed_packet" where
  "with_udp d p =
     (let t = l4_off d
      in p\<lparr>l4_src_port := be16 (d ! t) (d ! (t + 1)),
           l4_dest_port := be16 (d ! (t + 2)) (d ! (t + 3)), has_udp := True\<rparr>)"


lemma parseTCP_eq:
  assumes "ipv4_frame d" and "d ! 23 = TCP_PROTO"
  shows "\<exists>p'. has_tcp p' = has_tcp p \<and> has_udp p' = has_udp p \<and>
    parseTCP le d (length d) p (l4_off d) =
      (if tcp_frame d then Inr (True, with_tcp d p, l4_off d + tcp_len d)
       else Inr (False, p', l4_off d))"
proof (cases "l4_off d + 20 \<le> length d")
  case False
  then show ?thesis by (intro exI [of _ p]) (simp add: parseTCP_def tcp_frame_def)
next
  case len: True
  let ?t = "l4_off d"
  let ?p = "p\<lparr>l4_src_port := be16 (d ! ?t) (d ! (?t + 1)),
           l4_dest_port := be16 (d ! (?t + 2)) (d ! (?t + 3)),
           seq_number := be32 (d ! (?t + 4)) (d ! (?t + 5)) (d ! (?t + 6)) (d ! (?t + 7)),
           ack_number := be32 (d ! (?t + 8)) (d ! (?t + 9)) (d ! (?t + 10)) (d ! (?t + 11)),
           tcp_flags := d ! (?t + 13)\<rparr>"
  have r: "rd16 le d ?t = Inr (load16 le (d ! ?t) (d ! (?t + 1)))"
    "rd16 le d (?t + 2) = Inr (load16 le (d ! (?t + 2)) (d ! (?t + 3)))"
    "rd32 le d (?t + 4) = Inr (load32 le (d ! (?t + 4)) (d ! (?t + 5)) (d ! (?t + 6)) (d ! (?t + 7)))"
    "rd32 le d (?t + 8) = Inr (load32 le (d ! (?t + 8)) (d ! (?t + 9)) (d ! (?t + 10)) (d ! (?t + 11)))"
    "rd d (int (?t + 12)) = Inr (d ! (?t + 12))" "rd d (int (?t + 13)) = Inr (d ! (?t + 13))"
    by (rule rd16_eqI rd32_eqI rd_nth; use len in simp)+
  have eq: "parseTCP le d (length d) p ?t =
      (if tcp_len d < 20 \<or> length d < ?t + tcp_len d then Inr (False, ?p, ?t)
       else Inr (True, ?p\<lparr>has_tcp := True\<rparr>, ?t + tcp_len d))"
    using len unfolding parseTCP_def r
    by (simp add: Let_def netToHost16_load16 netToHost32_load32 tcp_len_def)
  then show ?thesis using assms len
    by (intro exI [of _ ?p]) (auto simp add: tcp_frame_def with_tcp_def Let_def)
qed

lemma parseUDP_eq:
  assumes "ipv4_frame d" and "d ! 23 = UDP_PROTO"
  shows "parseUDP le d (length d) p (l4_off d) =
    (if udp_frame d then Inr (True, with_udp d p, l4_off d + 8) else Inr (False, p, l4_off d))"
proof (cases "l4_off d + 8 \<le> length d")
  case False
  then show ?thesis by (simp add: parseUDP_def udp_frame_def)
next
  case len: True
  let ?t = "l4_off d"
  have r: "rd16 le d ?t = Inr (load16 le (d ! ?t) (d ! (?t + 1)))"
    "rd16 le d (?t + 2) = Inr (load16 le (d ! (?t + 2)) (d ! (?t + 3)))"
    by (rule rd16_eqI; use len in simp)+
  show ?thesis using assms len unfolding parseUDP_def r
    by (simp add: udp_frame_def with_udp_def Let_def netToHost16_load16)
qed

section \<open>The whole parser\<close>

definition base_packet :: "raw_packet \<Rightarrow> string \<Rightarrow> string \<Rightarrow> parsed_packet" where
  "base_packet raw dm sm =
     empty_packet\<lparr>timestamp_sec := ts_sec (header raw), timestamp_usec := ts_usec (header raw),
       dest_mac := dm, src_mac := sm,
       ether_type := be16 (raw_data raw ! 12) (raw_data raw ! 13)\<rparr>"

lemma base_packet_flags [simp]:
  "\<not> has_ip (base_packet raw dm sm)" "\<not> has_tcp (base_packet raw dm sm)"
  "\<not> has_udp (base_packet raw dm sm)"
  by (simp_all add: base_packet_def empty_packet_def)

lemma with_flags [simp]:
  "has_ip (with_ip le d p)" "has_tcp (with_ip le d p) = has_tcp p"
  "has_udp (with_ip le d p) = has_udp p" "ip_protocol (with_ip le d p) = d ! 23"
  "has_ip (with_tcp d p) = has_ip p" "has_tcp (with_tcp d p)" "has_udp (with_tcp d p) = has_udp p"
  "has_ip (with_udp d p) = has_ip p" "has_udp (with_udp d p)" "has_tcp (with_udp d p) = has_tcp p"
  by (simp_all add: with_ip_def with_tcp_def with_udp_def Let_def)

lemma set_payload_flags [simp]:
  "has_ip (set_payload n p off) = has_ip p" "has_tcp (set_payload n p off) = has_tcp p"
  "has_udp (set_payload n p off) = has_udp p"
  by (simp_all add: set_payload_def)

lemma parse_unfold:
  assumes "14 \<le> length (raw_data raw)"
  shows "\<exists>dm sm. parse le raw =
    andThen (parse_l3 le (raw_data raw) (length (raw_data raw)) (base_packet raw dm sm) 14)
      (\<lambda>(ok, parsed, offset).
        if \<not> ok then Inr (False, parsed)
        else Inr (True, set_payload (length (raw_data raw)) parsed offset))"
proof -
  let ?p = "empty_packet\<lparr>timestamp_sec := ts_sec (header raw), timestamp_usec := ts_usec (header raw)\<rparr>"
  obtain dm sm where "parseEthernet le (raw_data raw) (length (raw_data raw)) ?p 0 =
      Inr (True, base_packet raw dm sm, 14)"
    using parseEthernet_eq [OF assms, of le ?p 0] by (auto simp: base_packet_def)
  then show ?thesis by (intro exI [of _ dm] exI [of _ sm]) (simp add: parse_def Let_def)
qed


lemma parse_l3_other:
  "be16 (raw_data raw ! 12) (raw_data raw ! 13) \<noteq> ETHERTYPE_IPv4 \<Longrightarrow>
   parse_l3 le d n (base_packet raw dm sm) off = Inr (True, base_packet raw dm sm, off)"
  by (simp add: parse_l3_def base_packet_def)

lemma parse_l3_ipv4:
  assumes "be16 (raw_data raw ! 12) (raw_data raw ! 13) = ETHERTYPE_IPv4"
  shows "\<exists>p'. \<not> has_tcp p' \<and> \<not> has_udp p' \<and>
    parse_l3 le (raw_data raw) (length (raw_data raw)) (base_packet raw dm sm) 14 =
      (if ipv4_frame (raw_data raw)
       then parse_l4 le (raw_data raw) (length (raw_data raw))
              (with_ip le (raw_data raw) (base_packet raw dm sm)) (l4_off (raw_data raw))
       else Inr (False, p', 14))"
proof -
  have "ether_type (base_packet raw dm sm) = ETHERTYPE_IPv4"
    using assms by (simp add: base_packet_def)
  moreover obtain p' where "\<not> has_tcp p'" "\<not> has_udp p'"
    "parseIPv4 le (raw_data raw) (length (raw_data raw)) (base_packet raw dm sm) 14 =
      (if ipv4_frame (raw_data raw)
       then Inr (True, with_ip le (raw_data raw) (base_packet raw dm sm), l4_off (raw_data raw))
       else Inr (False, p', 14))"
    using parseIPv4_eq [OF assms, of "base_packet raw dm sm" le] by auto
  ultimately show ?thesis by (intro exI [of _ p']) (simp add: parse_l3_def)
qed

lemma ports_distinct: "TCP_PROTO \<noteq> UDP_PROTO"
  by (simp add: TCP_PROTO_def UDP_PROTO_def)

text \<open>The outcome on the three kinds of frame, and on every other.\<close>

lemma parse_tcp:
  assumes "tcp_frame (raw_data raw)"
  shows "\<exists>dm sm. parse le raw = Inr (True, set_payload (length (raw_data raw))
    (with_tcp (raw_data raw) (with_ip le (raw_data raw) (base_packet raw dm sm)))
    (payload_start (raw_data raw)))"
proof -
  let ?d = "raw_data raw"
  have f: "ipv4_frame ?d" "?d ! 23 = TCP_PROTO" and len: "14 \<le> length ?d"
    and t: "be16 (?d ! 12) (?d ! 13) = ETHERTYPE_IPv4"
    using assms by (auto simp: frame_defs)
  obtain dm sm where u: "parse le raw =
    andThen (parse_l3 le ?d (length ?d) (base_packet raw dm sm) 14)
      (\<lambda>(ok, parsed, offset). if \<not> ok then Inr (False, parsed)
        else Inr (True, set_payload (length ?d) parsed offset))"
    using parse_unfold [OF len] by blast
  have "parse_l3 le ?d (length ?d) (base_packet raw dm sm) 14 =
      Inr (True, with_tcp ?d (with_ip le ?d (base_packet raw dm sm)), payload_start ?d)"
    using parse_l3_ipv4 [OF t, of le dm sm] parseTCP_eq [OF f, of "with_ip le ?d (base_packet raw dm sm)" le]
      f assms by (auto simp: parse_l4_def payload_start_def)
  then show ?thesis using u by auto
qed

lemma parse_udp:
  assumes "udp_frame (raw_data raw)"
  shows "\<exists>dm sm. parse le raw = Inr (True, set_payload (length (raw_data raw))
    (with_udp (raw_data raw) (with_ip le (raw_data raw) (base_packet raw dm sm)))
    (payload_start (raw_data raw)))"
proof -
  let ?d = "raw_data raw"
  have f: "ipv4_frame ?d" "?d ! 23 = UDP_PROTO" and len: "14 \<le> length ?d"
    and t: "be16 (?d ! 12) (?d ! 13) = ETHERTYPE_IPv4"
    using assms by (auto simp: frame_defs)
  obtain dm sm where u: "parse le raw =
    andThen (parse_l3 le ?d (length ?d) (base_packet raw dm sm) 14)
      (\<lambda>(ok, parsed, offset). if \<not> ok then Inr (False, parsed)
        else Inr (True, set_payload (length ?d) parsed offset))"
    using parse_unfold [OF len] by blast
  have "parse_l3 le ?d (length ?d) (base_packet raw dm sm) 14 =
      Inr (True, with_udp ?d (with_ip le ?d (base_packet raw dm sm)), payload_start ?d)"
    using parse_l3_ipv4 [OF t, of le dm sm] parseUDP_eq [OF f, of le "with_ip le ?d (base_packet raw dm sm)"]
      f assms ports_distinct by (auto simp: parse_l4_def payload_start_def)
  then show ?thesis using u by auto
qed

lemma parse_neither:
  assumes "\<not> tcp_frame (raw_data raw)" and "\<not> udp_frame (raw_data raw)"
  shows "\<exists>ok p. parse le raw = Inr (ok, p) \<and> \<not> (ok \<and> (has_tcp p \<or> has_udp p))"
proof (cases "14 \<le> length (raw_data raw)")
  case False
  then show ?thesis
    by (intro exI [of _ False]) (simp add: parse_def Let_def parseEthernet_short)
next
  case len: True
  let ?d = "raw_data raw"
  obtain dm sm where u: "parse le raw =
    andThen (parse_l3 le ?d (length ?d) (base_packet raw dm sm) 14)
      (\<lambda>(ok, parsed, offset). if \<not> ok then Inr (False, parsed)
        else Inr (True, set_payload (length ?d) parsed offset))"
    using parse_unfold [OF len] by blast
  show ?thesis
  proof (cases "be16 (?d ! 12) (?d ! 13) = ETHERTYPE_IPv4 \<and> ipv4_frame ?d")
    case True
    then have f: "ipv4_frame ?d" and t: "be16 (?d ! 12) (?d ! 13) = ETHERTYPE_IPv4" by auto
    have "\<exists>ok p off. parse_l4 le ?d (length ?d) (with_ip le ?d (base_packet raw dm sm)) (l4_off ?d) =
        Inr (ok, p, off) \<and> \<not> (ok \<and> (has_tcp p \<or> has_udp p))"
      using assms f parseTCP_eq [of ?d "with_ip le ?d (base_packet raw dm sm)" le]
        parseUDP_eq [of ?d le "with_ip le ?d (base_packet raw dm sm)"]
      using ports_distinct by (auto simp: parse_l4_def ex_bool_eq)
    then show ?thesis using u f parse_l3_ipv4 [OF t, of le dm sm] by fastforce
  next
    case False
    then show ?thesis
      using u parse_l3_other [of raw le ?d "length ?d" dm sm 14] parse_l3_ipv4 [of raw le dm sm]
      by (cases "be16 (?d ! 12) (?d ! 13) = ETHERTYPE_IPv4") (auto simp: ex_bool_eq)
  qed
qed

text \<open>C25: on every captured frame, however short or malformed, the parser returns without
  touching a byte outside the frame, and it accepts the frame as TCP or as UDP exactly when the
  frame has the layout of one.\<close>

theorem parse_total_and_exact:
  "\<exists>ok p. parse le raw = Inr (ok, p) \<and>
     ((ok \<and> has_tcp p) \<longleftrightarrow> tcp_frame (raw_data raw)) \<and>
     ((ok \<and> has_udp p) \<longleftrightarrow> udp_frame (raw_data raw))"
proof -
  consider "tcp_frame (raw_data raw)" | "udp_frame (raw_data raw)"
    | "\<not> tcp_frame (raw_data raw)" "\<not> udp_frame (raw_data raw)" by blast
  then show ?thesis
  proof cases
    case 1
    then have "\<not> udp_frame (raw_data raw)" using ports_distinct by (auto simp: frame_defs)
    then show ?thesis using 1 parse_tcp [OF 1, of le] by auto
  next
    case 2
    then have "\<not> tcp_frame (raw_data raw)" using ports_distinct by (auto simp: frame_defs)
    then show ?thesis using 2 parse_udp [OF 2, of le] by auto
  next
    case 3
    then show ?thesis using parse_neither [of raw le] by blast
  qed
qed


lemma payload_start_le:
  "tcp_frame d \<or> udp_frame d \<Longrightarrow> payload_start d \<le> length d"
  using ports_distinct by (auto simp: frame_defs payload_start_def)

lemma set_payload_simps:
  "parsed_payload_length (set_payload n p off) = n - off"
  "parsed_payload_data (set_payload n p off) = (if off < n then Some off else None)"
  by (simp_all add: set_payload_def)

lemma set_payload_frame [simp]:
  "l4_src_port (set_payload n p off) = l4_src_port p" "l4_dest_port (set_payload n p off) = l4_dest_port p"
  "src_ip_str (set_payload n p off) = src_ip_str p" "dest_ip_str (set_payload n p off) = dest_ip_str p"
  "ip_protocol (set_payload n p off) = ip_protocol p" "tcp_flags (set_payload n p off) = tcp_flags p"
  "timestamp_sec (set_payload n p off) = timestamp_sec p"
  by (simp_all add: set_payload_def)

text \<open>An accepted TCP or UDP frame yields the protocol byte of the IP header, the two ports
  in host order whatever the host's byte order, the two addresses as text, the TCP flags, and
  as payload exactly the bytes behind the transport header.\<close>

theorem parse_fields:
  assumes "tcp_frame (raw_data raw) \<or> udp_frame (raw_data raw)"
  shows "\<exists>p. parse le raw = Inr (True, p) \<and> has_ip p \<and>
    (let d = raw_data raw; t = l4_off d in
       has_tcp p = tcp_frame d \<and> has_udp p = udp_frame d \<and> ip_protocol p = d ! 23 \<and>
       unat (l4_src_port p) = 256 * unat (d ! t) + unat (d ! (t + 1)) \<and>
       unat (l4_dest_port p) = 256 * unat (d ! (t + 2)) + unat (d ! (t + 3)) \<and>
       src_ip_str p = ipToString (load32 le (d ! 26) (d ! 27) (d ! 28) (d ! 29)) \<and>
       dest_ip_str p = ipToString (load32 le (d ! 30) (d ! 31) (d ! 32) (d ! 33)) \<and>
       tcp_flags p = (if tcp_frame d then d ! (t + 13) else 0) \<and>
       parsed_payload_length p = length d - payload_start d \<and>
       parsed_payload_data p = (if payload_start d < length d then Some (payload_start d) else None))"
  (is "\<exists>p. _ = Inr (True, p) \<and> has_ip p \<and> ?F p")
proof (cases "tcp_frame (raw_data raw)")
  case True
  then have "\<not> udp_frame (raw_data raw)" using ports_distinct by (auto simp: frame_defs)
  moreover obtain dm sm where "parse le raw = Inr (True, set_payload (length (raw_data raw))
    (with_tcp (raw_data raw) (with_ip le (raw_data raw) (base_packet raw dm sm)))
    (payload_start (raw_data raw)))"
    using parse_tcp [OF True] by blast
  ultimately show ?thesis
    using True by (auto simp: set_payload_simps with_tcp_def with_ip_def Let_def unat_be16)
next
  case False
  then have udp: "udp_frame (raw_data raw)" using assms by blast
  moreover obtain dm sm where "parse le raw = Inr (True, set_payload (length (raw_data raw))
    (with_udp (raw_data raw) (with_ip le (raw_data raw) (base_packet raw dm sm)))
    (payload_start (raw_data raw)))"
    using parse_udp [OF udp] by blast
  moreover have "tcp_flags (base_packet raw dm sm) = 0"
    by (simp add: base_packet_def empty_packet_def)
  ultimately show ?thesis
    using False by (auto simp: set_payload_simps with_udp_def with_ip_def Let_def unat_be16)
qed


text \<open>
  A TCP segment from 192.168.1.100, port 52000, to 142.250.185.206, port 443, with the flags
  PSH and ACK and a payload \<open>pl\<close>: the shape the repository's \<open>generate_test_pcap.py\<close> writes.
\<close>

definition sample_frame :: "u8 \<Rightarrow> bytes \<Rightarrow> bytes" where
  "sample_frame flags pl =
     [0xaa, 0xbb, 0xcc, 0xdd, 0xee, 0xff, 0x00, 0x11, 0x22, 0x33, 0x44, 0x55, 0x08, 0x00] @
     [0x45, 0, 0, 40, 0, 1, 0x40, 0, 64, 6, 0, 0, 192, 168, 1, 100, 142, 250, 185, 206] @
     [0xcb, 0x20, 0x01, 0xbb, 0, 0, 3, 0xe8, 0, 0, 0, 0, 0x50, flags, 0xff, 0xff, 0, 0, 0, 0] @ pl"

lemma sample_frame_layout:
  "l4_off (sample_frame f pl) = 34" "payload_start (sample_frame f pl) = 54"
  "length (sample_frame f pl) = 54 + length pl" "tcp_frame (sample_frame f pl)"
  by (simp_all add: sample_frame_def frame_defs l4_off_def l3_len_def tcp_len_def payload_start_def
        TCP_PROTO_def ETHERTYPE_IPv4_def be16_def)

lemma sample_frame_nth:
  "sample_frame f pl ! 34 = 0xcb" "sample_frame f pl ! 35 = 0x20"
  "sample_frame f pl ! 36 = 0x01" "sample_frame f pl ! 37 = 0xbb"
  "sample_frame f pl ! 47 = f" "sample_frame f pl ! 23 = 6"
  "sample_frame f pl ! 14 = 0x45" "sample_frame f pl ! 46 = 0x50"
  by (simp_all add: sample_frame_def)

theorem parse_fields_witness:
  "let raw = \<lparr>header = \<lparr>ts_sec = 1, ts_usec = 2, incl_len = 57, orig_len = 57\<rparr>,
              raw_data = sample_frame 0x18 [1, 2, 3]\<rparr>
   in tcp_frame (raw_data raw) \<and>
      (\<exists>p. parse True raw = Inr (True, p) \<and> unat (l4_src_port p) = 52000 \<and>
           unat (l4_dest_port p) = 443 \<and> tcp_flags p = 0x18 \<and>
           parsed_payload_length p = 3 \<and> parsed_payload_data p = Some 54)"
proof -
  let ?raw = "\<lparr>header = \<lparr>ts_sec = 1, ts_usec = 2, incl_len = 57, orig_len = 57\<rparr>,
              raw_data = sample_frame 0x18 [1, 2, 3]\<rparr>"
  have t: "tcp_frame (raw_data ?raw)" by (simp add: sample_frame_layout)
  obtain p where "parse True ?raw = Inr (True, p)"
    "unat (l4_src_port p) = 52000" "unat (l4_dest_port p) = 443" "tcp_flags p = 0x18"
    "parsed_payload_length p = 3" "parsed_payload_data p = Some 54"
    using parse_fields [of ?raw True] t
    by (auto simp: Let_def sample_frame_layout sample_frame_nth)
  then show ?thesis using t by (auto simp: Let_def)
qed

end
