(* ===== verification/Sni_Extractor.thy ===== *)
theory Sni_Extractor
  imports Aegis_Prelude
begin

text \<open>
  \<open>include/sni_extractor.h\<close> and \<open>src/sni_extractor.cpp\<close>: the four extractors of a host
  name from a packet's payload (TLS ClientHello, HTTP request, DNS query, QUIC). A payload
  is a pointer \<open>p\<close> into a memory block \<open>m\<close> and a length; every byte is read with the
  checked \<open>rd\<close>, so that an extractor that runs off its block yields a fault. The
  lemmas show that the first three never do, that their result depends on the payload's
  bytes alone, and what they find in a well-formed message.
\<close>

section \<open>TLS\<close>

definition CONTENT_TYPE_HANDSHAKE :: u8 where "CONTENT_TYPE_HANDSHAKE = 0x16"
definition HANDSHAKE_CLIENT_HELLO :: u8 where "HANDSHAKE_CLIENT_HELLO = 0x01"
definition EXTENSION_SNI :: u16 where "EXTENSION_SNI = 0x0000"
definition SNI_TYPE_HOSTNAME :: u8 where "SNI_TYPE_HOSTNAME = 0x00"

definition join16 :: "u8 \<Rightarrow> u8 \<Rightarrow> u16" where
  "join16 a b = push_bit 8 (ucast a) OR ucast b"

definition readUint16BE :: "bytes \<Rightarrow> int \<Rightarrow> u16 res" where
  "readUint16BE m d = andThen (rd m d) (\<lambda>a. andThen (rd m (d + 1)) (\<lambda>b. Inr (join16 a b)))"

definition readUint24BE :: "bytes \<Rightarrow> int \<Rightarrow> u32 res" where
  "readUint24BE m d =
     andThen (rd m d) (\<lambda>a. andThen (rd m (d + 1)) (\<lambda>b. andThen (rd m (d + 2)) (\<lambda>c.
       Inr (push_bit 16 (ucast a) OR push_bit 8 (ucast b) OR ucast c))))"

definition isTLSClientHello :: "bytes \<Rightarrow> int \<Rightarrow> nat \<Rightarrow> bool res" where
  "isTLSClientHello m p len =
     (if len < 9 then Inr False
      else andThen (rd m p) (\<lambda>content. if content \<noteq> CONTENT_TYPE_HANDSHAKE then Inr False
      else andThen (readUint16BE m (p + 1)) (\<lambda>version.
        if version < 0x0300 \<or> version > 0x0304 then Inr False
      else andThen (readUint16BE m (p + 3)) (\<lambda>record_length.
        if unat record_length > len - 5 then Inr False
      else andThen (rd m (p + 5)) (\<lambda>handshake.
        if handshake \<noteq> HANDSHAKE_CLIENT_HELLO then Inr False
      else Inr True)))))"

text \<open>The body of the loop for the SNI extension: its data begins at \<open>offset\<close>.\<close>

definition sni_body :: "bytes \<Rightarrow> int \<Rightarrow> nat \<Rightarrow> u16 \<Rightarrow> string option res" where
  "sni_body m p offset extension_length =
     (if extension_length < 5 then Inr None
      else andThen (readUint16BE m (p + int offset)) (\<lambda>sni_list_length.
        if sni_list_length < 3 then Inr None
      else andThen (rd m (p + int offset + 2)) (\<lambda>sni_type.
      andThen (readUint16BE m (p + int offset + 3)) (\<lambda>sni_length.
        if sni_type \<noteq> SNI_TYPE_HOSTNAME then Inr None
        else if unat sni_length > unat extension_length - 5 then Inr None
        else andThen (rd_range m (p + int offset + 5) (unat sni_length))
               (\<lambda>sni. Inr (Some (str_of sni)))))))"

function ext_loop :: "bytes \<Rightarrow> int \<Rightarrow> nat \<Rightarrow> nat \<Rightarrow> string option res" where
  "ext_loop m p extensions_end offset =
     (if offset + 4 \<le> extensions_end then
        andThen (readUint16BE m (p + int offset)) (\<lambda>extension_type.
        andThen (readUint16BE m (p + int offset + 2)) (\<lambda>extension_length.
        if offset + 4 + unat extension_length > extensions_end then Inr None
        else if extension_type = EXTENSION_SNI then sni_body m p (offset + 4) extension_length
        else ext_loop m p extensions_end (offset + 4 + unat extension_length)))
      else Inr None)"
  by pat_completeness auto
termination by (relation "measure (\<lambda>(m, p, extensions_end, offset). extensions_end - offset)") auto

declare ext_loop.simps [simp del]

definition sni_extract :: "bytes \<Rightarrow> int \<Rightarrow> nat \<Rightarrow> string option res" where
  "sni_extract m p len =
     andThen (isTLSClientHello m p len) (\<lambda>hello. if \<not> hello then Inr None
     else andThen (readUint24BE m (p + 6)) (\<lambda>handshake_length.
       let offset = 43 in
       if offset \<ge> len then Inr None
     else andThen (rd m (p + int offset)) (\<lambda>session_id_length.
       let offset = offset + 1 + unat session_id_length in
       if offset + 2 > len then Inr None
     else andThen (readUint16BE m (p + int offset)) (\<lambda>cipher_suites_length.
       let offset = offset + 2 + unat cipher_suites_length in
       if offset \<ge> len then Inr None
     else andThen (rd m (p + int offset)) (\<lambda>compression_methods_length.
       let offset = offset + 1 + unat compression_methods_length in
       if offset + 2 > len then Inr None
     else andThen (readUint16BE m (p + int offset)) (\<lambda>extensions_length.
       let offset = offset + 2;
           extensions_end = offset + unat extensions_length;
           extensions_end = (if extensions_end > len then len else extensions_end)
       in ext_loop m p extensions_end offset))))))"

definition extractExtensions :: "bytes \<Rightarrow> int \<Rightarrow> nat \<Rightarrow> (u16 \<times> string) list" where
  "extractExtensions m p len = []"

section \<open>HTTP\<close>

definition methods :: "string list" where
  "methods = [''GET '', ''POST'', ''PUT '', ''HEAD'', ''DELE'', ''PATC'', ''OPTI'']"

definition isHTTPRequest :: "bytes \<Rightarrow> int \<Rightarrow> nat \<Rightarrow> bool res" where
  "isHTTPRequest m p len =
     (if len < 4 then Inr False
      else andThen (rd_range m p 4) (\<lambda>bs. Inr (bs \<in> set (map bytes_of methods))))"

text \<open>The conjunction of byte tests is evaluated from the left and stops at the first failure.\<close>

fun bytes_in_at :: "u8 set list \<Rightarrow> bytes \<Rightarrow> int \<Rightarrow> bool res" where
  "bytes_in_at [] m q = Inr True"
| "bytes_in_at (S # Ss) m q =
     andThen (rd m q) (\<lambda>b. if b \<in> S then bytes_in_at Ss m (q + 1) else Inr False)"

text \<open>\<open>'H' | 'h'\<close>, \<open>'o' | 'O'\<close>, \<open>'s' | 'S'\<close>, \<open>'t' | 'T'\<close>, \<open>':'\<close>\<close>

definition host_name :: "u8 set list" where
  "host_name = [{0x48, 0x68}, {0x6F, 0x4F}, {0x73, 0x53}, {0x74, 0x54}, {0x3A}]"

function scan_while :: "u8 set \<Rightarrow> bytes \<Rightarrow> int \<Rightarrow> nat \<Rightarrow> nat \<Rightarrow> nat res" where
  "scan_while S m p len i =
     (if i < len then
        andThen (rd m (p + int i)) (\<lambda>b. if b \<in> S then scan_while S m p len (i + 1) else Inr i)
      else Inr i)"
  by pat_completeness auto
termination by (relation "measure (\<lambda>(S, m, p, len, i). len - i)") auto

declare scan_while.simps [simp del]

definition before_colon :: "string \<Rightarrow> string" where
  "before_colon host = takeWhile (\<lambda>c. c \<noteq> CHR '':'') host"

function http_loop :: "bytes \<Rightarrow> int \<Rightarrow> nat \<Rightarrow> nat \<Rightarrow> string option res" where
  "http_loop m p len i =
     (if i + 6 < len then
        andThen (bytes_in_at host_name m (p + int i)) (\<lambda>found.
        if found then
          andThen (scan_while {0x20, 0x09} m p len (i + 5)) (\<lambda>start.
          andThen (scan_while (- {0x0D, 0x0A}) m p len start) (\<lambda>stop.
          if stop > start then
            andThen (rd_range m (p + int start) (stop - start))
              (\<lambda>host. Inr (Some (before_colon (str_of host))))
          else http_loop m p len (i + 1)))
        else http_loop m p len (i + 1))
      else Inr None)"
  by pat_completeness auto
termination by (relation "measure (\<lambda>(m, p, len, i). len - i)") auto

declare http_loop.simps [simp del]

definition http_extract :: "bytes \<Rightarrow> int \<Rightarrow> nat \<Rightarrow> string option res" where
  "http_extract m p len =
     andThen (isHTTPRequest m p len) (\<lambda>req. if \<not> req then Inr None else http_loop m p len 0)"

section \<open>DNS\<close>

definition isDNSQuery :: "bytes \<Rightarrow> int \<Rightarrow> nat \<Rightarrow> bool res" where
  "isDNSQuery m p len =
     (if len < 12 then Inr False
      else andThen (rd m (p + 2)) (\<lambda>flags. if flags AND 0x80 \<noteq> 0 then Inr False
      else andThen (rd m (p + 4)) (\<lambda>a. andThen (rd m (p + 5)) (\<lambda>b. Inr (join16 a b > 0)))))"

function dns_loop :: "bytes \<Rightarrow> int \<Rightarrow> nat \<Rightarrow> nat \<Rightarrow> string \<Rightarrow> string res" where
  "dns_loop m p len offset domain =
     (if offset < len then
        andThen (rd m (p + int offset)) (\<lambda>label_length.
        if label_length = 0 \<or> label_length > 63 then Inr domain
        else if offset + 1 + unat label_length > len then Inr domain
        else andThen (rd_range m (p + int offset + 1) (unat label_length)) (\<lambda>label.
          dns_loop m p len (offset + 1 + unat label_length)
            ((if domain \<noteq> [] then domain @ ''.'' else domain) @ str_of label)))
      else Inr domain)"
  by pat_completeness auto
termination by (relation "measure (\<lambda>(m, p, len, offset, domain). len - offset)") auto

declare dns_loop.simps [simp del]

definition extractQuery :: "bytes \<Rightarrow> int \<Rightarrow> nat \<Rightarrow> string option res" where
  "extractQuery m p len =
     andThen (isDNSQuery m p len) (\<lambda>query. if \<not> query then Inr None
     else andThen (dns_loop m p len 12 []) (\<lambda>domain.
       Inr (if domain = [] then None else Some domain)))"

section \<open>QUIC\<close>

definition isQUICInitial :: "bytes \<Rightarrow> int \<Rightarrow> nat \<Rightarrow> bool res" where
  "isQUICInitial m p len =
     (if len < 5 then Inr False
      else andThen (rd m p) (\<lambda>first_byte. Inr (first_byte AND 0x80 \<noteq> 0)))"

function quic_loop :: "bytes \<Rightarrow> int \<Rightarrow> nat \<Rightarrow> nat \<Rightarrow> string option res" where
  "quic_loop m p len i =
     (if i + 50 < len then
        andThen (rd m (p + int i)) (\<lambda>b.
        if b = 0x01 then
          andThen (sni_extract m (p + int i - 5) (len - i + 5)) (\<lambda>result.
          case result of None \<Rightarrow> quic_loop m p len (i + 1) | Some s \<Rightarrow> Inr (Some s))
        else quic_loop m p len (i + 1))
      else Inr None)"
  by pat_completeness auto
termination by (relation "measure (\<lambda>(m, p, len, i). len - i)") auto

declare quic_loop.simps [simp del]

definition quic_extract :: "bytes \<Rightarrow> int \<Rightarrow> nat \<Rightarrow> string option res" where
  "quic_extract m p len =
     andThen (isQUICInitial m p len) (\<lambda>initial. if \<not> initial then Inr None
       else quic_loop m p len 0)"

section \<open>Reads inside the payload\<close>

lemma rd_at:
  assumes "in_block m p len" and "p \<le> q" and "q < p + int len"
  shows "rd m q = Inr (view m p len ! nat (q - p))"
  using rd_view [OF assms(1), of "nat (q - p)"] assms by simp

lemma rd_range_at:
  assumes "in_block m p len" and "p \<le> q" and "q + int n \<le> p + int len"
  shows "rd_range m q n = Inr (take n (drop (nat (q - p)) (view m p len)))"
  using rd_range_view [OF assms(1), of "nat (q - p)" n] assms by simp

lemma in_block_view: "in_block m p len \<Longrightarrow> in_block (view m p len) 0 len"
  by (simp add: in_block_def length_view)

lemma view_view: "in_block m p len \<Longrightarrow> view (view m p len) 0 len = view m p len"
  by (simp add: view_def)

lemma read16_at:
  assumes "in_block m p len" and "p \<le> q" and "q + 1 < p + int len"
  shows "readUint16BE m q = Inr (join16 (view m p len ! nat (q - p)) (view m p len ! (nat (q - p) + 1)))"
proof -
  have "nat (q + 1 - p) = nat (q - p) + 1" using assms by simp
  then show ?thesis using assms by (simp add: readUint16BE_def rd_at [OF assms(1)])
qed

lemma read24_at:
  assumes "in_block m p len" and "p \<le> q" and "q + 2 < p + int len"
  shows "returns (readUint24BE m q)"
  using assms by (auto simp: readUint24BE_def rd_at [OF assms(1)])

lemma read_offset:
  assumes b: "in_block m p len"
  shows "k < len \<Longrightarrow> rd m (p + int k) = Inr (view m p len ! k)"
    and "k < len \<Longrightarrow> rd (view m p len) (int k) = Inr (view m p len ! k)"
    and "k + 2 \<le> len \<Longrightarrow>
      readUint16BE m (p + int k) = Inr (join16 (view m p len ! k) (view m p len ! Suc k))"
    and "k + 2 \<le> len \<Longrightarrow>
      readUint16BE (view m p len) (int k) = Inr (join16 (view m p len ! k) (view m p len ! Suc k))"
  using rd_at [OF b, of "p + int k"] rd_at [OF in_block_view [OF b], of "int k"]
    read16_at [OF b, of "p + int k"] read16_at [OF in_block_view [OF b], of "int k"] view_view [OF b]
  by simp_all

text \<open>
  Each extractor reads its payload only, and does the same on a copy of the payload in a
  block of its own. One lemma per function, in the order of the code.
\<close>

lemma tls_hello_local:
  assumes b: "in_block m p len"
  shows "isTLSClientHello m p len = isTLSClientHello (view m p len) 0 len \<and>
    returns (isTLSClientHello (view m p len) 0 len)"
  using in_block_view [OF b] b
  by (simp add: isTLSClientHello_def rd_at [OF b] rd_at [OF in_block_view [OF b]]
      read16_at [OF b] read16_at [OF in_block_view [OF b]] view_view)

lemma sni_body_local:
  assumes b: "in_block m p len" and e: "offset + unat el \<le> len"
  shows "sni_body m p offset el = sni_body (view m p len) 0 offset el \<and> returns (sni_body (view m p len) 0 offset el)"
proof (cases "el < 5")
  case True
  then show ?thesis by (simp add: sni_body_def)
next
  case False
  then have five: "5 \<le> unat el" by (simp add: word_le_nat_alt not_less)
  have r: "rd_range m (p + int offset + 5) n = Inr (take n (drop (nat (int offset + 5)) (view m p len)))"
    "rd_range (view m p len) (int offset + 5) n =
      Inr (take n (drop (nat (int offset + 5)) (view m p len)))" if "\<not> unat el - 5 < n" for n
    using that e five rd_range_at [OF b, of "p + int offset + 5" n]
      rd_range_at [OF in_block_view [OF b], of "int offset + 5" n] view_view [OF b] by simp_all
  show ?thesis
    using False e five
    by (simp add: sni_body_def rd_at [OF b] rd_at [OF in_block_view [OF b]] read16_at [OF b]
        read16_at [OF in_block_view [OF b]] view_view [OF b] r)
qed

lemma ext_loop_local:
  assumes b: "in_block m p len" and e: "stop \<le> len"
  shows "ext_loop m p stop offset = ext_loop (view m p len) 0 stop offset \<and>
    returns (ext_loop (view m p len) 0 stop offset)"
proof (induction "stop - offset" arbitrary: offset rule: less_induct)
  case less
  show ?case
  proof (cases "offset + 4 \<le> stop")
    case False
    then show ?thesis by (simp add: ext_loop.simps)
  next
    case True
    have ih: "ext_loop m p stop (offset + 4 + n) = ext_loop (view m p len) 0 stop (offset + 4 + n) \<and>
      returns (ext_loop (view m p len) 0 stop (offset + 4 + n))" for n
      by (rule less) (use True in simp)
    have body: "sni_body m p (offset + 4) el = sni_body (view m p len) 0 (offset + 4) el \<and>
      returns (sni_body (view m p len) 0 (offset + 4) el)" if "offset + 4 + unat el \<le> stop" for el
      using that e by (intro sni_body_local [OF b]) simp
    show ?thesis
      using True e ih body
      by (simp add: ext_loop.simps [of _ _ _ offset] read16_at [OF b]
          read16_at [OF in_block_view [OF b]] view_view [OF b])
  qed
qed

lemma sni_extract_local:
  assumes b: "in_block m p len"
  shows "sni_extract m p len = sni_extract (view m p len) 0 len \<and> returns (sni_extract (view m p len) 0 len)"
proof (cases "isTLSClientHello m p len")
  case (Inl f)
  then show ?thesis using tls_hello_local [OF b] returns_Inl [of f] by metis
next
  case (Inr hello)
  then have hello: "isTLSClientHello (view m p len) 0 len = Inr hello"
    using tls_hello_local [OF b] by simp
  show ?thesis
  proof (cases "\<not> hello \<or> len < 9")
    case True
    then show ?thesis using Inr hello
      by (auto simp: sni_extract_def isTLSClientHello_def)
  next
    case False
    then have r24: "returns (readUint24BE m (p + 6))" "returns (readUint24BE (view m p len) 6)"
      using read24_at [OF b, of "p + 6"] read24_at [OF in_block_view [OF b], of 6] by simp_all
    then show ?thesis
      using False Inr hello ext_loop_local [OF b]
        read_offset(1,2) [OF b, of 43, unfolded of_nat_numeral]
      by (auto simp: sni_extract_def Let_def read_offset [OF b] simp del: of_nat_add
          elim!: returnsE)
  qed
qed

lemma bytes_in_at_local:
  assumes b: "in_block m p len" and "p \<le> q" and "q + int (length Ss) \<le> p + int len"
  shows "bytes_in_at Ss m q = bytes_in_at Ss (view m p len) (q - p) \<and> returns (bytes_in_at Ss (view m p len) (q - p))"
  using assms(2,3)
proof (induction Ss arbitrary: q)
  case (Cons S Ss)
  have "rd (view m p len) (q - p) = rd m q"
    using Cons.prems rd_at [OF b, of q] rd_at [OF in_block_view [OF b], of "q - p"] view_view [OF b]
    by simp
  moreover have e: "q + 1 - p = q - p + 1" by simp
  ultimately show ?case
    using Cons.IH [of "q + 1", unfolded e] Cons.prems rd_at [OF b, of q] by auto
qed simp

lemma scan_while_local:
  assumes b: "in_block m p len"
  shows "scan_while S m p len i = scan_while S (view m p len) 0 len i \<and>
    (\<exists>j. scan_while S (view m p len) 0 len i = Inr j \<and> i \<le> j \<and> (i \<le> len \<longrightarrow> j \<le> len))"
proof (induction "len - i" arbitrary: i rule: less_induct)
  case less
  show ?case
  proof (cases "i < len")
    case True
    then have "rd (view m p len) (int i) = Inr (view m p len ! i)" "rd m (p + int i) = Inr (view m p len ! i)"
      using rd_at [OF b, of "p + int i"] rd_at [OF in_block_view [OF b], of "int i"] view_view [OF b]
      by simp_all
    moreover have "scan_while S m p len (i + 1) = scan_while S (view m p len) 0 len (i + 1) \<and>
      (\<exists>j. scan_while S (view m p len) 0 len (i + 1) = Inr j \<and> i + 1 \<le> j \<and> (i + 1 \<le> len \<longrightarrow> j \<le> len))"
      by (rule less) (use True in simp)
    then obtain j where "scan_while S m p len (i + 1) = Inr j" "i \<le> j" "j \<le> len"
      "scan_while S (view m p len) 0 len (i + 1) = Inr j" using True by auto
    ultimately show ?thesis
      using True by (simp add: scan_while.simps [of _ _ _ _ i])
  qed (simp add: scan_while.simps)
qed

lemma http_loop_local:
  assumes b: "in_block m p len"
  shows "http_loop m p len i = http_loop (view m p len) 0 len i \<and> returns (http_loop (view m p len) 0 len i)"
proof (induction "len - i" arbitrary: i rule: less_induct)
  case less
  show ?case
  proof (cases "i + 6 < len")
    case True
    let ?v = "view m p len"
    have next_ok: "http_loop m p len (i + 1) = http_loop ?v 0 len (i + 1) \<and>
      returns (http_loop ?v 0 len (i + 1))"
      by (rule less) (use True in simp)
    obtain found where found: "bytes_in_at host_name m (p + int i) = Inr found"
      "bytes_in_at host_name ?v (int i) = Inr found"
      using bytes_in_at_local [OF b, of "p + int i" host_name] True
      by (auto simp: host_name_def elim!: returnsE)
    obtain start where start: "scan_while {0x20, 0x09} m p len (i + 5) = Inr start"
      "scan_while {0x20, 0x09} ?v 0 len (i + 5) = Inr start" "start \<le> len"
      using scan_while_local [OF b, of "{0x20, 0x09}" "i + 5"] True by auto
    obtain stop where stop: "scan_while (- {0x0D, 0x0A}) m p len start = Inr stop"
      "scan_while (- {0x0D, 0x0A}) ?v 0 len start = Inr stop" "stop \<le> len"
      using scan_while_local [OF b, of "- {0x0D, 0x0A}" start] start(3) by auto
    have r: "rd_range m (p + int start) (stop - start) = rd_range ?v (int start) (stop - start)"
      "returns (rd_range m (p + int start) (stop - start))" if "start < stop"
      using that stop(3) rd_range_at [OF b, of "p + int start" "stop - start"]
        rd_range_at [OF in_block_view [OF b], of "int start" "stop - start"] view_view [OF b]
      by simp_all
    show ?thesis
      using True next_ok r
      by (auto simp: http_loop.simps [of _ _ _ i] found start stop elim!: returnsE)
  qed (simp add: http_loop.simps)
qed

lemma http_extract_local:
  assumes b: "in_block m p len"
  shows "http_extract m p len = http_extract (view m p len) 0 len \<and> returns (http_extract (view m p len) 0 len)"
  using http_loop_local [OF b, of 0] b in_block_view [OF b]
  by (auto simp: http_extract_def isHTTPRequest_def rd_range_at [OF b]
      rd_range_at [OF in_block_view [OF b]] view_view [OF b])

lemma dns_loop_local:
  assumes b: "in_block m p len"
  shows "dns_loop m p len offset domain = dns_loop (view m p len) 0 len offset domain \<and>
    returns (dns_loop (view m p len) 0 len offset domain)"
proof (induction "len - offset" arbitrary: offset domain rule: less_induct)
  case less
  show ?case
  proof (cases "offset < len")
    case True
    have ih: "dns_loop m p len (offset + 1 + n) d = dns_loop (view m p len) 0 len (offset + 1 + n) d \<and>
      returns (dns_loop (view m p len) 0 len (offset + 1 + n) d)" for n d
      by (rule less) (use True in simp)
    have r: "rd_range m (p + int offset + 1) n = rd_range (view m p len) (int offset + 1) n"
      "returns (rd_range m (p + int offset + 1) n)" if "\<not> len < offset + 1 + n" for n
      using that rd_range_at [OF b, of "p + int offset + 1" n]
        rd_range_at [OF in_block_view [OF b], of "int offset + 1" n] view_view [OF b]
      by simp_all
    have "rd m (p + int offset) = Inr (view m p len ! offset)"
      "rd (view m p len) (int offset) = Inr (view m p len ! offset)"
      using True rd_at [OF b, of "p + int offset"] rd_at [OF in_block_view [OF b], of "int offset"]
        view_view [OF b] by simp_all
    then show ?thesis
      using True ih r by (auto simp: dns_loop.simps [of _ _ _ offset] elim!: returnsE)
  qed (simp add: dns_loop.simps)
qed

lemma extractQuery_local:
  assumes b: "in_block m p len"
  shows "extractQuery m p len = extractQuery (view m p len) 0 len \<and> returns (extractQuery (view m p len) 0 len)"
  using dns_loop_local [OF b, of 12 "[]"]
  by (auto simp: extractQuery_def isDNSQuery_def rd_at [OF b] rd_at [OF in_block_view [OF b]]
      view_view [OF b])

lemma quic_loop_returns:
  assumes b: "in_block m (p - 5) (len + 5)"
  shows "returns (quic_loop m p len i)"
proof (induction "len - i" arbitrary: i rule: less_induct)
  case less
  show ?case
  proof (cases "i + 50 < len")
    case True
    have "returns (quic_loop m p len (i + 1))" by (rule less) (use True in simp)
    moreover have "in_block m (p + int i - 5) (len - i + 5)"
      using b True by (auto simp: in_block_def)
    then have "returns (sni_extract m (p + int i - 5) (len - i + 5))"
      using sni_extract_local by metis
    moreover have "rd m (p + int i) = Inr (view m (p - 5) (len + 5) ! nat (int i + 5))"
      using rd_at [OF b, of "p + int i"] True by simp
    ultimately show ?thesis
      using True by (auto simp: quic_loop.simps [of _ _ _ i] elim!: returnsE split: option.split)
  qed (simp add: quic_loop.simps)
qed

text \<open>C29: on a payload that lies in its memory block, the TLS, HTTP and DNS extractors finish
  without reading a byte outside it, and their result is a function of the payload's bytes:
  it is the same for the payload alone in a block. The QUIC extractor stays inside the
  block too, but only where the block has five more bytes before the payload.\<close>

theorem extractors_memory_safe:
  assumes "in_block m p len"
  shows "(\<exists>r. sni_extract m p len = Inr r \<and> sni_extract (view m p len) 0 len = Inr r) \<and>
    (\<exists>r. http_extract m p len = Inr r \<and> http_extract (view m p len) 0 len = Inr r) \<and>
    (\<exists>r. extractQuery m p len = Inr r \<and> extractQuery (view m p len) 0 len = Inr r) \<and>
    (5 \<le> p \<longrightarrow> returns (quic_extract m p len))"
proof -
  have "returns (quic_extract m p len)" if "5 \<le> p"
  proof -
    have "in_block m (p - 5) (len + 5)" using that assms by (simp add: in_block_def)
    then show ?thesis
      using quic_loop_returns rd_at [OF assms, of p]
      by (auto simp: quic_extract_def isQUICInitial_def)
  qed
  then show ?thesis
    using sni_extract_local [OF assms] http_extract_local [OF assms] extractQuery_local [OF assms]
    unfolding returns_def by metis
qed

theorem extractors_memory_safe_witness:
  "(\<exists>r. sni_extract [0x16, 3, 1, 0, 9] 1 3 = Inr r) \<and> returns (quic_extract (replicate 60 0x81) 5 55)"
  using extractors_memory_safe [of "[0x16, 3, 1, 0, 9]" 1 3]
    extractors_memory_safe [of "replicate 60 0x81" 5 55]
  by (auto simp: in_block_def)

text \<open>Where nothing precedes the payload in its block, a long header packet with the byte
  1 at one of the positions 1 to 4 makes the QUIC extractor read before the buffer.\<close>

theorem quic_reads_before_buffer:
  assumes "length m > 54" and "m ! 0 AND 0x80 \<noteq> 0" and "i \<in> {1..4}" and "m ! i = 1"
  shows "quic_extract m 0 (length m) = Inl Out_Of_Bounds"
proof -
  have fault: "sni_extract m (int k - 5) (length m - k + 5) = Inl Out_Of_Bounds" if "k \<le> 4" for k
    using that assms(1) by (simp add: sni_extract_def isTLSClientHello_def rd_def)
  have "quic_loop m 0 (length m) k = Inl Out_Of_Bounds" if "k \<le> i" for k
    using that
  proof (induction "i - k" arbitrary: k)
    case 0
    then have "k = i" by simp
    then show ?case
      using assms fault [of i] by (simp add: quic_loop.simps [of _ _ _ i] rd_nth)
  next
    case (Suc j)
    then have k: "k \<le> 4" "k + 1 \<le> i" using assms(3) by auto
    then have "quic_loop m 0 (length m) (k + 1) = Inl Out_Of_Bounds" using Suc by simp
    then show ?case
      using assms(1) k fault [OF k(1)] by (simp add: quic_loop.simps [of _ _ _ k] rd_nth)
  qed
  moreover have "m \<noteq> []" using assms(1) by auto
  ultimately show ?thesis
    using assms rd_nth [of 0 m] by (simp add: quic_extract_def isQUICInitial_def)
qed

theorem quic_reads_before_buffer_witness:
  "quic_extract (0xC0 # 0 # 0 # 0 # 1 # replicate 60 0) 0 65 = Inl Out_Of_Bounds"
  using quic_reads_before_buffer [of "0xC0 # 0 # 0 # 0 # 1 # replicate 60 0" 4] by simp

section \<open>A well-formed ClientHello\<close>

definition put16 :: "u16 \<Rightarrow> bytes" where
  "put16 w = [ucast (drop_bit 8 w), ucast w]"

abbreviation put16_len :: "'a list \<Rightarrow> bytes" where
  "put16_len xs \<equiv> put16 (word_of_nat (length xs))"

lemma length_put16 [simp]: "length (put16 w) = 2"
  by (simp add: put16_def)

lemma join16_put16: "join16 (ucast (drop_bit 8 w)) (ucast w) = w"
  by (rule bit_eqI) (auto simp: join16_def bit_simps)

lemma read_after:
  "rd (xs @ y # ys) (int (length xs)) = Inr y"
  "readUint16BE (xs @ put16 w @ ys) (int (length xs)) = Inr w"
  "rd_range (xs @ zs @ ys) (int (length xs)) (length zs) = Inr zs"
  by (simp_all add: rd_def rd_range_def readUint16BE_def put16_def nth_append nat_add_distrib join16_put16)

lemma unat_of16: "n < 65536 \<Longrightarrow> unat (word_of_nat n :: u16) = n"
  by (simp add: unat_of_nat)

lemma unat_of8: "n < 256 \<Longrightarrow> unat (word_of_nat n :: u8) = n"
  by (simp add: unat_of_nat)

record client_hello =
  record_version :: u16
  client_version :: u16
  random :: bytes
  session_id :: bytes
  ciphers :: bytes
  compressions :: bytes
  extensions_before :: "(u16 \<times> bytes) list"
  server_name :: string
  extensions_after :: bytes

definition ext_bytes :: "u16 \<times> bytes \<Rightarrow> bytes" where
  "ext_bytes e = put16 (fst e) @ put16_len (snd e) @ snd e"

definition sni_data :: "string \<Rightarrow> bytes" where
  "sni_data name =
     (let entry = SNI_TYPE_HOSTNAME # put16_len name @ bytes_of name in put16_len entry @ entry)"

definition all_extensions :: "client_hello \<Rightarrow> bytes" where
  "all_extensions h =
     concat (map ext_bytes (extensions_before h)) @
     ext_bytes (EXTENSION_SNI, sni_data (server_name h)) @ extensions_after h"

definition hello_body :: "client_hello \<Rightarrow> bytes" where
  "hello_body h =
     put16 (client_version h) @ random h @
     word_of_nat (length (session_id h)) # session_id h @
     put16_len (ciphers h) @ ciphers h @
     word_of_nat (length (compressions h)) # compressions h @
     put16_len (all_extensions h) @ all_extensions h"

definition handshake_header :: "client_hello \<Rightarrow> bytes" where
  "handshake_header h =
     (let n = length (hello_body h)
      in [HANDSHAKE_CLIENT_HELLO, word_of_nat (n div 65536), word_of_nat (n div 256), word_of_nat n])"

definition hello_bytes :: "client_hello \<Rightarrow> bytes" where
  "hello_bytes h =
     CONTENT_TYPE_HANDSHAKE # put16 (record_version h) @
     put16_len (handshake_header h @ hello_body h) @ handshake_header h @ hello_body h"

definition hello_ok :: "client_hello \<Rightarrow> bool" where
  "hello_ok h \<longleftrightarrow>
     0x0300 \<le> record_version h \<and> record_version h \<le> 0x0304 \<and> length (random h) = 32 \<and>
     length (session_id h) < 256 \<and> length (ciphers h) < 65536 \<and> length (compressions h) < 256 \<and>
     length (hello_body h) < 65532 \<and>
     (\<forall>e \<in> set (extensions_before h). fst e \<noteq> EXTENSION_SNI)"

lemma length_sni_data: "length (sni_data name) = length name + 5"
  by (simp add: sni_data_def Let_def)

lemma sni_body_data:
  assumes "length name + 5 < 65536"
  shows "sni_body (xs @ sni_data name @ ys) 0 (length xs) (word_of_nat (length name + 5)) =
    Inr (Some name)"
proof -
  let ?m = "xs @ sni_data name @ ys"
  let ?e = "SNI_TYPE_HOSTNAME # put16_len name @ bytes_of name"
  let ?l = "word_of_nat (length ?e) :: u16"
  have l: "unat ?l = length name + 3" "unat (word_of_nat (length name) :: u16) = length name"
    "unat (word_of_nat (length name + 5) :: u16) = length name + 5"
    using assms unat_of16 [of "length ?e"] unat_of16 [of "length name"] unat_of16 [of "length name + 5"]
    by (simp_all del: of_nat_add of_nat_Suc)
  have list: "readUint16BE ?m (int (length xs)) = Inr ?l"
    using read_after(2) [of xs ?l "?e @ ys"] by (simp add: sni_data_def Let_def)
  have type: "rd ?m (int (length xs) + 2) = Inr SNI_TYPE_HOSTNAME"
    using read_after(1) [of "xs @ put16 ?l" SNI_TYPE_HOSTNAME "put16_len name @ bytes_of name @ ys"]
    by (simp add: sni_data_def Let_def add.commute)
  have len: "readUint16BE ?m (int (length xs) + 3) = Inr (word_of_nat (length name))"
    using read_after(2) [of "xs @ put16 ?l @ [SNI_TYPE_HOSTNAME]" "word_of_nat (length name)" "bytes_of name @ ys"]
    by (simp add: sni_data_def Let_def add.commute)
  have body: "rd_range ?m (int (length xs) + 5) (length name) = Inr (bytes_of name)"
    using read_after(3) [of "xs @ put16 ?l @ SNI_TYPE_HOSTNAME # put16_len name" "bytes_of name" ys]
    by (simp add: sni_data_def Let_def add.commute)
  have "\<not> word_of_nat (length name + 5) < (5 :: u16)" "\<not> ?l < 3"
    using l by (simp_all add: word_less_nat_alt del: of_nat_add of_nat_Suc)
  then show ?thesis
    using l by (simp add: sni_body_def list type len body del: of_nat_add of_nat_Suc)
qed

lemma ext_loop_step:
  assumes "stop \<le> length xs + 4 + length d + length ys" and "length xs + 4 + length d \<le> stop"
    and "length d < 65536"
  shows "ext_loop (xs @ ext_bytes (ty, d) @ ys) 0 stop (length xs) =
    (if ty = EXTENSION_SNI
     then sni_body (xs @ ext_bytes (ty, d) @ ys) 0 (length xs + 4) (word_of_nat (length d))
     else ext_loop (xs @ ext_bytes (ty, d) @ ys) 0 stop (length xs + 4 + length d))"
proof -
  have "readUint16BE (xs @ ext_bytes (ty, d) @ ys) (int (length xs)) = Inr ty"
    using read_after(2) [of xs ty "put16_len d @ d @ ys"] by (simp add: ext_bytes_def)
  moreover have "readUint16BE (xs @ ext_bytes (ty, d) @ ys) (int (length xs) + 2) =
      Inr (word_of_nat (length d))"
    using read_after(2) [of "xs @ put16 ty" "word_of_nat (length d)" "d @ ys"]
    by (simp add: ext_bytes_def add.commute)
  ultimately show ?thesis
    using assms unat_of16 [of "length d"] by (simp add: ext_loop.simps [of _ _ _ "length xs"])
qed

lemma length_ext_bytes [simp]: "length (ext_bytes e) = length (snd e) + 4"
  by (simp add: ext_bytes_def)

lemma ext_loop_finds:
  assumes "\<forall>e \<in> set es. fst e \<noteq> EXTENSION_SNI"
    and "length (concat (map ext_bytes es) @ ext_bytes (EXTENSION_SNI, sni_data name)) < 65536"
    and "length xs + length (concat (map ext_bytes es) @ ext_bytes (EXTENSION_SNI, sni_data name)) \<le> stop"
    and "stop \<le> length xs + length (concat (map ext_bytes es) @ ext_bytes (EXTENSION_SNI, sni_data name) @ ys)"
  shows "ext_loop (xs @ concat (map ext_bytes es) @ ext_bytes (EXTENSION_SNI, sni_data name) @ ys)
      0 stop (length xs) = Inr (Some name)"
  using assms
proof (induction es arbitrary: xs)
  case Nil
  let ?e = "ext_bytes (EXTENSION_SNI, sni_data name)"
  let ?h = "xs @ put16 EXTENSION_SNI @ put16_len (sni_data name)"
  have "sni_body (?h @ sni_data name @ ys) 0 (length ?h) (word_of_nat (length name + 5)) = Inr (Some name)"
    using Nil by (intro sni_body_data) (simp add: length_sni_data)
  then have "sni_body (xs @ ?e @ ys) 0 (length xs + 4) (word_of_nat (length (sni_data name))) = Inr (Some name)"
    by (simp add: ext_bytes_def length_sni_data)
  then show ?case
    using Nil by (simp add: ext_loop_step length_sni_data)
next
  case (Cons e es)
  obtain ty d where e: "e = (ty, d)" by (cases e)
  let ?rest = "concat (map ext_bytes es) @ ext_bytes (EXTENSION_SNI, sni_data name)"
  have ty: "ty \<noteq> EXTENSION_SNI" using Cons.prems(1) e by simp
  have "ext_loop ((xs @ ext_bytes e) @ ?rest @ ys) 0 stop (length (xs @ ext_bytes e)) = Inr (Some name)"
    using Cons.prems e by (subst append_assoc) (intro Cons.IH, simp_all)
  then show ?case
    using Cons.prems ty e ext_loop_step [of stop xs d "?rest @ ys" ty] by (simp add: ac_simps)
qed

lemma length_hello_body:
  assumes "hello_ok h"
  shows "length (hello_body h) = 40 + length (session_id h) + length (ciphers h) +
    length (compressions h) + length (all_extensions h)"
  using assms by (simp add: hello_body_def hello_ok_def)

lemma hello_recognised:
  assumes "hello_ok h"
  shows "isTLSClientHello (hello_bytes h @ rest) 0 (length (hello_bytes h @ rest)) = Inr True"
proof -
  let ?r = "word_of_nat (length (handshake_header h @ hello_body h)) :: u16"
  obtain t where hh: "length (handshake_header h) = 4" "handshake_header h = HANDSHAKE_CLIENT_HELLO # t"
    by (simp add: handshake_header_def Let_def)
  let ?tail = "handshake_header h @ hello_body h @ rest"
  let ?m = "CONTENT_TYPE_HANDSHAKE # put16 (record_version h) @ put16 ?r @ ?tail"
  have m: "hello_bytes h @ rest = ?m" by (simp add: hello_bytes_def)
  have "readUint16BE ?m 1 = Inr (record_version h)"
    using read_after(2) [of "[CONTENT_TYPE_HANDSHAKE]" "record_version h" "put16 ?r @ ?tail"] by simp
  moreover have "readUint16BE ?m 3 = Inr ?r"
    using read_after(2) [of "CONTENT_TYPE_HANDSHAKE # put16 (record_version h)" ?r ?tail] by simp
  moreover have "rd ?m 5 = Inr HANDSHAKE_CLIENT_HELLO"
    using read_after(1) [of "CONTENT_TYPE_HANDSHAKE # put16 (record_version h) @ put16 ?r"
        HANDSHAKE_CLIENT_HELLO "t @ hello_body h @ rest"] hh(2) by simp
  moreover have "rd ?m 0 = Inr CONTENT_TYPE_HANDSHAKE" by (simp add: rd_def)
  moreover have "unat ?r = 4 + length (hello_body h)"
    using assms unat_of16 [of "4 + length (hello_body h)"] hh
    by (simp add: hello_ok_def del: of_nat_add)
  moreover have "40 \<le> length (hello_body h)" using length_hello_body [OF assms] by simp
  ultimately show ?thesis
    using assms hh unfolding m by (simp add: isTLSClientHello_def hello_ok_def not_less)
qed

text \<open>The walk over a ClientHello of the form \<open>a\<close>, 43 bytes of headers, and its variable fields.\<close>

lemma sni_extract_walk:
  assumes "isTLSClientHello m 0 (length m) = Inr True"
    and m: "m = a @ word_of_nat (length sid) # sid @ put16_len cs @ cs @ word_of_nat (length cm) # cm @
      put16_len es @ es @ rest"
    and "length a = 43" "length sid < 256" "length cs < 65536" "length cm < 256" "length es < 65536"
  shows "sni_extract m 0 (length m) =
    ext_loop m 0 (49 + length sid + length cs + length cm + length es)
      (49 + length sid + length cs + length cm)"
proof -
  have len: "length m = 49 + length sid + length cs + length cm + length es + length rest"
    using assms(3) by (simp add: m)
  obtain h where r24: "readUint24BE m 6 = Inr h"
    using read24_at [OF in_block_self, of 6 m] len by (auto elim: returnsE)
  have s: "rd m 43 = Inr (word_of_nat (length sid))"
    using read_after(1) [of a] assms(3) by (simp add: m)
  have c: "readUint16BE m (int (44 + length sid)) = Inr (word_of_nat (length cs))"
    using read_after(2) [of "a @ word_of_nat (length sid) # sid"] assms(3) by (simp add: m ac_simps)
  have z: "rd m (int (46 + length sid + length cs)) = Inr (word_of_nat (length cm))"
    using read_after(1) [of "a @ word_of_nat (length sid) # sid @ put16_len cs @ cs"] assms(3)
    by (simp add: m ac_simps)
  have e: "readUint16BE m (int (47 + length sid + length cs + length cm)) = Inr (word_of_nat (length es))"
    using read_after(2) [of "a @ word_of_nat (length sid) # sid @ put16_len cs @ cs @
        word_of_nat (length cm) # cm"] assms(3) by (simp add: m ac_simps)
  show ?thesis
    using assms(1,4-7) r24 s c z e len
    by (simp add: sni_extract_def Let_def unat_of8 unat_of16 add.assoc)
qed

lemma sni_extract_hello:
  assumes h: "hello_ok h" and m: "m = hello_bytes h @ rest"
  shows "sni_extract m 0 (length m) = Inr (Some (server_name h))"
proof -
  let ?es = "all_extensions h"
  let ?a = "CONTENT_TYPE_HANDSHAKE # put16 (record_version h) @
    put16_len (handshake_header h @ hello_body h) @ handshake_header h @ put16 (client_version h) @ random h"
  let ?x = "?a @ word_of_nat (length (session_id h)) # session_id h @ put16_len (ciphers h) @ ciphers h @
    word_of_nat (length (compressions h)) # compressions h @ put16_len ?es"
  note lens = length_hello_body [OF h]
  have la: "length ?a = 43" using h by (simp add: hello_ok_def handshake_header_def Let_def)
  have small: "length ?es < 65532" using h lens by (simp add: hello_ok_def)
  have "m = ?a @ word_of_nat (length (session_id h)) # session_id h @ put16_len (ciphers h) @ ciphers h @
      word_of_nat (length (compressions h)) # compressions h @ put16_len ?es @ ?es @ rest"
    by (simp add: m hello_bytes_def hello_body_def)
  moreover have "isTLSClientHello m 0 (length m) = Inr True"
    using hello_recognised [OF h] m by simp
  ultimately have "sni_extract m 0 (length m) =
      ext_loop m 0 (length ?x + length ?es) (length ?x)"
    using sni_extract_walk [of m ?a "session_id h" "ciphers h" "compressions h" ?es rest] h la small
    by (simp add: hello_ok_def ac_simps)
  moreover have "ext_loop (?x @ concat (map ext_bytes (extensions_before h)) @
      ext_bytes (EXTENSION_SNI, sni_data (server_name h)) @ extensions_after h @ rest) 0
      (length ?x + length ?es) (length ?x) = Inr (Some (server_name h))"
    using h small by (intro ext_loop_finds) (auto simp: hello_ok_def all_extensions_def)
  ultimately show ?thesis
    by (simp add: m hello_bytes_def hello_body_def all_extensions_def)
qed

text \<open>C26: the TLS extractor finds the server name in every well-formed ClientHello whose record
  begins the payload: whatever the session id, cipher suites, compression methods, the
  extensions around it and the bytes that follow, the result is the name as it was sent.\<close>

theorem sni_of_client_hello:
  assumes "hello_ok h" and "in_block m p len" and "view m p len = hello_bytes h @ rest"
  shows "sni_extract m p len = Inr (Some (server_name h))"
  using sni_extract_local [OF assms(2)] sni_extract_hello [OF assms(1,3)] length_view [OF assms(2)]
  by simp

definition sample_hello :: client_hello where
  "sample_hello = \<lparr>record_version = 0x0301, client_version = 0x0303, random = replicate 32 7,
     session_id = [1, 2], ciphers = [0x13, 1], compressions = [0],
     extensions_before = [(0x002B, [2, 3, 4])], server_name = ''a.org'', extensions_after = []\<rparr>"

theorem sni_of_client_hello_witness:
  "sni_extract (9 # hello_bytes sample_hello) 1 (length (hello_bytes sample_hello)) = Inr (Some ''a.org'')"
proof -
  have "hello_ok sample_hello"
    by (simp add: hello_ok_def sample_hello_def hello_body_def all_extensions_def sni_data_def
        EXTENSION_SNI_def)
  moreover have "server_name sample_hello = ''a.org''" by (simp add: sample_hello_def)
  ultimately show ?thesis
    using sni_of_client_hello [of sample_hello "9 # hello_bytes sample_hello" 1
        "length (hello_bytes sample_hello)" "[]"]
    by (simp add: in_block_def view_def)
qed

section \<open>Exactly the first server name extension is read\<close>

text \<open>
  What a ClientHello with a server name looks like, said of the bytes \<open>d\<close> of a payload
  without the extractor's reads: the places its length fields give, the first extension of
  type server name in its list of extensions, and the host name at the front of that.
\<close>

abbreviation word_at :: "bytes \<Rightarrow> nat \<Rightarrow> nat" where
  "word_at d k \<equiv> unat (join16 (d ! k) (d ! Suc k))"

definition client_hello_record :: "bytes \<Rightarrow> bool" where
  "client_hello_record d \<longleftrightarrow>
     9 \<le> length d \<and> d ! 0 = CONTENT_TYPE_HANDSHAKE \<and> 0x0300 \<le> word_at d 1 \<and> word_at d 1 \<le> 0x0304 \<and>
     5 + word_at d 3 \<le> length d \<and> d ! 5 = HANDSHAKE_CLIENT_HELLO"

text \<open>Behind the session id, the cipher suites and the compression methods.\<close>

definition ext_start :: "bytes \<Rightarrow> nat" where
  "ext_start d =
     (let suites = 44 + unat (d ! 43); compression = suites + 2 + word_at d suites
      in compression + 1 + unat (d ! compression) + 2)"

definition ext_stop :: "bytes \<Rightarrow> nat" where
  "ext_stop d = min (length d) (ext_start d + word_at d (ext_start d - 2))"

text \<open>\<open>e\<close> is the place of the first server name extension in a list of extensions.\<close>

inductive first_sni :: "bytes \<Rightarrow> nat \<Rightarrow> nat \<Rightarrow> nat \<Rightarrow> bool" for d stop where
  Here: "join16 (d ! e) (d ! Suc e) = EXTENSION_SNI \<Longrightarrow> e + 4 + word_at d (e + 2) \<le> stop \<Longrightarrow>
    first_sni d stop e e"
| Later: "join16 (d ! a) (d ! Suc a) \<noteq> EXTENSION_SNI \<Longrightarrow> a + 4 + word_at d (a + 2) \<le> stop \<Longrightarrow>
    first_sni d stop (a + 4 + word_at d (a + 2)) e \<Longrightarrow> first_sni d stop a e"

inductive_simps first_sni_iff: "first_sni d stop a e"

definition host_name_at :: "bytes \<Rightarrow> nat \<Rightarrow> string \<Rightarrow> bool" where
  "host_name_at d e s \<longleftrightarrow>
     5 + length s \<le> word_at d (e + 2) \<and> 3 \<le> word_at d (e + 4) \<and> d ! (e + 6) = SNI_TYPE_HOSTNAME \<and>
     word_at d (e + 7) = length s \<and> str_of (take (length s) (drop (e + 9) d)) = s"

lemma read_own:
  "k < length d \<Longrightarrow> rd d (int k) = Inr (d ! k)"
  "k + 2 \<le> length d \<Longrightarrow> readUint16BE d (int k) = Inr (join16 (d ! k) (d ! Suc k))"
  "k + n \<le> length d \<Longrightarrow> rd_range d (int k) n = Inr (take n (drop k d))"
  by (simp_all add: rd_def readUint16BE_def rd_range_def nat_add_distrib)

lemma sni_body_iff:
  assumes "e + 4 + word_at d (e + 2) \<le> length d"
  shows "sni_body d 0 (e + 4) (join16 (d ! (e + 2)) (d ! Suc (e + 2))) = Inr (Some s) \<longleftrightarrow> host_name_at d e s"
proof (cases "word_at d (e + 2) < 5")
  case True
  then show ?thesis by (auto simp: sni_body_def host_name_at_def word_less_nat_alt)
next
  case False
  let ?n = "word_at d (e + 7)"
  have r: "readUint16BE d (int (e + 4)) = Inr (join16 (d ! (e + 4)) (d ! Suc (e + 4)))"
    "rd d (int (e + 4) + 2) = Inr (d ! (e + 6))"
    "readUint16BE d (int (e + 4) + 3) = Inr (join16 (d ! (e + 7)) (d ! Suc (e + 7)))"
    using assms False read_own(2) [of "e + 4" d] read_own(1) [of "e + 6" d] read_own(2) [of "e + 7" d]
    by (simp_all add: ac_simps)
  have b: "rd_range d (int (e + 4) + 5) ?n = Inr (take ?n (drop (e + 9) d))" "length (take ?n (drop (e + 9) d)) = ?n"
    if "\<not> ?n > word_at d (e + 2) - 5"
    using that assms False read_own(3) [of "e + 9" ?n d] by (simp_all add: ac_simps)
  have "sni_body d 0 (e + 4) (join16 (d ! (e + 2)) (d ! Suc (e + 2))) = Inr (Some s) \<longleftrightarrow>
      3 \<le> word_at d (e + 4) \<and> d ! (e + 6) = SNI_TYPE_HOSTNAME \<and> \<not> ?n > word_at d (e + 2) - 5 \<and>
      str_of (take ?n (drop (e + 9) d)) = s"
    using False r b by (auto simp: sni_body_def word_less_nat_alt)
  also have "\<dots> \<longleftrightarrow> host_name_at d e s"
    using False b(2) by (auto simp: host_name_at_def simp flip: length_str_of)
  finally show ?thesis .
qed

lemma ext_loop_iff:
  assumes "stop \<le> length d"
  shows "ext_loop d 0 stop a = Inr (Some s) \<longleftrightarrow> (\<exists>e. first_sni d stop a e \<and> host_name_at d e s)"
proof (induction "stop - a" arbitrary: a rule: less_induct)
  case less
  show ?case
  proof (cases "a + 4 + word_at d (a + 2) \<le> stop")
    case True
    then have r: "readUint16BE d (int a) = Inr (join16 (d ! a) (d ! Suc a))"
        "readUint16BE d (int a + 2) = Inr (join16 (d ! (a + 2)) (d ! Suc (a + 2)))"
      using assms read_own(2) [of a d] read_own(2) [of "a + 2" d] by (simp_all add: ac_simps)
    have "sni_body d 0 (a + 4) (join16 (d ! (a + 2)) (d ! Suc (a + 2))) = Inr (Some s) \<longleftrightarrow> host_name_at d a s"
      using True assms by (intro sni_body_iff) simp
    moreover have "ext_loop d 0 stop (a + 4 + word_at d (a + 2)) = Inr (Some s) \<longleftrightarrow>
        (\<exists>e. first_sni d stop (a + 4 + word_at d (a + 2)) e \<and> host_name_at d e s)"
      by (rule less) (use True in simp)
    ultimately show ?thesis
      using True r
      by (subst first_sni_iff) (auto simp: ext_loop.simps [of _ _ _ a])
  next
    case False
    then have "ext_loop d 0 stop a \<noteq> Inr (Some s)"
      using assms read_own(2) [of a d] read_own(2) [of "a + 2" d]
      by (auto simp: ext_loop.simps [of _ _ _ a] ac_simps)
    then show ?thesis using False by (subst first_sni_iff) auto
  qed
qed

lemma client_hello_iff: "isTLSClientHello d 0 (length d) = Inr True \<longleftrightarrow> client_hello_record d"
proof (cases "9 \<le> length d")
  case True
  have "rd d 0 = Inr (d ! 0)" using True by (auto simp: rd_def)
  moreover have "readUint16BE d 1 = Inr (join16 (d ! 1) (d ! Suc 1))" "rd d 5 = Inr (d ! 5)"
      "readUint16BE d 3 = Inr (join16 (d ! 3) (d ! Suc 3))"
    using True read_own(2) [of 1 d] read_own(2) [of 3 d] read_own(1) [of 5 d] by simp_all
  ultimately show ?thesis
    using True by (auto simp: isTLSClientHello_def client_hello_record_def word_less_nat_alt word_le_nat_alt)
qed (simp add: isTLSClientHello_def client_hello_record_def)

lemma sni_extract_own:
  "sni_extract d 0 (length d) = Inr (Some s) \<longleftrightarrow>
     client_hello_record d \<and> ext_start d \<le> length d \<and> (\<exists>e. first_sni d (ext_stop d) (ext_start d) e \<and> host_name_at d e s)"
proof (cases "client_hello_record d")
  case False
  then show ?thesis using client_hello_iff [of d] by (auto simp: sni_extract_def split: if_splits)
next
  case True
  then have hello: "isTLSClientHello d 0 (length d) = Inr True" and nine: "9 \<le> length d"
    using client_hello_iff [of d] by (simp_all add: client_hello_record_def)
  obtain h where r24: "readUint24BE d 6 = Inr h"
    using read24_at [OF in_block_self, of 6 d] nine by (auto elim: returnsE)
  define c where "c = 44 + unat (d ! 43)"
  define z where "z = c + 2 + word_at d c"
  define e where "e = z + 1 + unat (d ! z)"
  have start: "ext_start d = e + 2"
    unfolding ext_start_def Let_def c_def [symmetric] z_def [symmetric] e_def [symmetric] ..
  then have stop: "ext_stop d = min (length d) (e + 2 + word_at d e)" by (simp add: ext_stop_def)
  have r: "43 < length d \<Longrightarrow> rd d 43 = Inr (d ! 43)"
      "c + 2 \<le> length d \<Longrightarrow> readUint16BE d (int c) = Inr (join16 (d ! c) (d ! Suc c))"
      "z < length d \<Longrightarrow> rd d (int z) = Inr (d ! z)"
      "e + 2 \<le> length d \<Longrightarrow> readUint16BE d (int e) = Inr (join16 (d ! e) (d ! Suc e))"
    using read_own(1) [of 43 d] read_own(2) [of c d] read_own(1) [of z d] read_own(2) [of e d] by simp_all
  have order: "43 < c" "c + 2 \<le> z" "z < e" by (simp_all add: c_def z_def e_def)
  have walk: "43 + 1 + unat (d ! 43) = c" "c + 2 + word_at d c = z" "z + 1 + unat (d ! z) = e"
    by (simp_all add: c_def z_def e_def)
  note unfolds = sni_extract_def Let_def hello r24 andThen.simps if_True if_False not_True_eq_False walk add_0 of_nat_numeral
  have "sni_extract d 0 (length d) =
      (if e + 2 \<le> length d then ext_loop d 0 (ext_stop d) (ext_start d) else Inr None)"
  proof (cases "length d \<le> 43")
    case one: False
    then have r1: "rd d 43 = Inr (d ! 43)" by (intro r(1)) simp
    show ?thesis
    proof (cases "length d < c + 2")
      case two: False
      then have r2: "readUint16BE d (int c) = Inr (join16 (d ! c) (d ! Suc c))" by (intro r(2)) simp
      show ?thesis
      proof (cases "length d \<le> z")
        case three: False
        then have r3: "rd d (int z) = Inr (d ! z)" by (intro r(3)) simp
        show ?thesis
        proof (cases "length d < e + 2")
          case four: False
          then have r4: "readUint16BE d (int e) = Inr (join16 (d ! e) (d ! Suc e))" by (intro r(4)) simp
          have l: "(e + 2 \<le> length d) = True" using four by simp
          show ?thesis
            by (simp only: unfolds one two three four r1 r2 r3 r4 l start stop) (simp add: min_def)
        qed (simp only: unfolds one two three r1 r2 r3; simp)
      qed (use order in \<open>simp only: unfolds one two r1 r2; simp\<close>)
    qed (use order in \<open>simp only: unfolds one r1; simp\<close>)
  qed (use order in \<open>simp only: unfolds; simp\<close>)
  then show ?thesis using True ext_loop_iff [of "ext_stop d" d] start stop by simp
qed

text \<open>C28: the TLS extractor returns a name exactly when the payload begins with a handshake record
  that holds a ClientHello, its length fields lead to a list of extensions in the payload, and
  the first extension of type server name in this list begins with an entry of type host
  name for that name; the name is the bytes of this entry. So no other extension, however it
  looks, and nothing outside the list can give a name.\<close>

theorem sni_extract_exact:
  assumes "in_block m p len" and "d = view m p len"
  shows "sni_extract m p len = Inr (Some s) \<longleftrightarrow>
    client_hello_record d \<and> ext_start d \<le> len \<and> (\<exists>e. first_sni d (ext_stop d) (ext_start d) e \<and> host_name_at d e s)"
  using sni_extract_local [OF assms(1)] sni_extract_own [of d s] length_view [OF assms(1)] assms(2) by simp

text \<open>A ClientHello with a name has none any more when the type of its server name extension, which
  stands at place 61, is changed.\<close>

lemma sample_hello_list:
  "hello_bytes sample_hello =
     [0x16, 3, 1, 0, 70, 1, 0, 0, 66, 3, 3] @ replicate 32 7 @ [2, 1, 2, 0, 2, 0x13, 1, 1, 0, 0, 21] @
     [0, 0x2B, 0, 3, 2, 3, 4] @ [0, 0, 0, 10, 0, 8, 0, 0, 5, 0x61, 0x2E, 0x6F, 0x72, 0x67]"
  by (simp add: hello_bytes_def sample_hello_def hello_body_def all_extensions_def sni_data_def handshake_header_def
      ext_bytes_def put16_def bytes_of_def CONTENT_TYPE_HANDSHAKE_def HANDSHAKE_CLIENT_HELLO_def EXTENSION_SNI_def
      SNI_TYPE_HOSTNAME_def)

theorem sni_extract_exact_witness:
  "(\<exists>e. first_sni (hello_bytes sample_hello) 75 54 e \<and> host_name_at (hello_bytes sample_hello) e ''a.org'') \<and>
   (\<forall>s. sni_extract ((hello_bytes sample_hello)[61 := 0x12]) 0 75 \<noteq> Inr (Some s))"
proof -
  let ?d = "hello_bytes sample_hello" and ?d' = "(hello_bytes sample_hello)[61 := 0x12]"
  have l: "length ?d = 75" by (simp add: sample_hello_list)
  have b: "in_block ?d 0 75" "in_block ?d' 0 75" "view ?d 0 75 = ?d" "view ?d' 0 75 = ?d'"
    using l by (simp_all add: in_block_def view_def)
  have x: "ext_start ?d = 54" "ext_stop ?d = 75" "ext_start ?d' = 54" "ext_stop ?d' = 75"
    by (simp_all add: ext_start_def ext_stop_def sample_hello_list join16_def nth_append)
  have "hello_ok sample_hello"
    by (simp add: hello_ok_def sample_hello_def hello_body_def all_extensions_def sni_data_def EXTENSION_SNI_def)
  then have "sni_extract ?d 0 75 = Inr (Some ''a.org'')"
    using sni_extract_hello [of sample_hello _ "[]"] l by (simp add: sample_hello_def)
  moreover have "\<not> first_sni ?d' 75 54 e" for e
  proof -
    have "word_at ?d' 56 = 3" "join16 (?d' ! 54) (?d' ! 55) \<noteq> EXTENSION_SNI" "word_at ?d' 63 = 10"
        "join16 (?d' ! 61) (?d' ! 62) \<noteq> EXTENSION_SNI"
      by (simp_all add: sample_hello_list join16_def EXTENSION_SNI_def nth_append)
    then show ?thesis
      by (simp add: first_sni_iff [of _ _ 54] first_sni_iff [of _ _ 61] first_sni_iff [of _ _ 75])
  qed
  ultimately show ?thesis
    using sni_extract_exact [OF b(1) b(3) [symmetric]] sni_extract_exact [OF b(2) b(4) [symmetric]] x by auto
qed

section \<open>A well-formed DNS query\<close>

definition label_bytes :: "string \<Rightarrow> bytes" where
  "label_bytes l = word_of_nat (length l) # bytes_of l"

definition query_bytes :: "bytes \<Rightarrow> string list \<Rightarrow> bytes \<Rightarrow> bytes" where
  "query_bytes header labels rest = header @ concat (map label_bytes labels) @ 0 # rest"

fun dotted :: "string list \<Rightarrow> string" where
  "dotted [] = []"
| "dotted [l] = l"
| "dotted (l # ls) = l @ ''.'' @ dotted ls"

definition add_label :: "string \<Rightarrow> string \<Rightarrow> string" where
  "add_label domain l = (if domain \<noteq> [] then domain @ ''.'' else domain) @ l"

lemma dns_loop_labels:
  assumes "\<forall>l \<in> set labels. 1 \<le> length l \<and> length l \<le> 63"
  shows "dns_loop (query_bytes xs labels rest) 0 (length (query_bytes xs labels rest)) (length xs) d =
    Inr (foldl add_label d labels)"
  using assms
proof (induction labels arbitrary: xs d)
  case Nil
  then show ?case
    using read_after(1) [of xs 0 rest] by (simp add: query_bytes_def dns_loop.simps [of _ _ _ "length xs"])
next
  case (Cons l ls)
  let ?n = "word_of_nat (length l) :: u8"
  have n: "unat ?n = length l" using Cons.prems unat_of8 [of "length l"] by simp
  then have "?n \<noteq> 0" "\<not> 63 < ?n" using Cons.prems by (auto simp: word_less_nat_alt)
  moreover let ?tail = "concat (map label_bytes ls) @ 0 # rest"
  have q: "query_bytes xs (l # ls) rest = xs @ ?n # bytes_of l @ ?tail"
    "query_bytes (xs @ ?n # bytes_of l) ls rest = xs @ ?n # bytes_of l @ ?tail"
    by (simp_all add: query_bytes_def label_bytes_def)
  have "rd (xs @ ?n # bytes_of l @ ?tail) (int (length xs)) = Inr ?n"
    by (rule read_after(1))
  moreover have "rd_range (xs @ ?n # bytes_of l @ ?tail) (int (length xs) + 1) (length l) = Inr (bytes_of l)"
    using read_after(3) [of "xs @ [?n]" "bytes_of l" ?tail] by (simp add: add.commute)
  moreover have "dns_loop (xs @ ?n # bytes_of l @ ?tail) 0 (length (xs @ ?n # bytes_of l @ ?tail))
      (length xs + 1 + length l) (add_label d l) = Inr (foldl add_label (add_label d l) ls)"
    using Cons.IH [of "xs @ ?n # bytes_of l" "add_label d l"] Cons.prems unfolding q(2) by simp
  ultimately show ?case
    unfolding q(1) using n by (simp add: dns_loop.simps [of _ _ _ "length xs"] flip: add_label_def)
qed

lemma foldl_add_label: "d \<noteq> [] \<Longrightarrow> foldl add_label d ls = d @ concat (map ((#) (CHR ''.'')) ls)"
  by (induction ls arbitrary: d) (simp_all add: add_label_def)

lemma dotted_Cons: "dotted (l # ls) = l @ concat (map ((#) (CHR ''.'')) ls)"
  by (induction ls arbitrary: l) simp_all

lemma foldl_labels:
  assumes "\<forall>l \<in> set labels. 1 \<le> length l \<and> length l \<le> 63"
  shows "foldl add_label [] labels = dotted labels"
proof (cases labels)
  case (Cons l ls)
  then have "l \<noteq> []" using assms by auto
  then show ?thesis
    using Cons foldl_add_label [of l ls] dotted_Cons [of l ls] by (simp add: add_label_def)
qed simp

text \<open>In a DNS query with at least one question the extractor reads back the name the labels
  spell, dots between them, for any labels of one to 63 characters.\<close>

theorem dns_query_name:
  assumes "length header = 12" and "header ! 2 AND 0x80 = 0" and "join16 (header ! 4) (header ! 5) > 0"
    and "labels \<noteq> []" and "\<forall>l \<in> set labels. 1 \<le> length l \<and> length l \<le> 63"
    and "in_block m p len" and "view m p len = query_bytes header labels rest"
  shows "extractQuery m p len = Inr (Some (dotted labels))"
proof -
  let ?q = "query_bytes header labels rest"
  have nth: "?q ! k = header ! k" if "k < 12" for k
    using that assms(1) by (simp add: query_bytes_def nth_append)
  have "12 \<le> length ?q" using assms(1) by (simp add: query_bytes_def)
  then have "isDNSQuery ?q 0 (length ?q) = Inr True"
    using assms(2,3) rd_nth [of 2 ?q] rd_nth [of 4 ?q] rd_nth [of 5 ?q]
    by (simp add: isDNSQuery_def nth)
  moreover have "dns_loop ?q 0 (length ?q) 12 [] = Inr (dotted labels)"
    using dns_loop_labels [OF assms(5), of header rest "[]"] assms(1) foldl_labels [OF assms(5)] by simp
  moreover have "dotted labels \<noteq> []"
    using assms(4,5) by (cases labels rule: dotted.cases) auto
  ultimately have "extractQuery ?q 0 (length ?q) = Inr (Some (dotted labels))"
    by (simp add: extractQuery_def)
  then show ?thesis
    using extractQuery_local [OF assms(6)] assms(7) length_view [OF assms(6)] by simp
qed

theorem dns_query_name_witness:
  "extractQuery ([0, 7, 1, 0, 0, 1, 0, 0, 0, 0, 0, 0] @ label_bytes ''www'' @ label_bytes ''org'' @ [0, 0, 1])
     0 23 = Inr (Some ''www.org'')"
  using dns_query_name [of "[0, 7, 1, 0, 0, 1, 0, 0, 0, 0, 0, 0]" "[''www'', ''org'']"
      "[0, 7, 1, 0, 0, 1, 0, 0, 0, 0, 0, 0] @ label_bytes ''www'' @ label_bytes ''org'' @ [0, 0, 1]"
      0 23 "[0, 1]"]
  by (simp add: query_bytes_def label_bytes_def in_block_def view_def join16_def)

section \<open>An HTTP request\<close>

definition is_host_key :: "bytes \<Rightarrow> bool" where
  "is_host_key bs \<longleftrightarrow> list_all2 (\<lambda>b S. b \<in> S) bs host_name"

lemma bytes_in_at_eq:
  "q + length Ss \<le> length m \<Longrightarrow>
   bytes_in_at Ss m (int q) = Inr (list_all2 (\<lambda>b S. b \<in> S) (take (length Ss) (drop q m)) Ss)"
proof (induction Ss arbitrary: q)
  case (Cons S Ss)
  then have "q < length m" by simp
  then have "drop q m = m ! q # drop (Suc q) m" by (simp add: Cons_nth_drop_Suc)
  moreover have e: "int q + 1 = int (Suc q)" by simp
  ultimately show ?case
    using Cons.prems \<open>q < length m\<close> Cons.IH [of "Suc q"] by (simp add: rd_nth e del: of_nat_Suc)
qed simp

lemma length_host_name: "length host_name = 5"
  by (simp add: host_name_def)

lemma host_at_eq:
  "q + 5 \<le> length m \<Longrightarrow> bytes_in_at host_name m (int q) = Inr (is_host_key (take 5 (drop q m)))"
  using bytes_in_at_eq [of q host_name m] by (simp add: is_host_key_def length_host_name)

lemma scan_while_run:
  assumes "set run \<subseteq> S" and "b \<notin> S"
  shows "scan_while S (xs @ run @ b # ys) 0 (length (xs @ run @ b # ys)) (length xs) =
    Inr (length xs + length run)"
  using assms(1)
proof (induction run arbitrary: xs)
  case Nil
  then show ?case
    using read_after(1) [of xs b ys] assms(2) by (simp add: scan_while.simps [of _ _ _ _ "length xs"])
next
  case (Cons c run)
  then show ?case
    using read_after(1) [of xs c "run @ b # ys"] Cons.IH [of "xs @ [c]"]
    by (simp add: scan_while.simps [of _ _ _ _ "length xs"])
qed

lemma http_loop_skip:
  assumes "\<forall>i < n. \<not> is_host_key (take 5 (drop i m))" and "n + 6 \<le> length m" and "k \<le> n"
  shows "http_loop m 0 (length m) k = http_loop m 0 (length m) n"
  using assms(3)
proof (induction "n - k" arbitrary: k)
  case (Suc j)
  then have "k < n" by simp
  then have "bytes_in_at host_name m (int k) = Inr False"
    using assms(1,2) host_at_eq [of k m] by simp
  then show ?case
    using Suc assms(2) \<open>k < n\<close> by (simp add: http_loop.simps [of _ _ _ k])
qed simp

text \<open>C39: in a request the HTTP extractor takes the first place where \<open>host:\<close> occurs, in any
  case of letters, skips the blanks after it and returns the rest of the line up to a
  colon. It does not ask that the place be the start of a header line: the witness is a
  request whose result is the value of an \<open>X-Host\<close> header in front of \<open>Host\<close>.\<close>

theorem http_host_header:
  assumes "in_block m p len" and "view m p len = line @ key @ blanks @ host @ eol # rest"
    and "take 4 (view m p len) \<in> set (map bytes_of methods)"
    and "is_host_key key" and "\<forall>i < length line. \<not> is_host_key (take 5 (drop i (view m p len)))"
    and "set blanks \<subseteq> {0x20, 0x09}" and "eol \<in> {0x0D, 0x0A}"
    and "host \<noteq> []" and "hd host \<notin> {0x20, 0x09}" and "set host \<inter> {0x0D, 0x0A} = {}"
  shows "http_extract m p len = Inr (Some (before_colon (str_of host)))"
proof -
  let ?v = "line @ key @ blanks @ host @ eol # rest" and ?i = "length line"
  have v: "view m p len = ?v" "len = length ?v"
    using assms(1,2) length_view by metis+
  have key: "length key = 5" using assms(4) by (auto simp: is_host_key_def host_name_def dest: list_all2_lengthD)
  have "0 < length host" using assms(8) by simp
  then have room: "?i + 6 < length ?v" using key unfolding length_append by simp
  have "isHTTPRequest ?v 0 (length ?v) = Inr True"
    using assms(3) v room by (simp add: isHTTPRequest_def rd_range_def)
  moreover have "http_loop ?v 0 (length ?v) 0 = http_loop ?v 0 (length ?v) ?i"
    using assms(5) v room by (intro http_loop_skip) simp_all
  moreover have found: "bytes_in_at host_name ?v (int ?i) = Inr True"
    using host_at_eq [of ?i ?v] assms(4) key room by simp
  moreover have start: "scan_while {0x20, 0x09} ?v 0 (length ?v) (?i + 5) = Inr (?i + 5 + length blanks)"
  proof -
    obtain c cs where host: "host = c # cs" using assms(8) by (cases host) auto
    then show ?thesis
      using scan_while_run [OF assms(6), of c "line @ key" "cs @ eol # rest"] assms(9) key by simp
  qed
  moreover have stop: "scan_while (- {0x0D, 0x0A}) ?v 0 (length ?v) (?i + 5 + length blanks) =
      Inr (?i + 5 + length blanks + length host)"
    using scan_while_run [of host "- {0x0D, 0x0A}" eol "line @ key @ blanks" rest] assms(7,10) key
    by (simp add: add.assoc) blast
  moreover have "rd_range ?v (int (?i + 5 + length blanks)) (length host) = Inr host"
    using read_after(3) [of "line @ key @ blanks" host "eol # rest"] key by (simp add: add.assoc)
  ultimately have "http_extract ?v 0 (length ?v) = Inr (Some (before_colon (str_of host)))"
    using room assms(8) by (simp add: http_extract_def http_loop.simps [of _ _ _ ?i] del: of_nat_add)
  then show ?thesis using http_extract_local [OF assms(1)] v by simp
qed

definition sample_request :: bytes where
  "sample_request = bytes_of ''GET / HTTP/1.1'' @ [0x0D, 0x0A] @ bytes_of ''X-Host: a.org:80'' @
     [0x0D, 0x0A] @ bytes_of ''Host: b.org'' @ [0x0D, 0x0A]"

theorem http_host_header_witness:
  "http_extract sample_request 0 (length sample_request) = Inr (Some ''a.org'')"
proof -
  let ?line = "bytes_of ''GET / HTTP/1.1'' @ [0x0D, 0x0A] @ bytes_of ''X-''"
  have split: "sample_request = ?line @ bytes_of ''Host:'' @ [0x20] @ bytes_of ''a.org:80'' @ 0x0D #
      (0x0A # bytes_of ''Host: b.org'' @ [0x0D, 0x0A])"
    by (simp add: sample_request_def bytes_of_def)
  have req: "take 4 sample_request = bytes_of ''GET ''"
    by (simp add: sample_request_def bytes_of_def)
  have key: "is_host_key (bytes_of ''Host:'')"
    by (simp add: is_host_key_def host_name_def bytes_of_def)
  have "list_all (\<lambda>i. \<not> is_host_key (take 5 (drop i sample_request))) [0..<18]"
    by code_simp
  then have no: "\<forall>i < length ?line. \<not> is_host_key (take 5 (drop i sample_request))"
    by (simp add: list_all_iff)
  have host: "bytes_of ''a.org:80'' \<noteq> []" "hd (bytes_of ''a.org:80'') \<notin> {0x20, 0x09}"
    "set (bytes_of ''a.org:80'') \<inter> {0x0D, 0x0A} = {}"
    by (simp_all add: bytes_of_def)
  have "http_extract sample_request 0 (length sample_request) =
      Inr (Some (before_colon (str_of (bytes_of ''a.org:80''))))"
    by (rule http_host_header [where line = ?line and key = "bytes_of ''Host:''" and blanks = "[0x20]"
          and eol = "0x0D"])
      (use split req key no host in \<open>simp_all add: methods_def\<close>)
  then show ?thesis by (simp add: before_colon_def)
qed

end
