(* ===== verification/Rule_Manager.thy ===== *)
theory Rule_Manager
  imports Aegis_Types
begin

text \<open>
  \<open>include/rule_manager.h\<close> and \<open>src/rule_manager.cpp\<close>: the blocking rules on addresses,
  applications, domains and ports, the decision \<open>shouldBlock\<close>, and the rule file. Each
  method holds its mutexes for its whole body, so it is one atomic function of the rule
  state. An \<open>unordered_set\<close> is a list without duplicates; an iteration over it visits the
  list in an order the standard leaves open, coded by a list of numbers (\<open>reorder\<close>).
\<close>

section \<open>The rule state\<close>

record rule_manager =
  blocked_ips :: "u32 list"
  blocked_apps :: "AppType list"
  blocked_domains :: "string list"
  domain_patterns :: "string list"
  blocked_ports :: "u16 list"

definition empty_rules :: rule_manager where
  "empty_rules = \<lparr>blocked_ips = [], blocked_apps = [], blocked_domains = [],
     domain_patterns = [], blocked_ports = []\<rparr>"

datatype block_type = IP | APP | DOMAIN | PORT

record block_reason =
  reason_type :: block_type
  detail :: string

section \<open>Addresses as text\<close>

text \<open>
  \<open>octet << shift\<close> on a non-negative \<open>int\<close> is defined while the shift is below the width
  and the shifted value fits the unsigned type.
\<close>

definition shl_int :: "int \<Rightarrow> int \<Rightarrow> u32 res" where
  "shl_int octet shift =
     (if shift < 0 \<or> 32 \<le> shift \<or> octet < 0 \<or> 2 ^ 32 \<le> octet * 2 ^ nat shift
      then Inl Shift_Range
      else Inr (word_of_int (octet * 2 ^ nat shift)))"

fun parseIP_loop :: "string \<Rightarrow> u32 \<Rightarrow> int \<Rightarrow> int \<Rightarrow> u32 res" where
  "parseIP_loop [] result octet shift =
     andThen (shl_int octet shift) (\<lambda>v. Inr (result OR v))"
| "parseIP_loop (c # cs) result octet shift =
     (if c = CHR ''.'' then
        andThen (shl_int octet shift) (\<lambda>v. parseIP_loop cs (result OR v) 0 (shift + 8))
      else if digit c then
        let octet = octet * 10 + int (digit_val c)
        in if octet > 2147483647 then Inl Signed_Overflow
           else parseIP_loop cs result octet shift
      else parseIP_loop cs result octet shift)"

definition parseIP :: "string \<Rightarrow> u32 res" where
  "parseIP ip = parseIP_loop ip 0 0 0"

definition rm_ipToString :: "u32 \<Rightarrow> string" where
  "rm_ipToString ip =
     dec (unat (drop_bit 0 ip AND 0xFF)) @ ''.'' @
     dec (unat (drop_bit 8 ip AND 0xFF)) @ ''.'' @
     dec (unat (drop_bit 16 ip AND 0xFF)) @ ''.'' @
     dec (unat (drop_bit 24 ip AND 0xFF))"

section \<open>Blocking and unblocking\<close>

definition domainMatchesPattern :: "string \<Rightarrow> string \<Rightarrow> bool" where
  "domainMatchesPattern domain pattern =
     (if pattern = [] then False
      else if pattern ! 0 = CHR ''*'' then
        if length pattern = 1 then True
        else
          let suffix = drop 1 pattern
          in if length domain \<ge> length suffix
             then take (length suffix) (drop (length domain - length suffix) domain) = suffix
             else False
      else domain = pattern)"

definition blockIP :: "u32 \<Rightarrow> rule_manager \<Rightarrow> rule_manager" where
  "blockIP ip rm = rm\<lparr>blocked_ips := List.insert ip (blocked_ips rm)\<rparr>"

definition blockIP_str :: "string \<Rightarrow> rule_manager \<Rightarrow> rule_manager res" where
  "blockIP_str s rm = andThen (parseIP s) (\<lambda>ip. Inr (blockIP ip rm))"

definition unblockIP :: "u32 \<Rightarrow> rule_manager \<Rightarrow> rule_manager" where
  "unblockIP ip rm = rm\<lparr>blocked_ips := removeAll ip (blocked_ips rm)\<rparr>"

definition unblockIP_str :: "string \<Rightarrow> rule_manager \<Rightarrow> rule_manager res" where
  "unblockIP_str s rm = andThen (parseIP s) (\<lambda>ip. Inr (unblockIP ip rm))"

definition isIPBlocked :: "rule_manager \<Rightarrow> u32 \<Rightarrow> bool" where
  "isIPBlocked rm ip \<longleftrightarrow> ip \<in> set (blocked_ips rm)"

definition getBlockedIPs :: "nat list \<Rightarrow> rule_manager \<Rightarrow> string list" where
  "getBlockedIPs ns rm = map rm_ipToString (reorder ns (blocked_ips rm))"

definition blockApp :: "AppType \<Rightarrow> rule_manager \<Rightarrow> rule_manager" where
  "blockApp app rm = rm\<lparr>blocked_apps := List.insert app (blocked_apps rm)\<rparr>"

definition unblockApp :: "AppType \<Rightarrow> rule_manager \<Rightarrow> rule_manager" where
  "unblockApp app rm = rm\<lparr>blocked_apps := removeAll app (blocked_apps rm)\<rparr>"

definition isAppBlocked :: "rule_manager \<Rightarrow> AppType \<Rightarrow> bool" where
  "isAppBlocked rm app = (if app = UNKNOWN then False else app \<in> set (blocked_apps rm))"

definition getBlockedApps :: "nat list \<Rightarrow> rule_manager \<Rightarrow> AppType list" where
  "getBlockedApps ns rm = reorder ns (blocked_apps rm)"

definition blockDomain :: "string \<Rightarrow> rule_manager \<Rightarrow> rule_manager" where
  "blockDomain domain rm =
     (if CHR ''*'' \<in> set domain
      then rm\<lparr>domain_patterns := domain_patterns rm @ [domain]\<rparr>
      else rm\<lparr>blocked_domains := List.insert domain (blocked_domains rm)\<rparr>)"

definition unblockDomain :: "string \<Rightarrow> rule_manager \<Rightarrow> rule_manager" where
  "unblockDomain domain rm =
     rm\<lparr>blocked_domains := removeAll domain (blocked_domains rm),
        domain_patterns := removeAll domain (domain_patterns rm)\<rparr>"

definition isDomainBlocked :: "rule_manager \<Rightarrow> string \<Rightarrow> bool" where
  "isDomainBlocked rm domain =
     (if domain = [] then False
      else if domain \<in> set (blocked_domains rm) then True
      else list_ex (domainMatchesPattern domain) (domain_patterns rm))"

definition getBlockedDomains :: "nat list \<Rightarrow> rule_manager \<Rightarrow> string list" where
  "getBlockedDomains ns rm = reorder ns (blocked_domains rm) @ domain_patterns rm"

definition blockPort :: "u16 \<Rightarrow> rule_manager \<Rightarrow> rule_manager" where
  "blockPort port rm = rm\<lparr>blocked_ports := List.insert port (blocked_ports rm)\<rparr>"

definition unblockPort :: "u16 \<Rightarrow> rule_manager \<Rightarrow> rule_manager" where
  "unblockPort port rm = rm\<lparr>blocked_ports := removeAll port (blocked_ports rm)\<rparr>"

definition isPortBlocked :: "rule_manager \<Rightarrow> u16 \<Rightarrow> bool" where
  "isPortBlocked rm port \<longleftrightarrow> port \<in> set (blocked_ports rm)"

definition shouldBlock :: "rule_manager \<Rightarrow> u32 \<Rightarrow> u16 \<Rightarrow> AppType \<Rightarrow> string \<Rightarrow> block_reason option" where
  "shouldBlock rm ip port app domain =
     (if isIPBlocked rm ip then Some \<lparr>reason_type = IP, detail = rm_ipToString ip\<rparr>
      else if isPortBlocked rm port
        then Some \<lparr>reason_type = PORT, detail = dec (unat port)\<rparr>
      else if isAppBlocked rm app
        then Some \<lparr>reason_type = APP, detail = appTypeToString app\<rparr>
      else if isDomainBlocked rm domain then Some \<lparr>reason_type = DOMAIN, detail = domain\<rparr>
      else None)"

record rule_stats =
  n_blocked_ips :: nat
  n_blocked_apps :: nat
  n_blocked_domains :: nat
  n_blocked_ports :: nat

definition rule_getStats :: "rule_manager \<Rightarrow> rule_stats" where
  "rule_getStats rm =
     \<lparr>n_blocked_ips = length (blocked_ips rm), n_blocked_apps = length (blocked_apps rm),
      n_blocked_domains = length (blocked_domains rm) + length (domain_patterns rm),
      n_blocked_ports = length (blocked_ports rm)\<rparr>"

definition clearAll :: "rule_manager \<Rightarrow> rule_manager" where
  "clearAll rm =
     rm\<lparr>blocked_ips := [], blocked_apps := [], blocked_domains := [], domain_patterns := [],
        blocked_ports := []\<rparr>"

section \<open>The rule file\<close>

text \<open>
  \<open>saveRules\<close> yields the text of the file, \<open>None\<close> when it cannot be opened. The four
  iteration orders are its arguments.
\<close>

definition saveRules ::
  "bool \<Rightarrow> nat list \<Rightarrow> nat list \<Rightarrow> nat list \<Rightarrow> nat list \<Rightarrow> rule_manager \<Rightarrow> string option" where
  "saveRules can_open ni na nd np rm =
     (if \<not> can_open then None
      else Some
        (concat (map (\<lambda>ip. ''IP '' @ ip @ ''\<newline>'') (getBlockedIPs ni rm)) @
         concat (map (\<lambda>app. ''APP '' @ appTypeToString app @ ''\<newline>'') (getBlockedApps na rm)) @
         concat (map (\<lambda>d. ''DOMAIN '' @ d @ ''\<newline>'') (getBlockedDomains nd rm)) @
         concat (map (\<lambda>p. ''PORT '' @ dec (unat p) @ ''\<newline>'') (reorder np (blocked_ports rm)))))"

definition newline :: char where
  "newline = CHR 0x0A"

text \<open>The lines \<open>std::getline\<close> delivers until the end of the file.\<close>

fun getlines :: "string \<Rightarrow> string \<Rightarrow> string list" where
  "getlines cur [] = (if cur = [] then [] else [cur])"
| "getlines cur (c # cs) =
     (if c = newline then cur # getlines [] cs else getlines (cur @ [c]) cs)"

definition isspace :: "char \<Rightarrow> bool" where
  "isspace c \<longleftrightarrow> (of_char c :: nat) \<in> {9, 10, 11, 12, 13, 32}"

text \<open>\<open>iss >> token\<close>: skip white space, then take up to the next; it fails on nothing left.\<close>

definition next_token :: "string \<Rightarrow> (string \<times> string) option" where
  "next_token s =
     (let s = dropWhile isspace s
      in if s = [] then None
         else Some (takeWhile (\<lambda>c. \<not> isspace c) s, dropWhile (\<lambda>c. \<not> isspace c) s))"

text \<open>\<open>std::stoi\<close> in base 10.\<close>

definition stoi :: "string \<Rightarrow> int res" where
  "stoi s =
     (let s = dropWhile isspace s;
          neg = (s \<noteq> [] \<and> hd s = CHR ''-'');
          ds = takeWhile digit (if s \<noteq> [] \<and> (hd s = CHR ''-'' \<or> hd s = CHR ''+'') then tl s else s);
          n = (if neg then - int (dec_val 0 ds) else int (dec_val 0 ds))
      in if ds = [] then Inl Invalid_Argument
         else if n < - 2147483648 \<or> 2147483647 < n then Inl Out_Of_Range
         else Inr n)"

definition load_line :: "string \<Rightarrow> rule_manager \<Rightarrow> rule_manager res" where
  "load_line line rm =
     (if line = [] \<or> line ! 0 = CHR ''#'' then Inr rm
      else case next_token line of
        None \<Rightarrow> Inr rm
      | Some (type, rem) \<Rightarrow>
          (case next_token rem of
             None \<Rightarrow> Inr rm
           | Some (val, _) \<Rightarrow>
               if type = ''IP'' then blockIP_str val rm
               else if type = ''APP'' then
                 (case find_app val of None \<Rightarrow> Inr rm | Some app \<Rightarrow> Inr (blockApp app rm))
               else if type = ''DOMAIN'' then Inr (blockDomain val rm)
               else if type = ''PORT'' then
                 andThen (stoi val) (\<lambda>n. Inr (blockPort (word_of_int n) rm))
               else Inr rm))"

fun load_lines :: "string list \<Rightarrow> rule_manager \<Rightarrow> rule_manager res" where
  "load_lines [] rm = Inr rm"
| "load_lines (l # ls) rm = andThen (load_line l rm) (load_lines ls)"

definition loadRules :: "string option \<Rightarrow> rule_manager \<Rightarrow> (bool \<times> rule_manager) res" where
  "loadRules file rm =
     (case file of
        None \<Rightarrow> Inr (False, rm)
      | Some text \<Rightarrow>
          andThen (load_lines (getlines [] text) (clearAll rm)) (\<lambda>rm'. Inr (True, rm')))"


section \<open>The address text round trip\<close>

lemma dec_val_ge: "v \<le> dec_val v ds"
proof (induction ds arbitrary: v)
  case (Cons c ds)
  have "v \<le> v * 10 + digit_val c" by simp
  also have "\<dots> \<le> dec_val (v * 10 + digit_val c) ds" by (rule Cons)
  finally show ?case by (simp add: dec_val_def)
qed (simp add: dec_val_def)

lemma digit_not_dot: "digit c \<Longrightarrow> c \<noteq> CHR ''.''"
  by (auto simp: digit_def)

lemma parseIP_loop_digits:
  assumes "\<forall>c \<in> set ds. digit c" and "dec_val v ds \<le> 2147483647"
  shows "parseIP_loop (ds @ s) r (int v) sh = parseIP_loop s r (int (dec_val v ds)) sh"
  using assms
proof (induction ds arbitrary: v)
  case Nil
  then show ?case by (simp add: dec_val_def)
next
  case (Cons c ds)
  let ?v = "v * 10 + digit_val c"
  have "dec_val v (c # ds) = dec_val ?v ds" by (simp add: dec_val_def)
  with Cons have "?v \<le> 2147483647" using dec_val_ge [of ?v ds] by linarith
  moreover from Cons have "parseIP_loop (ds @ s) r (int ?v) sh = parseIP_loop s r (int (dec_val ?v ds)) sh"
    by (intro Cons.IH) (simp_all add: dec_val_def)
  ultimately show ?case
    using Cons.prems digit_not_dot [of c] by (simp add: dec_val_def Let_def ac_simps)
qed

lemma parseIP_loop_dec:
  "n \<le> 255 \<Longrightarrow> parseIP_loop (dec n @ s) r 0 sh = parseIP_loop s r (int n) sh"
  using parseIP_loop_digits [of "dec n" 0 s r sh] dec_digits [of n] by (simp add: dec_val_dec)

lemma shl_int_octet:
  assumes "n \<le> 255" and "sh \<in> {0, 8, 16, 24}"
  shows "shl_int (int n) (int sh) = Inr (push_bit sh (word_of_nat n))"
proof -
  have "int n * 2 ^ sh < 2 ^ 32" using assms by auto
  moreover have "word_of_int (int n * 2 ^ sh) = (push_bit sh (word_of_nat n) :: u32)"
    by (simp add: push_bit_eq_mult)
  ultimately show ?thesis using assms by (auto simp add: shl_int_def)
qed

lemma octets_join:
  "(drop_bit 0 ip AND 0xFF) OR push_bit 8 (drop_bit 8 ip AND 0xFF) OR
   push_bit 16 (drop_bit 16 ip AND 0xFF) OR push_bit 24 (drop_bit 24 ip AND 0xFF) = (ip :: u32)"
proof -
  have m: "(0xFF :: u32) = mask 8" by (simp add: mask_numeral)
  show ?thesis unfolding m
  proof (rule bit_eqI)
    fix n :: nat
    have "n < 8 \<or> (\<exists>k<8. n = 8 + k) \<or> (\<exists>k<8. n = 16 + k) \<or> (\<exists>k<8. n = 24 + k) \<or> 32 \<le> n"
      by presburger
    then show "bit ((drop_bit 0 ip AND mask 8) OR push_bit 8 (drop_bit 8 ip AND mask 8) OR
        push_bit 16 (drop_bit 16 ip AND mask 8) OR push_bit 24 (drop_bit 24 ip AND mask 8)) n = bit ip n"
      by (elim disjE exE conjE) (auto simp: bit_simps dest: bit_imp_le_length)
  qed
qed

lemma octet_bound: "unat ((w :: u32) AND 0xFF) \<le> 255"
proof -
  have "w AND 0xFF = take_bit 8 w" by (simp add: take_bit_eq_mask mask_numeral)
  then have "unat (w AND 0xFF) = take_bit 8 (unat w)" by (simp add: unsigned_take_bit_eq)
  then show ?thesis using take_bit_nat_less_exp [of 8 "unat w"] by simp
qed


lemma parseIP_formatted:
  assumes "a \<le> 255" "b \<le> 255" "c \<le> 255" "d \<le> 255"
  shows "parseIP (dec a @ ''.'' @ dec b @ ''.'' @ dec c @ ''.'' @ dec d) =
    Inr (word_of_nat a OR push_bit 8 (word_of_nat b) OR push_bit 16 (word_of_nat c) OR
         push_bit 24 (word_of_nat d))"
proof -
  have d: "parseIP_loop (dec d) r 0 24 = parseIP_loop [] r (int d) 24" for r
    using parseIP_loop_dec [OF assms(4), of "[]"] by simp
  note s = shl_int_octet [OF assms(1), of 0] shl_int_octet [OF assms(2), of 8]
    shl_int_octet [OF assms(3), of 16] shl_int_octet [OF assms(4), of 24]
  show ?thesis using assms s
    by (simp add: parseIP_def parseIP_loop_dec d or.assoc)
qed

lemma parseIP_ipToString: "parseIP (rm_ipToString ip) = Inr ip"
  using octets_join [of ip]
  unfolding rm_ipToString_def
  by (subst parseIP_formatted) (simp_all add: octet_bound or.assoc)

text \<open>Parsing the dotted form \<open>ipToString\<close> prints gives the address back, with no
  overflow and no undefined shift on the way.\<close>

theorem parseIP_round_trip: "parseIP (rm_ipToString ip) = Inr ip"
  by (rule parseIP_ipToString)

section \<open>What a rule blocks\<close>

lemma domainMatchesPattern_iff:
  "domainMatchesPattern domain pattern \<longleftrightarrow>
     pattern \<noteq> [] \<and> (if hd pattern = CHR ''*'' then suffix (tl pattern) domain else domain = pattern)"
proof (cases pattern)
  case (Cons c cs)
  have "length cs \<le> length domain \<and> drop (length domain - length cs) domain = cs \<longleftrightarrow> suffix cs domain"
    by (auto simp: suffix_def dest: sym) (metis append_take_drop_id)
  then show ?thesis using Cons by (auto simp: domainMatchesPattern_def)
qed (simp add: domainMatchesPattern_def)

lemma isDomainBlocked_iff:
  "isDomainBlocked rm domain \<longleftrightarrow>
     domain \<noteq> [] \<and> (domain \<in> set (blocked_domains rm) \<or>
       (\<exists>pattern \<in> set (domain_patterns rm). domainMatchesPattern domain pattern))"
  by (simp add: isDomainBlocked_def list_ex_iff)

lemma isAppBlocked_iff: "isAppBlocked rm app \<longleftrightarrow> app \<noteq> UNKNOWN \<and> app \<in> set (blocked_apps rm)"
  by (simp add: isAppBlocked_def)

text \<open>C20: a packet is blocked exactly when one of the four kinds of rule applies, and the
  reason named is the first that does, in the order address, port, application, domain.\<close>

theorem shouldBlock_correct:
  "(shouldBlock rm ip port app domain = None \<longleftrightarrow>
      ip \<notin> set (blocked_ips rm) \<and> port \<notin> set (blocked_ports rm) \<and>
      (app = UNKNOWN \<or> app \<notin> set (blocked_apps rm)) \<and>
      (domain = [] \<or> domain \<notin> set (blocked_domains rm) \<and>
         (\<forall>pattern \<in> set (domain_patterns rm). \<not> domainMatchesPattern domain pattern))) \<and>
   (map_option reason_type (shouldBlock rm ip port app domain) = Some IP \<longleftrightarrow> isIPBlocked rm ip) \<and>
   (map_option reason_type (shouldBlock rm ip port app domain) = Some PORT \<longleftrightarrow>
      \<not> isIPBlocked rm ip \<and> isPortBlocked rm port) \<and>
   (map_option reason_type (shouldBlock rm ip port app domain) = Some APP \<longleftrightarrow>
      \<not> isIPBlocked rm ip \<and> \<not> isPortBlocked rm port \<and> isAppBlocked rm app) \<and>
   (map_option reason_type (shouldBlock rm ip port app domain) = Some DOMAIN \<longleftrightarrow>
      \<not> isIPBlocked rm ip \<and> \<not> isPortBlocked rm port \<and> \<not> isAppBlocked rm app \<and>
      isDomainBlocked rm domain)"
  by (auto simp: shouldBlock_def isIPBlocked_def isPortBlocked_def isAppBlocked_def
        isDomainBlocked_iff)

theorem shouldBlock_correct_witness:
  "shouldBlock (blockPort 443 (blockApp YOUTUBE empty_rules)) 1 80 HTTP ''a.org'' = None \<and>
   map_option reason_type (shouldBlock (blockPort 443 (blockApp YOUTUBE empty_rules)) 1 443 YOUTUBE []) = Some PORT"
  using shouldBlock_correct [of "blockPort 443 (blockApp YOUTUBE empty_rules)" 1 80 HTTP "''a.org''"]
    shouldBlock_correct [of "blockPort 443 (blockApp YOUTUBE empty_rules)" 1 443 YOUTUBE "[]"]
  by (simp add: blockPort_def blockApp_def empty_rules_def isIPBlocked_def isPortBlocked_def)

text \<open>A domain rule without a star blocks that domain alone and none that merely contains
  it, and a rule whose star comes first blocks exactly the domains that end in the rest of it.\<close>

theorem domain_rule_meaning:
  assumes "domain \<noteq> []"
  shows "(CHR ''*'' \<notin> set d \<longrightarrow>
           (isDomainBlocked (blockDomain d rm) domain \<longleftrightarrow> isDomainBlocked rm domain \<or> domain = d)) \<and>
         (isDomainBlocked (blockDomain (CHR ''*'' # d) rm) domain \<longleftrightarrow>
           isDomainBlocked rm domain \<or> (\<exists>pre. domain = pre @ d))"
  using assms
  by (auto simp: isDomainBlocked_iff blockDomain_def domainMatchesPattern_iff suffix_def)

theorem domain_rule_meaning_witness:
  "isDomainBlocked (blockDomain ''tiktok.com'' empty_rules) ''tiktok.com'' \<and>
   \<not> isDomainBlocked (blockDomain ''tiktok.com'' empty_rules) ''www.tiktok.com'' \<and>
   isDomainBlocked (blockDomain ''*.tiktok.com'' empty_rules) ''www.tiktok.com''"
proof -
  have e: "\<not> isDomainBlocked empty_rules d" for d
    by (simp add: isDomainBlocked_iff empty_rules_def)
  have "''www.tiktok.com'' = ''www'' @ ''.tiktok.com''" by simp
  then show ?thesis
    using domain_rule_meaning [of "''tiktok.com''" "''tiktok.com''" empty_rules]
      domain_rule_meaning [of "''www.tiktok.com''" "''tiktok.com''" empty_rules]
      domain_rule_meaning [of "''www.tiktok.com''" "''.tiktok.com''" empty_rules] e
    by auto
qed


section \<open>The rule state stays well formed\<close>

definition rules_inv :: "rule_manager \<Rightarrow> bool" where
  "rules_inv rm \<longleftrightarrow>
     distinct (blocked_ips rm) \<and> distinct (blocked_apps rm) \<and> distinct (blocked_domains rm) \<and>
     distinct (blocked_ports rm) \<and>
     (\<forall>d \<in> set (blocked_domains rm). CHR ''*'' \<notin> set d) \<and>
     (\<forall>d \<in> set (domain_patterns rm). CHR ''*'' \<in> set d)"

lemma rules_inv_ops [simp]:
  "rules_inv empty_rules"
  "rules_inv rm \<Longrightarrow> rules_inv (blockIP ip rm)" "rules_inv rm \<Longrightarrow> rules_inv (unblockIP ip rm)"
  "rules_inv rm \<Longrightarrow> rules_inv (blockApp a rm)" "rules_inv rm \<Longrightarrow> rules_inv (unblockApp a rm)"
  "rules_inv rm \<Longrightarrow> rules_inv (blockDomain d rm)" "rules_inv rm \<Longrightarrow> rules_inv (unblockDomain d rm)"
  "rules_inv rm \<Longrightarrow> rules_inv (blockPort q rm)" "rules_inv rm \<Longrightarrow> rules_inv (unblockPort q rm)"
  "rules_inv (clearAll rm)"
  by (auto simp: rules_inv_def empty_rules_def blockIP_def unblockIP_def blockApp_def unblockApp_def
        blockDomain_def unblockDomain_def blockPort_def unblockPort_def clearAll_def
        distinct_removeAll)

lemma rules_inv_load_line: "rules_inv rm \<Longrightarrow> load_line l rm = Inr rm' \<Longrightarrow> rules_inv rm'"
  by (auto simp: load_line_def blockIP_str_def split: if_splits option.splits)

lemma rules_inv_load_lines: "rules_inv rm \<Longrightarrow> load_lines ls rm = Inr rm' \<Longrightarrow> rules_inv rm'"
  by (induction ls arbitrary: rm) (auto dest: rules_inv_load_line)

text \<open>The calls that change the rules, as text and numbers come in; a fault ends the sequence.\<close>

datatype rule_op =
    Block_ip_text string
  | Unblock_ip_text string
  | Add_ip u32
  | Remove_ip u32
  | Add_app AppType
  | Remove_app AppType
  | Add_domain string
  | Remove_domain string
  | Add_port u16
  | Remove_port u16
  | Load_file "string option"
  | Clear_all

fun rule_step :: "rule_op \<Rightarrow> rule_manager \<Rightarrow> rule_manager res" where
  "rule_step (Block_ip_text ip) rm = blockIP_str ip rm"
| "rule_step (Unblock_ip_text ip) rm = unblockIP_str ip rm"
| "rule_step (Add_ip ip) rm = Inr (blockIP ip rm)"
| "rule_step (Remove_ip ip) rm = Inr (unblockIP ip rm)"
| "rule_step (Add_app app) rm = Inr (blockApp app rm)"
| "rule_step (Remove_app app) rm = Inr (unblockApp app rm)"
| "rule_step (Add_domain d) rm = Inr (blockDomain d rm)"
| "rule_step (Remove_domain d) rm = Inr (unblockDomain d rm)"
| "rule_step (Add_port port) rm = Inr (blockPort port rm)"
| "rule_step (Remove_port port) rm = Inr (unblockPort port rm)"
| "rule_step (Load_file content) rm = andThen (loadRules content rm) (\<lambda>(ok, rm). Inr rm)"
| "rule_step Clear_all rm = Inr (clearAll rm)"

fun rule_steps :: "rule_op list \<Rightarrow> rule_manager \<Rightarrow> rule_manager res" where
  "rule_steps [] rm = Inr rm"
| "rule_steps (a # as) rm = andThen (rule_step a rm) (rule_steps as)"

lemma rules_inv_step: "rules_inv rm \<Longrightarrow> rule_step a rm = Inr rm' \<Longrightarrow> rules_inv rm'"
  by (cases a) (auto simp: blockIP_str_def unblockIP_str_def loadRules_def split: option.splits
      intro: rules_inv_load_lines [OF rules_inv_ops(10)])

lemma rules_inv_steps: "rules_inv rm \<Longrightarrow> rule_steps as rm = Inr rm' \<Longrightarrow> rules_inv rm'"
  by (induction as arbitrary: rm) (auto dest: rules_inv_step)

section \<open>The rules are what was asked for last\<close>

datatype rule = On_ip u32 | On_app AppType | On_domain string | On_port u16

text \<open>The rule a line of a rule file stands for.\<close>

definition line_rule :: "string \<Rightarrow> rule option" where
  "line_rule line =
     (if line = [] \<or> line ! 0 = CHR ''#'' then None
      else case next_token line of
        None \<Rightarrow> None
      | Some (type, rem) \<Rightarrow>
          (case next_token rem of
             None \<Rightarrow> None
           | Some (val, _) \<Rightarrow>
               if type = ''IP'' then (case parseIP val of Inl _ \<Rightarrow> None | Inr ip \<Rightarrow> Some (On_ip ip))
               else if type = ''APP'' then map_option On_app (find_app val)
               else if type = ''DOMAIN'' then Some (On_domain val)
               else if type = ''PORT'' then
                 (case stoi val of Inl _ \<Rightarrow> None | Inr n \<Rightarrow> Some (On_port (word_of_int n)))
               else None))"

text \<open>A call asks for a rule, or lifts it. Loading a file lifts all rules and asks for those in it.\<close>

fun asks_for :: "rule_op \<Rightarrow> rule \<Rightarrow> bool" where
  "asks_for (Block_ip_text s) r = (case parseIP s of Inl _ \<Rightarrow> False | Inr ip \<Rightarrow> r = On_ip ip)"
| "asks_for (Add_ip ip) r = (r = On_ip ip)"
| "asks_for (Add_app app) r = (r = On_app app)"
| "asks_for (Add_domain d) r = (r = On_domain d)"
| "asks_for (Add_port port) r = (r = On_port port)"
| "asks_for (Load_file (Some content)) r = (Some r \<in> line_rule ` set (getlines [] content))"
| "asks_for _ r = False"

fun lifts :: "rule_op \<Rightarrow> rule \<Rightarrow> bool" where
  "lifts (Unblock_ip_text s) r = (case parseIP s of Inl _ \<Rightarrow> False | Inr ip \<Rightarrow> r = On_ip ip)"
| "lifts (Remove_ip ip) r = (r = On_ip ip)"
| "lifts (Remove_app app) r = (r = On_app app)"
| "lifts (Remove_domain d) r = (r = On_domain d)"
| "lifts (Remove_port port) r = (r = On_port port)"
| "lifts (Load_file (Some content)) r = True"
| "lifts Clear_all r = True"
| "lifts _ r = False"

definition asked_last :: "rule_op list \<Rightarrow> rule \<Rightarrow> bool" where
  "asked_last as r \<longleftrightarrow>
     (\<exists>pre a post. as = pre @ a # post \<and> asks_for a r \<and> (\<forall>b \<in> set post. \<not> lifts b r))"

fun has_rule :: "rule_manager \<Rightarrow> rule \<Rightarrow> bool" where
  "has_rule rm (On_ip ip) \<longleftrightarrow> ip \<in> set (blocked_ips rm)"
| "has_rule rm (On_app app) \<longleftrightarrow> app \<in> set (blocked_apps rm)"
| "has_rule rm (On_domain d) \<longleftrightarrow> d \<in> set (blocked_domains rm) \<union> set (domain_patterns rm)"
| "has_rule rm (On_port port) \<longleftrightarrow> port \<in> set (blocked_ports rm)"

lemma has_rule_ops [simp]:
  "\<not> has_rule empty_rules r" "\<not> has_rule (clearAll rm) r"
  "has_rule (blockIP ip rm) r \<longleftrightarrow> r = On_ip ip \<or> has_rule rm r"
  "has_rule (unblockIP ip rm) r \<longleftrightarrow> has_rule rm r \<and> r \<noteq> On_ip ip"
  "has_rule (blockApp app rm) r \<longleftrightarrow> r = On_app app \<or> has_rule rm r"
  "has_rule (unblockApp app rm) r \<longleftrightarrow> has_rule rm r \<and> r \<noteq> On_app app"
  "has_rule (blockDomain d rm) r \<longleftrightarrow> r = On_domain d \<or> has_rule rm r"
  "has_rule (unblockDomain d rm) r \<longleftrightarrow> has_rule rm r \<and> r \<noteq> On_domain d"
  "has_rule (blockPort port rm) r \<longleftrightarrow> r = On_port port \<or> has_rule rm r"
  "has_rule (unblockPort port rm) r \<longleftrightarrow> has_rule rm r \<and> r \<noteq> On_port port"
  by (cases r; auto simp: empty_rules_def clearAll_def blockIP_def unblockIP_def blockApp_def unblockApp_def
      blockDomain_def unblockDomain_def blockPort_def unblockPort_def)+

declare has_rule.simps [simp del]

lemma has_rule_line:
  assumes "load_line line rm = Inr rm'"
  shows "has_rule rm' r \<longleftrightarrow> line_rule line = Some r \<or> has_rule rm r"
proof (cases "line = [] \<or> line ! 0 = CHR ''#''")
  case False
  show ?thesis
  proof (cases "next_token line")
    case (Some t)
    then obtain type tail where t: "next_token line = Some (type, tail)" by (cases t) simp
    show ?thesis
    proof (cases "next_token tail")
      case (Some v)
      then obtain val tail' where "next_token tail = Some (val, tail')" by (cases v) simp
      then show ?thesis
        using assms False t
        by (auto simp: load_line_def line_rule_def blockIP_str_def split: if_splits option.splits)
    qed (use assms False t in \<open>simp add: load_line_def line_rule_def\<close>)
  qed (use assms False in \<open>simp add: load_line_def line_rule_def\<close>)
qed (use assms in \<open>auto simp: load_line_def line_rule_def\<close>)

lemma has_rule_lines:
  "load_lines ls rm = Inr rm' \<Longrightarrow> has_rule rm' r \<longleftrightarrow> Some r \<in> line_rule ` set ls \<or> has_rule rm r"
proof (induction ls arbitrary: rm)
  case (Cons l ls)
  then obtain rm1 where "load_line l rm = Inr rm1" "load_lines ls rm1 = Inr rm'" by auto
  then show ?case using Cons.IH [of rm1] has_rule_line [of l rm rm1 r] by auto
qed simp

lemma has_rule_step:
  "rule_step a rm = Inr rm' \<Longrightarrow> has_rule rm' r \<longleftrightarrow> asks_for a r \<or> has_rule rm r \<and> \<not> lifts a r"
proof (cases a)
  case (Load_file content)
  then show "rule_step a rm = Inr rm' \<Longrightarrow> ?thesis"
    by (cases content) (auto simp: loadRules_def has_rule_lines)
qed (auto simp: blockIP_str_def unblockIP_str_def)

lemma asked_last_Cons:
  "asked_last (a # as) r \<longleftrightarrow> asked_last as r \<or> asks_for a r \<and> (\<forall>b \<in> set as. \<not> lifts b r)"
  unfolding asked_last_def by (auto simp: Cons_eq_append_conv)

lemma has_rule_steps:
  "rule_steps as rm = Inr rm' \<Longrightarrow>
   has_rule rm' r \<longleftrightarrow> asked_last as r \<or> has_rule rm r \<and> (\<forall>b \<in> set as. \<not> lifts b r)"
proof (induction as arbitrary: rm)
  case (Cons a as)
  then obtain rm1 where "rule_step a rm = Inr rm1" "rule_steps as rm1 = Inr rm'" by auto
  then show ?case using Cons.IH [of rm1] has_rule_step [of a rm rm1 r] by (auto simp: asked_last_Cons)
qed (simp add: asked_last_def)

text \<open>The two places for domains act as one list of patterns.\<close>

lemma isDomainBlocked_rules:
  assumes "rules_inv rm"
  shows "isDomainBlocked rm domain \<longleftrightarrow>
    domain \<noteq> [] \<and> (\<exists>d. has_rule rm (On_domain d) \<and> domainMatchesPattern domain d)"
proof -
  have "domainMatchesPattern domain d \<longleftrightarrow> domain = d" if "d \<in> set (blocked_domains rm)" "domain \<noteq> []" for d
    using assms that by (cases d) (auto simp: rules_inv_def domainMatchesPattern_iff)
  then show ?thesis by (auto simp: isDomainBlocked_iff has_rule.simps)
qed

text \<open>C40: the rules are what was asked for last. Take any sequence of the operations (adding and
  removing by number or text, loading files, clearing) that comes through. An address, a port
  or an application is blocked afterwards exactly when some call asked for it, by itself or in a
  file, and no later call lifted it, by removing it, clearing, or loading another file; and a domain is
  blocked exactly when it matches a pattern that was asked for so, wherever that is kept
  and however often it was asked for.\<close>

theorem rules_asked_last:
  assumes "rule_steps as empty_rules = Inr rm"
  shows "(isIPBlocked rm ip \<longleftrightarrow> asked_last as (On_ip ip)) \<and>
    (isPortBlocked rm port \<longleftrightarrow> asked_last as (On_port port)) \<and>
    (isAppBlocked rm app \<longleftrightarrow> app \<noteq> UNKNOWN \<and> asked_last as (On_app app)) \<and>
    (isDomainBlocked rm domain \<longleftrightarrow>
       domain \<noteq> [] \<and> (\<exists>d. asked_last as (On_domain d) \<and> domainMatchesPattern domain d))"
proof -
  have "has_rule rm r \<longleftrightarrow> asked_last as r" for r using has_rule_steps [OF assms, of r] by simp
  then show ?thesis
    using isDomainBlocked_rules [OF rules_inv_steps [OF rules_inv_ops(1) assms], of domain]
    by (simp add: isIPBlocked_def isPortBlocked_def isAppBlocked_iff flip: has_rule.simps(1,2,4))
qed

text \<open>A pattern added twice and removed once is gone; a file keeps only its own rules.\<close>

theorem rules_asked_last_witness:
  "\<exists>rm. rule_steps [Add_port 25, Load_file (Some ''PORT 80''), Add_domain ''*.a.org'', Add_domain ''*.a.org'',
       Add_domain ''b.org'', Remove_domain ''*.a.org'', Block_ip_text ''10.0.0.1''] empty_rules = Inr rm \<and>
     isPortBlocked rm 80 \<and> \<not> isPortBlocked rm 25 \<and> isIPBlocked rm 0x0100000A \<and>
     isDomainBlocked rm ''b.org'' \<and> \<not> isDomainBlocked rm ''x.a.org''"
proof -
  let ?as = "[Add_port 25, Load_file (Some ''PORT 80''), Add_domain ''*.a.org'', Add_domain ''*.a.org'',
       Add_domain ''b.org'', Remove_domain ''*.a.org'', Block_ip_text ''10.0.0.1'']"
  let ?rm = "\<lparr>blocked_ips = [0x0100000A], blocked_apps = [], blocked_domains = [''b.org''], domain_patterns = [],
       blocked_ports = [80]\<rparr>"
  have r: "rule_steps ?as empty_rules = Inr ?rm" by code_simp
  have t: "line_rule ''PORT 80'' = Some (On_port 80)" "getlines [] ''PORT 80'' = [''PORT 80'']"
      "parseIP ''10.0.0.1'' = Inr 0x0100000A" by code_simp+
  note asked = asked_last_Cons t asked_last_def [of "[]"]
  have "asked_last ?as (On_port 80)" "\<not> asked_last ?as (On_port 25)" "asked_last ?as (On_ip 0x0100000A)"
      "asked_last ?as (On_domain ''b.org'')" by (simp_all add: asked del: getlines.simps)
  moreover have "asked_last ?as (On_domain d) \<longleftrightarrow> d = ''b.org''" for d by (auto simp: asked simp del: getlines.simps)
  moreover have "domainMatchesPattern ''b.org'' ''b.org''" "\<not> domainMatchesPattern ''x.a.org'' ''b.org''" by code_simp+
  ultimately show ?thesis
    using r rules_asked_last [OF r, where ip = "0x0100000A" and port = "80" and domain = "''b.org''"]
      rules_asked_last [OF r, where port = "25" and domain = "''x.a.org''"]
    by (intro exI [of _ ?rm]) simp
qed

section \<open>Saving and loading\<close>

lemma getlines_line: "newline \<notin> set l \<Longrightarrow> getlines cur (l @ newline # cs) = (cur @ l) # getlines [] cs"
  by (induction l arbitrary: cur) auto

lemma getlines_lines:
  "\<forall>l \<in> set ls. newline \<notin> set l \<Longrightarrow> getlines [] (concat (map (\<lambda>l. l @ [newline]) ls)) = ls"
  by (induction ls) (auto simp: getlines_line)

definition word_str :: "string \<Rightarrow> bool" where
  "word_str w \<longleftrightarrow> w \<noteq> [] \<and> (\<forall>c \<in> set w. \<not> isspace c)"

lemma takeWhile_word: "word_str w \<Longrightarrow> takeWhile (\<lambda>c. \<not> isspace c) (w @ CHR '' '' # v) = w"
  by (simp add: word_str_def takeWhile_append isspace_def)

lemma dropWhile_word: "word_str w \<Longrightarrow> dropWhile (\<lambda>c. \<not> isspace c) (w @ CHR '' '' # v) = CHR '' '' # v"
  by (simp add: word_str_def dropWhile_append isspace_def)

lemma dropWhile_isspace: "word_str w \<Longrightarrow> dropWhile isspace (w @ v) = w @ v"
  by (cases w) (auto simp: word_str_def)

lemma next_token_first: "word_str w \<Longrightarrow> next_token (w @ CHR '' '' # v) = Some (w, CHR '' '' # v)"
  by (simp add: next_token_def dropWhile_isspace takeWhile_word dropWhile_word Let_def)

lemma next_token_second: "word_str w \<Longrightarrow> next_token (CHR '' '' # w) = Some (w, [])"
proof -
  assume w: "word_str w"
  then have "takeWhile (\<lambda>c. \<not> isspace c) w = w" "dropWhile (\<lambda>c. \<not> isspace c) w = []"
    by (auto simp: word_str_def takeWhile_eq_all_conv)
  then show ?thesis
    using w dropWhile_isspace [OF w, of "[]"] by (simp add: next_token_def isspace_def word_str_def)
qed

lemma newline_isspace: "isspace newline"
  by (simp add: isspace_def newline_def)

lemma word_no_newline: "word_str w \<Longrightarrow> newline \<notin> set w"
  using newline_isspace by (auto simp: word_str_def)

lemma digit_not_space: "digit c \<Longrightarrow> \<not> isspace c"
  by (auto simp: digit_def isspace_def)

lemma word_dec: "word_str (dec n)"
  using dec_digits dec_nonempty digit_not_space by (auto simp: word_str_def)

lemma word_append: "word_str a \<Longrightarrow> word_str b \<Longrightarrow> word_str (a @ b)"
  by (auto simp: word_str_def)

lemma word_ipToString: "word_str (rm_ipToString ip)"
  unfolding rm_ipToString_def
  by (intro word_append word_dec) (simp_all add: word_str_def isspace_def)

lemma word_app: "a \<noteq> APP_COUNT \<Longrightarrow> word_str (appTypeToString a)"
  by (cases a) (simp_all add: word_str_def isspace_def)

lemma load_line_word:
  assumes "word_str t" "hd t \<noteq> CHR ''#''" "word_str v"
  shows "load_line (t @ CHR '' '' # v) rm =
    (if t = ''IP'' then blockIP_str v rm
     else if t = ''APP'' then
       (case find_app v of None \<Rightarrow> Inr rm | Some app \<Rightarrow> Inr (blockApp app rm))
     else if t = ''DOMAIN'' then Inr (blockDomain v rm)
     else if t = ''PORT'' then andThen (stoi v) (\<lambda>n. Inr (blockPort (word_of_int n) rm))
     else Inr rm)"
proof -
  have "(t @ CHR '' '' # v) ! 0 \<noteq> CHR ''#''"
    using assms by (cases t) (auto simp: word_str_def)
  then show ?thesis
    using assms by (simp add: load_line_def next_token_first next_token_second)
qed

lemma word_keys: "word_str ''IP''" "word_str ''APP''" "word_str ''DOMAIN''" "word_str ''PORT''"
  by (simp_all add: word_str_def isspace_def)

lemma stoi_dec:
  assumes "n \<le> 2147483647"
  shows "stoi (dec n) = Inr (int n)"
proof -
  have c: "digit (hd (dec n))" using dec_digits [of n] dec_nonempty [of n] by simp
  have sp: "dropWhile isspace (dec n) = dec n"
    using dropWhile_isspace [OF word_dec, of n "[]"] by simp
  have "hd (dec n) \<noteq> CHR ''-''" "hd (dec n) \<noteq> CHR ''+''" using c by (auto simp: digit_def)
  moreover have t: "takeWhile digit (dec n) = dec n"
    using dec_digits [of n] takeWhile_eq_all_conv by blast
  ultimately show ?thesis
    using assms by (simp add: stoi_def Let_def sp t dec_val_dec dec_nonempty)
qed

lemma load_saved:
  "load_line (''IP '' @ rm_ipToString ip) rm = Inr (blockIP ip rm)"
  "a \<noteq> APP_COUNT \<Longrightarrow> load_line (''APP '' @ appTypeToString a) rm = Inr (blockApp a rm)"
  "word_str d \<Longrightarrow> load_line (''DOMAIN '' @ d) rm = Inr (blockDomain d rm)"
  "load_line (''PORT '' @ dec (unat q)) rm = Inr (blockPort q rm)"
  using load_line_word [OF word_keys(1) _ word_ipToString, of ip rm]
    load_line_word [OF word_keys(2) _ word_app, of a rm] find_app_name [of a]
    load_line_word [OF word_keys(3) _, of d rm]
    load_line_word [OF word_keys(4) _ word_dec, of "unat q" rm] stoi_dec [of "unat q"] unat_u16 [of q]
  by (simp_all add: blockIP_str_def parseIP_ipToString)

lemma load_lines_append:
  "load_lines (xs @ ys) rm = andThen (load_lines xs rm) (load_lines ys)"
proof (induction xs arbitrary: rm)
  case (Cons l xs)
  then show ?case by (cases "load_line l rm") simp_all
qed simp

text \<open>A block of lines each of which adds one element is a fold of the adding operation.\<close>

lemma load_lines_map:
  "(\<And>x rm. x \<in> set xs \<Longrightarrow> load_line (f x) rm = Inr (g x rm)) \<Longrightarrow>
   load_lines (map f xs) rm = Inr (fold g xs rm)"
  by (induction xs arbitrary: rm) auto

definition rule_lines :: "nat list \<Rightarrow> nat list \<Rightarrow> nat list \<Rightarrow> nat list \<Rightarrow> rule_manager \<Rightarrow> string list" where
  "rule_lines ni na nd np rm =
     map (\<lambda>ip. ''IP '' @ rm_ipToString ip) (reorder ni (blocked_ips rm)) @
     map (\<lambda>app. ''APP '' @ appTypeToString app) (reorder na (blocked_apps rm)) @
     map (\<lambda>d. ''DOMAIN '' @ d) (getBlockedDomains nd rm) @
     map (\<lambda>p. ''PORT '' @ dec (unat p)) (reorder np (blocked_ports rm))"

text \<open>The rules a file of text can hold: no white space in a domain, no \<open>APP_COUNT\<close>.\<close>

definition savable :: "rule_manager \<Rightarrow> bool" where
  "savable rm \<longleftrightarrow> rules_inv rm \<and> APP_COUNT \<notin> set (blocked_apps rm) \<and>
     (\<forall>d \<in> set (blocked_domains rm) \<union> set (domain_patterns rm). word_str d)"

lemma saved_text:
  "saveRules True ni na nd np rm = Some (concat (map (\<lambda>l. l @ [newline]) (rule_lines ni na nd np rm)))"
  by (simp add: saveRules_def rule_lines_def getBlockedIPs_def getBlockedApps_def newline_def o_def)

lemma rule_lines_no_newline:
  assumes "savable rm" and "l \<in> set (rule_lines ni na nd np rm)"
  shows "newline \<notin> set l"
proof -
  have k: "newline \<notin> set (''IP '')" "newline \<notin> set (''APP '')" "newline \<notin> set (''DOMAIN '')"
    "newline \<notin> set (''PORT '')" by (simp_all add: newline_def)
  from assms(2) consider
      ip where "l = ''IP '' @ rm_ipToString ip"
    | a where "a \<in> set (blocked_apps rm)" "l = ''APP '' @ appTypeToString a"
    | d where "d \<in> set (blocked_domains rm) \<union> set (domain_patterns rm)" "l = ''DOMAIN '' @ d"
    | q where "l = ''PORT '' @ dec q"
    by (auto simp: rule_lines_def getBlockedDomains_def)
  then show ?thesis
  proof cases
    case 1
    then show ?thesis using k word_no_newline [OF word_ipToString] by auto
  next
    case 2
    then have "a \<noteq> APP_COUNT" using assms(1) by (auto simp: savable_def)
    then show ?thesis using 2 k word_no_newline [OF word_app] by auto
  next
    case 3
    then have "word_str d" using assms(1) by (auto simp: savable_def)
    then show ?thesis using 3 k word_no_newline by auto
  next
    case 4
    then show ?thesis using k word_no_newline [OF word_dec] by auto
  qed
qed

lemma saved_lines:
  assumes "savable rm"
  shows "getlines [] (the (saveRules True ni na nd np rm)) = rule_lines ni na nd np rm"
  using rule_lines_no_newline [OF assms] by (simp add: saved_text getlines_lines)

lemma fold_blockIP: "fold blockIP xs rm = rm\<lparr>blocked_ips := fold List.insert xs (blocked_ips rm)\<rparr>"
  by (induction xs arbitrary: rm) (simp_all add: blockIP_def)

lemma fold_blockApp: "fold blockApp xs rm = rm\<lparr>blocked_apps := fold List.insert xs (blocked_apps rm)\<rparr>"
  by (induction xs arbitrary: rm) (simp_all add: blockApp_def)

lemma fold_blockPort: "fold blockPort xs rm = rm\<lparr>blocked_ports := fold List.insert xs (blocked_ports rm)\<rparr>"
  by (induction xs arbitrary: rm) (simp_all add: blockPort_def)

lemma fold_blockDomain:
  "\<forall>d \<in> set ds. CHR ''*'' \<notin> set d \<Longrightarrow>
   fold blockDomain ds rm = rm\<lparr>blocked_domains := fold List.insert ds (blocked_domains rm)\<rparr>"
  "\<forall>d \<in> set ds. CHR ''*'' \<in> set d \<Longrightarrow>
   fold blockDomain ds rm = rm\<lparr>domain_patterns := domain_patterns rm @ ds\<rparr>"
  by (induction ds arbitrary: rm) (auto simp: blockDomain_def)

lemma length_fold_insert:
  "distinct xs \<Longrightarrow> set xs \<inter> set ys = {} \<Longrightarrow> length (fold List.insert xs ys) = length xs + length ys"
  by (induction xs arbitrary: ys) auto

lemma set_fold_insert: "set (fold List.insert xs ys) = set xs \<union> set ys"
  by (induction xs arbitrary: ys) auto

lemma load_blocks:
  assumes "APP_COUNT \<notin> set as" and "\<forall>d \<in> set ds. word_str d"
  shows "load_lines (map (\<lambda>ip. ''IP '' @ rm_ipToString ip) is) rm = Inr (fold blockIP is rm)"
    and "load_lines (map (\<lambda>app. ''APP '' @ appTypeToString app) as) rm = Inr (fold blockApp as rm)"
    and "load_lines (map (\<lambda>d. ''DOMAIN '' @ d) ds) rm = Inr (fold blockDomain ds rm)"
    and "load_lines (map (\<lambda>p. ''PORT '' @ dec (unat p)) ps) rm = Inr (fold blockPort ps rm)"
proof -
  show "load_lines (map (\<lambda>ip. ''IP '' @ rm_ipToString ip) is) rm = Inr (fold blockIP is rm)"
    by (rule load_lines_map) (rule load_saved)
  show "load_lines (map (\<lambda>app. ''APP '' @ appTypeToString app) as) rm = Inr (fold blockApp as rm)"
    using assms(1) by (intro load_lines_map load_saved) auto
  show "load_lines (map (\<lambda>d. ''DOMAIN '' @ d) ds) rm = Inr (fold blockDomain ds rm)"
    using assms(2) by (intro load_lines_map load_saved) auto
  show "load_lines (map (\<lambda>p. ''PORT '' @ dec (unat p)) ps) rm = Inr (fold blockPort ps rm)"
    by (rule load_lines_map) (rule load_saved)
qed

lemma load_rule_lines:
  assumes "savable rm"
  shows "load_lines (rule_lines ni na nd np rm) (clearAll rm0) =
    Inr (rm0\<lparr>blocked_ips := fold List.insert (reorder ni (blocked_ips rm)) [],
             blocked_apps := fold List.insert (reorder na (blocked_apps rm)) [],
             blocked_domains := fold List.insert (reorder nd (blocked_domains rm)) [],
             domain_patterns := domain_patterns rm,
             blocked_ports := fold List.insert (reorder np (blocked_ports rm)) []\<rparr>)"
proof -
  let ?d = "reorder nd (blocked_domains rm)"
  have a: "APP_COUNT \<notin> set (reorder na (blocked_apps rm))"
    using assms by (simp add: savable_def)
  have w: "\<forall>d \<in> set ?d. word_str d" "\<forall>d \<in> set (domain_patterns rm). word_str d"
    using assms by (auto simp: savable_def)
  have "\<forall>d \<in> set ?d. CHR ''*'' \<notin> set d" "\<forall>d \<in> set (domain_patterns rm). CHR ''*'' \<in> set d"
    using assms by (auto simp: savable_def rules_inv_def)
  then show ?thesis
    by (simp add: rule_lines_def getBlockedDomains_def load_lines_append load_blocks [OF a w(1), simplified]
        load_blocks [OF a w(2), simplified] fold_blockIP fold_blockApp fold_blockPort fold_blockDomain clearAll_def)
qed

text \<open>C35: a rule file that was saved restores the rules. Loading it, in whatever state, ends
  well, and the state after it makes the same decision on every packet; this takes domains
  without white space, whatever order the sets were written in.\<close>

theorem save_load_round_trip:
  assumes "savable rm"
  shows "\<exists>rm'. loadRules (saveRules True ni na nd np rm) rm0 = Inr (True, rm') \<and>
    set (blocked_ips rm') = set (blocked_ips rm) \<and> set (blocked_apps rm') = set (blocked_apps rm) \<and>
    set (blocked_domains rm') = set (blocked_domains rm) \<and>
    domain_patterns rm' = domain_patterns rm \<and>
    set (blocked_ports rm') = set (blocked_ports rm) \<and>
    rule_getStats rm' = rule_getStats rm \<and>
    (\<forall>ip port app domain. shouldBlock rm' ip port app domain = shouldBlock rm ip port app domain)"
proof -
  let ?f = "\<lambda>xs. fold List.insert xs []"
  let ?rm = "rm0\<lparr>blocked_ips := ?f (reorder ni (blocked_ips rm)),
    blocked_apps := ?f (reorder na (blocked_apps rm)),
    blocked_domains := ?f (reorder nd (blocked_domains rm)), domain_patterns := domain_patterns rm,
    blocked_ports := ?f (reorder np (blocked_ports rm))\<rparr>"
  have "loadRules (saveRules True ni na nd np rm) rm0 = Inr (True, ?rm)"
    using saved_lines [OF assms, of ni na nd np] load_rule_lines [OF assms, of ni na nd np rm0]
    by (simp add: loadRules_def saved_text)
  moreover have "rule_getStats ?rm = rule_getStats rm"
    using assms by (simp add: rule_getStats_def length_fold_insert savable_def rules_inv_def)
  moreover have "shouldBlock ?rm ip port app domain = shouldBlock rm ip port app domain"
    for ip port app domain
    by (simp add: shouldBlock_def isIPBlocked_def isPortBlocked_def isAppBlocked_def
        isDomainBlocked_def set_fold_insert)
  ultimately show ?thesis by (intro exI [of _ ?rm]) (simp add: set_fold_insert)
qed

definition sample_rules :: rule_manager where
  "sample_rules = blockPort 443 (blockApp YOUTUBE (blockDomain ''*.tiktok.com''
     (blockDomain ''ads.net'' (blockIP 0x0100000A empty_rules))))"

theorem save_load_round_trip_witness:
  "\<exists>rm'. loadRules (saveRules True [] [] [] [] sample_rules) empty_rules = Inr (True, rm') \<and>
    shouldBlock rm' 0x0100000A 80 UNKNOWN [] \<noteq> None \<and>
    shouldBlock rm' 0 80 UNKNOWN ''www.tiktok.com'' \<noteq> None"
proof -
  have "savable sample_rules"
    by (simp add: savable_def sample_rules_def)
       (simp add: blockPort_def blockApp_def blockDomain_def blockIP_def empty_rules_def word_str_def
        isspace_def)
  from save_load_round_trip [OF this, of "[]" "[]" "[]" "[]" empty_rules] show ?thesis
    by (auto simp: shouldBlock_def isIPBlocked_def isPortBlocked_def isAppBlocked_def
        isDomainBlocked_def sample_rules_def blockPort_def blockApp_def blockDomain_def blockIP_def
        empty_rules_def domainMatchesPattern_def)
qed

end
