(* ===== verification/Thread_Safe_Queue.thy ===== *)
theory Thread_Safe_Queue
  imports Aegis_Prelude
begin

text \<open>
  \<open>include/thread_safe_queue.h\<close>: the bounded queue between two stages of the pipeline. The
  mutex makes the part of a method after its wait one atomic step, and that step is the
  function here. A thread that has to wait is \<open>None\<close>: the call does not return in this
  state of the queue, whatever wakes it evaluates the same condition again. The interface
  the pipeline relies on is the locale \<open>channel\<close>; the queue is shown to be one.
\<close>

section \<open>The queue\<close>

record 'a tsq =
  queue :: "'a list"
  max_size :: nat
  is_shutdown :: bool

definition new_queue :: "nat \<Rightarrow> 'a tsq" where
  "new_queue n = \<lparr>queue = [], max_size = n, is_shutdown = False\<rparr>"

definition push :: "'a \<Rightarrow> 'a tsq \<Rightarrow> 'a tsq option" where
  "push item q =
     (if \<not> (length (queue q) < max_size q \<or> is_shutdown q) then None
      else if is_shutdown q then Some q
      else Some (q\<lparr>queue := queue q @ [item]\<rparr>))"

definition tryPush :: "'a \<Rightarrow> 'a tsq \<Rightarrow> bool \<times> 'a tsq" where
  "tryPush item q =
     (if length (queue q) \<ge> max_size q \<or> is_shutdown q then (False, q)
      else (True, q\<lparr>queue := queue q @ [item]\<rparr>))"

text \<open>What \<open>pop\<close> and \<open>popWithTimeout\<close> do once they stop waiting.\<close>

definition take_front :: "'a tsq \<Rightarrow> 'a option \<times> 'a tsq" where
  "take_front q =
     (case queue q of [] \<Rightarrow> (None, q) | item # rest \<Rightarrow> (Some item, q\<lparr>queue := rest\<rparr>))"

definition pop :: "'a tsq \<Rightarrow> ('a option \<times> 'a tsq) option" where
  "pop q = (if \<not> (queue q \<noteq> [] \<or> is_shutdown q) then None else Some (take_front q))"

text \<open>
  The step in which \<open>popWithTimeout\<close> returns: \<open>wait_for\<close> answers with the condition as it
  is then, which is false only when the time is over.
\<close>

definition popWithTimeout :: "'a tsq \<Rightarrow> 'a option \<times> 'a tsq" where
  "popWithTimeout q =
     (if \<not> (queue q \<noteq> [] \<or> is_shutdown q) then (None, q) else take_front q)"

definition queue_empty :: "'a tsq \<Rightarrow> bool" where
  "queue_empty q = (queue q = [])"

definition queue_size :: "'a tsq \<Rightarrow> nat" where
  "queue_size q = length (queue q)"

definition shutdown :: "'a tsq \<Rightarrow> 'a tsq" where
  "shutdown q = q\<lparr>is_shutdown := True\<rparr>"

definition isShutdown :: "'a tsq \<Rightarrow> bool" where
  "isShutdown q = is_shutdown q"

section \<open>The interface\<close>

text \<open>
  A channel takes items in at one end and gives them out at the other in the same order.
  \<open>push\<close> waits while there is no room; on a closed channel it returns and the item is
  lost. \<open>pop\<close> never fails on a channel with contents, closed or not.
\<close>

locale channel =
  fixes put :: "'a \<Rightarrow> 'q \<Rightarrow> 'q option"
    and get :: "'q \<Rightarrow> 'a option \<times> 'q"
    and contents :: "'q \<Rightarrow> 'a list"
    and closed :: "'q \<Rightarrow> bool"
    and room :: "'q \<Rightarrow> bool"
  assumes put_accepts: "\<not> closed q \<Longrightarrow> room q \<Longrightarrow>
      \<exists>q'. put x q = Some q' \<and> contents q' = contents q @ [x] \<and> \<not> closed q'"
    and put_waits: "\<not> closed q \<Longrightarrow> \<not> room q \<Longrightarrow> put x q = None"
    and put_loses: "closed q \<Longrightarrow> put x q = Some q"
    and get_front: "contents q = x # xs \<Longrightarrow>
      \<exists>q'. get q = (Some x, q') \<and> contents q' = xs \<and> closed q' = closed q"
    and get_empty: "contents q = [] \<Longrightarrow> get q = (None, q)"
begin

lemma put_result:
  "put x q = Some q' \<Longrightarrow>
   closed q' = closed q \<and> contents q' = contents q @ (if closed q then [] else [x])"
  using put_accepts [of q x] put_waits [of q x] put_loses [of q x]
  by (cases "closed q"; cases "room q") auto

lemma get_result:
  "get q = (r, q') \<Longrightarrow>
   closed q' = closed q \<and> contents q = (case r of None \<Rightarrow> [] | Some x \<Rightarrow> [x]) @ contents q' \<and>
   (r = None \<longrightarrow> contents q = [])"
  using get_front [of q] get_empty [of q] by (cases "contents q") auto

fun put_all :: "'a list \<Rightarrow> 'q \<Rightarrow> 'q option" where
  "put_all [] q = Some q"
| "put_all (x # xs) q = (case put x q of None \<Rightarrow> None | Some q' \<Rightarrow> put_all xs q')"

fun get_many :: "nat \<Rightarrow> 'q \<Rightarrow> 'a list \<times> 'q" where
  "get_many 0 q = ([], q)"
| "get_many (Suc n) q =
     (case get q of
        (None, q') \<Rightarrow> ([], q')
      | (Some x, q') \<Rightarrow> (let (xs, q'') = get_many n q' in (x # xs, q'')))"

lemma put_all_contents:
  "put_all xs q = Some q' \<Longrightarrow> \<not> closed q \<Longrightarrow> \<not> closed q' \<and> contents q' = contents q @ xs"
  by (induction xs arbitrary: q) (auto split: option.splits dest: put_result)

lemma get_many_contents:
  "get_many n q = (xs, q') \<Longrightarrow>
   closed q' = closed q \<and> xs = take n (contents q) \<and> contents q' = drop n (contents q)"
proof (induction n arbitrary: q xs q')
  case (Suc n)
  show ?case
  proof (cases "contents q")
    case Nil
    then show ?thesis using Suc.prems get_empty [OF Nil] by auto
  next
    case (Cons y ys)
    then obtain q1 where q1: "get q = (Some y, q1)" "contents q1 = ys" "closed q1 = closed q"
      using get_front by blast
    obtain zs q2 where r: "get_many n q1 = (zs, q2)" by (cases "get_many n q1")
    then show ?thesis using Suc.IH [OF r] Suc.prems q1 Cons by simp
  qed
qed auto

end

text \<open>A channel that never holds more than its bound.\<close>

locale bounded_channel = channel +
  fixes bound :: "'b \<Rightarrow> nat"
  assumes room_bound: "room q \<longleftrightarrow> length (contents q) < bound q"
    and put_bound: "put x q = Some q' \<Longrightarrow> bound q' = bound q"
begin

lemma put_within:
  assumes "put x q = Some q'" and "length (contents q) \<le> bound q"
  shows "length (contents q') \<le> bound q'"
proof (cases "closed q")
  case True
  then show ?thesis using put_loses [OF True, of x] assms by simp
next
  case False
  then have "room q" using put_waits [of q x] assms(1) by auto
  then show ?thesis
    using False put_result [OF assms(1)] room_bound [of q] put_bound [OF assms(1)] by simp
qed

end

section \<open>The queue is a bounded channel\<close>

lemma queue_step_simps [simp]:
  "queue (shutdown q) = queue q" "is_shutdown (shutdown q)" "max_size (shutdown q) = max_size q"
  by (simp_all add: shutdown_def)

interpretation tsq: bounded_channel push popWithTimeout queue is_shutdown
  "\<lambda>q. length (queue q) < max_size q" max_size
  by unfold_locales (auto simp: push_def popWithTimeout_def take_front_def split: if_splits)

lemma popWithTimeout_eq: "popWithTimeout q = take_front q"
  by (cases q) (simp add: popWithTimeout_def take_front_def)

lemma pop_when_ready: "pop q = Some r \<Longrightarrow> popWithTimeout q = r"
  by (simp add: pop_def popWithTimeout_eq split: if_splits)

section \<open>Histories\<close>

text \<open>
  Calls by any number of threads, in the order in which they take the mutex. A step yields
  the items it put in and the items it gave out; a call that waits cannot be next.
\<close>

datatype 'a qop = Push 'a | TryPush 'a | Pop | PopWithTimeout | Shutdown

fun qstep :: "'a qop \<Rightarrow> 'a tsq \<Rightarrow> ('a list \<times> 'a list \<times> 'a tsq) option" where
  "qstep (Push x) q =
     (case push x q of None \<Rightarrow> None | Some q' \<Rightarrow> Some (if is_shutdown q then [] else [x], [], q'))"
| "qstep (TryPush x) q =
     (let (ok, q') = tryPush x q in Some (if ok then [x] else [], [], q'))"
| "qstep Pop q =
     (case pop q of None \<Rightarrow> None
      | Some (r, q') \<Rightarrow> Some ([], case r of None \<Rightarrow> [] | Some x \<Rightarrow> [x], q'))"
| "qstep PopWithTimeout q =
     (let (r, q') = popWithTimeout q in Some ([], case r of None \<Rightarrow> [] | Some x \<Rightarrow> [x], q'))"
| "qstep Shutdown q = Some ([], [], shutdown q)"

fun qrun :: "'a qop list \<Rightarrow> 'a tsq \<Rightarrow> ('a list \<times> 'a list \<times> 'a tsq) option" where
  "qrun [] q = Some ([], [], q)"
| "qrun (a # as) q =
     (case qstep a q of None \<Rightarrow> None
      | Some (i, d, q') \<Rightarrow>
          (case qrun as q' of None \<Rightarrow> None
           | Some (is, ds, q'') \<Rightarrow> Some (i @ is, d @ ds, q'')))"

lemma qstep_fifo:
  assumes "qstep a q = Some (i, d, q')"
  shows "queue q @ i = d @ queue q' \<and> max_size q' = max_size q \<and>
    (length (queue q) \<le> max_size q \<longrightarrow> length (queue q') \<le> max_size q)"
proof (cases a)
  case (Push x)
  then obtain q1 where q1: "push x q = Some q1" "q' = q1" "i = (if is_shutdown q then [] else [x])" "d = []"
    using assms by (auto split: option.splits)
  then show ?thesis
    using tsq.put_result [OF q1(1)] tsq.put_within [OF q1(1)] tsq.put_bound [OF q1(1)] by simp
next
  case (TryPush x)
  then show ?thesis using assms by (auto simp: tryPush_def split: if_splits)
next
  case Pop
  then show ?thesis
    using assms by (auto simp: pop_def take_front_def split: if_splits list.splits)
next
  case PopWithTimeout
  then show ?thesis
    using assms by (auto simp: popWithTimeout_eq take_front_def split: list.splits)
next
  case Shutdown
  then show ?thesis using assms by auto
qed

lemma qrun_fifo:
  "qrun as q = Some (is, ds, q') \<Longrightarrow>
   queue q @ is = ds @ queue q' \<and> max_size q' = max_size q \<and>
   (length (queue q) \<le> max_size q \<longrightarrow> length (queue q') \<le> max_size q)"
proof (induction as arbitrary: q "is" ds)
  case (Cons a as)
  then obtain i d q1 is1 ds1 where
      s: "qstep a q = Some (i, d, q1)" and r: "qrun as q1 = Some (is1, ds1, q')"
    and e: "is = i @ is1" "ds = d @ ds1"
    by (auto split: option.splits)
  have "queue q @ i @ is1 = d @ queue q1 @ is1" using qstep_fifo [OF s] by simp
  also have "\<dots> = d @ ds1 @ queue q'" using Cons.IH [OF r] by simp
  finally show ?case using e qstep_fifo [OF s] Cons.IH [OF r] by simp
qed simp

text \<open>The queue is a FIFO whatever calls are made and however they interleave: what was in it
  and what was accepted, in that order, is what was delivered followed by what is in it
  still, and the bound on its length is never passed.\<close>

theorem queue_fifo:
  assumes "qrun as q = Some (is, ds, q')" and "length (queue q) \<le> max_size q"
  shows "queue q @ is = ds @ queue q' \<and> length (queue q') \<le> max_size q"
  using qrun_fifo [OF assms(1)] assms(2) by simp

theorem queue_fifo_witness:
  "\<exists>is ds q'. qrun [Push 1, TryPush (2 :: nat), TryPush 3, Pop, PopWithTimeout, PopWithTimeout] (new_queue 2) =
      Some (is, ds, q') \<and> is = ds @ queue q'"
proof -
  let ?q = "new_queue 2 :: nat tsq"
  obtain r where r: "qrun [Push 1, TryPush (2 :: nat), TryPush 3, Pop, PopWithTimeout, PopWithTimeout] ?q = Some r"
    by (simp add: new_queue_def push_def tryPush_def pop_def popWithTimeout_def take_front_def)
  obtain "is" ds q' where e: "r = (is, ds, q')" by (cases r)
  from queue_fifo [OF r [unfolded e]] have "is = ds @ queue q'" by (simp add: new_queue_def)
  then show ?thesis using r e by blast
qed

lemma qrun_append:
  "qrun (as @ bs) q =
     (case qrun as q of None \<Rightarrow> None
      | Some (i, d, q') \<Rightarrow> (case qrun bs q' of None \<Rightarrow> None
          | Some (is, ds, q'') \<Rightarrow> Some (i @ is, d @ ds, q'')))"
  by (induction as arbitrary: q) (auto split: option.splits)

lemma qrun_closed_push: "is_shutdown q \<Longrightarrow> qrun (map Push xs) q = Some ([], [], q)"
  by (induction xs) (simp_all add: tsq.put_loses)

lemma qrun_pops:
  "qrun (replicate n PopWithTimeout) q = Some ([], take n (queue q), q\<lparr>queue := drop n (queue q)\<rparr>)"
  by (induction n arbitrary: q) (auto simp: popWithTimeout_eq take_front_def split: list.splits)

text \<open>Shutting down loses nothing that is in the queue and everything that comes after: no push
  waits any more, every item pushed is dropped without notice, and the items already there
  are still delivered in order.\<close>

theorem shutdown_drains:
  "qrun (Shutdown # map Push xs @ replicate n PopWithTimeout) q =
     Some ([], take n (queue q), shutdown (q\<lparr>queue := drop n (queue q)\<rparr>))"
  by (simp add: qrun_append qrun_closed_push qrun_pops shutdown_def)

text \<open>A wait ends as soon as the other side moves. A push waits exactly on a full queue and a
  pop exactly on an empty one, neither after a shutdown; one pop (given a positive bound)
  or one push that goes through, or a shutdown, lets the waiting call return.\<close>

theorem waiting_ends:
  "(push x q = None \<longleftrightarrow> \<not> is_shutdown q \<and> max_size q \<le> length (queue q)) \<and>
   (pop q = None \<longleftrightarrow> \<not> is_shutdown q \<and> queue q = []) \<and>
   (length (queue q) = max_size q \<and> 0 < max_size q \<longrightarrow> push x (snd (popWithTimeout q)) \<noteq> None) \<and>
   (\<forall>q'. push x q = Some q' \<longrightarrow> pop q' \<noteq> None) \<and>
   push x (shutdown q) \<noteq> None \<and> pop (shutdown q) \<noteq> None"
  by (auto simp: push_def pop_def popWithTimeout_eq take_front_def split: list.splits if_splits)

theorem waiting_ends_witness:
  "push (3 :: nat) \<lparr>queue = [1, 2], max_size = 2, is_shutdown = False\<rparr> = None \<and>
   push 3 (snd (popWithTimeout \<lparr>queue = [1 :: nat, 2], max_size = 2, is_shutdown = False\<rparr>)) \<noteq> None"
  using waiting_ends [of "3 :: nat" "\<lparr>queue = [1, 2], max_size = 2, is_shutdown = False\<rparr>"] by simp

end
