(* ===== verification/Connection_Tracker.thy ===== *)
theory Connection_Tracker
  imports Aegis_Types
begin

text \<open>
  \<open>include/connection_tracker.h\<close> and \<open>src/connection_tracker.cpp\<close>: the flow table of one
  fast path thread, and the table over all threads. The \<open>unordered_map\<close> from tuples to
  connections is an association list. A \<open>Connection*\<close> is the tuple that keys the node it
  points to, \<open>None\<close> for \<open>nullptr\<close>: nodes do not move while they exist. The order an
  iteration visits the map in is the argument \<open>ns\<close> (\<open>reorder\<close>), the clock's reading in
  nanoseconds the argument \<open>now\<close>.
\<close>

section \<open>The tracker\<close>

type_synonym conn_map = "(five_tuple \<times> connection) list"

record tracker =
  fp_id :: int
  max_connections :: nat
  connections :: conn_map
  total_seen :: u64
  classified_count :: u64
  blocked_count :: u64

definition new_tracker :: "int \<Rightarrow> nat \<Rightarrow> tracker" where
  "new_tracker i n =
     \<lparr>fp_id = i, max_connections = n, connections = [], total_seen = 0, classified_count = 0,
      blocked_count = 0\<rparr>"

definition new_connection :: "five_tuple \<Rightarrow> time_point \<Rightarrow> connection" where
  "new_connection t now =
     \<lparr>conn_tuple = t, conn_state = NEW, app_type = UNKNOWN, conn_sni = [], packets_in = 0,
      packets_out = 0, bytes_in = 0, bytes_out = 0, first_seen = now, last_seen = now,
      conn_action = FORWARD, syn_seen = False, syn_ack_seen = False, fin_seen = False\<rparr>"

definition erase :: "five_tuple \<Rightarrow> conn_map \<Rightarrow> conn_map" where
  "erase k m = filter (\<lambda>(k', c). k' \<noteq> k) m"

definition modify :: "five_tuple \<Rightarrow> (connection \<Rightarrow> connection) \<Rightarrow> conn_map \<Rightarrow> conn_map" where
  "modify k f m = map (\<lambda>(k', c). (k', if k' = k then f c else c)) m"

fun oldest :: "five_tuple \<times> connection \<Rightarrow> conn_map \<Rightarrow> five_tuple \<times> connection" where
  "oldest old [] = old"
| "oldest old (it # its) =
     oldest (if last_seen (snd it) < last_seen (snd old) then it else old) its"

definition evictOldest :: "nat list \<Rightarrow> tracker \<Rightarrow> tracker" where
  "evictOldest ns t =
     (case reorder ns (connections t) of
        [] \<Rightarrow> t
      | it # its \<Rightarrow> t\<lparr>connections := erase (fst (oldest it (it # its))) (connections t)\<rparr>)"

text \<open>The new state and the pointer that is returned.\<close>

definition getOrCreateConnection ::
  "nat list \<Rightarrow> time_point \<Rightarrow> five_tuple \<Rightarrow> tracker \<Rightarrow> five_tuple option \<times> tracker" where
  "getOrCreateConnection ns now tuple t =
     (case map_of (connections t) tuple of
        Some c \<Rightarrow> (Some tuple, t)
      | None \<Rightarrow>
          let t = (if length (connections t) \<ge> max_connections t then evictOldest ns t else t)
          in (Some tuple,
              t\<lparr>connections := (tuple, new_connection tuple now) # connections t,
                total_seen := total_seen t + 1\<rparr>))"

definition getConnection :: "five_tuple \<Rightarrow> tracker \<Rightarrow> five_tuple option" where
  "getConnection tuple t =
     (case map_of (connections t) tuple of
        Some c \<Rightarrow> Some tuple
      | None \<Rightarrow>
          (case map_of (connections t) (reverse tuple) of
             Some c \<Rightarrow> Some (reverse tuple)
           | None \<Rightarrow> None))"

definition updateConnection ::
  "time_point \<Rightarrow> five_tuple option \<Rightarrow> nat \<Rightarrow> bool \<Rightarrow> tracker \<Rightarrow> tracker" where
  "updateConnection now conn packet_size is_outbound t =
     (case conn of None \<Rightarrow> t
      | Some k \<Rightarrow> t\<lparr>connections := modify k (\<lambda>c.
          let c = c\<lparr>last_seen := now\<rparr>
          in if is_outbound
             then c\<lparr>packets_out := packets_out c + 1,
                    bytes_out := bytes_out c + word_of_nat packet_size\<rparr>
             else c\<lparr>packets_in := packets_in c + 1,
                    bytes_in := bytes_in c + word_of_nat packet_size\<rparr>) (connections t)\<rparr>)"

definition classifyConnection ::
  "five_tuple option \<Rightarrow> AppType \<Rightarrow> string \<Rightarrow> tracker \<Rightarrow> tracker" where
  "classifyConnection conn app sni t =
     (case conn of None \<Rightarrow> t
      | Some k \<Rightarrow>
          (case map_of (connections t) k of None \<Rightarrow> t
           | Some c \<Rightarrow>
               if conn_state c \<noteq> CLASSIFIED
               then t\<lparr>connections := modify k (\<lambda>c. c\<lparr>app_type := app, conn_sni := sni,
                        conn_state := CLASSIFIED\<rparr>) (connections t),
                      classified_count := classified_count t + 1\<rparr>
               else t))"

definition blockConnection :: "five_tuple option \<Rightarrow> tracker \<Rightarrow> tracker" where
  "blockConnection conn t =
     (case conn of None \<Rightarrow> t
      | Some k \<Rightarrow>
          t\<lparr>connections := modify k (\<lambda>c. c\<lparr>conn_state := BLOCKED, conn_action := DROP\<rparr>)
              (connections t),
            blocked_count := blocked_count t + 1\<rparr>)"

definition closeConnection :: "five_tuple \<Rightarrow> tracker \<Rightarrow> tracker" where
  "closeConnection tuple t =
     (case map_of (connections t) tuple of
        None \<Rightarrow> t
      | Some c \<Rightarrow> t\<lparr>connections := modify tuple (\<lambda>c. c\<lparr>conn_state := CLOSED\<rparr>) (connections t)\<rparr>)"

text \<open>\<open>duration_cast<seconds>\<close> rounds toward zero.\<close>

definition seconds :: "int \<Rightarrow> int" where
  "seconds d = (if d \<ge> 0 then d div 1000000000 else - ((- d) div 1000000000))"

definition stale :: "int \<Rightarrow> time_point \<Rightarrow> connection \<Rightarrow> bool" where
  "stale timeout now c \<longleftrightarrow> seconds (now - last_seen c) > timeout \<or> conn_state c = CLOSED"

fun cleanup_loop :: "int \<Rightarrow> time_point \<Rightarrow> conn_map \<Rightarrow> nat \<Rightarrow> nat \<times> conn_map" where
  "cleanup_loop timeout now [] removed = (removed, [])"
| "cleanup_loop timeout now ((k, c) # its) removed =
     (if stale timeout now c then cleanup_loop timeout now its (removed + 1)
      else let (n, m) = cleanup_loop timeout now its removed in (n, (k, c) # m))"

definition cleanupStale :: "int \<Rightarrow> time_point \<Rightarrow> tracker \<Rightarrow> nat \<times> tracker" where
  "cleanupStale timeout now t =
     (let (removed, m) = cleanup_loop timeout now (connections t) 0
      in (removed, t\<lparr>connections := m\<rparr>))"

definition getAllConnections :: "nat list \<Rightarrow> tracker \<Rightarrow> connection list" where
  "getAllConnections ns t = map snd (reorder ns (connections t))"

definition getActiveCount :: "tracker \<Rightarrow> nat" where
  "getActiveCount t = length (connections t)"

record tracker_stats =
  stat_active :: nat
  stat_total_seen :: u64
  stat_classified :: u64
  stat_blocked :: u64

definition tracker_getStats :: "tracker \<Rightarrow> tracker_stats" where
  "tracker_getStats t =
     \<lparr>stat_active = length (connections t), stat_total_seen = total_seen t,
      stat_classified = classified_count t, stat_blocked = blocked_count t\<rparr>"

definition tracker_clear :: "tracker \<Rightarrow> tracker" where
  "tracker_clear t = t\<lparr>connections := []\<rparr>"

text \<open>The callback is a function of an accumulated state.\<close>

definition forEach :: "nat list \<Rightarrow> (connection \<Rightarrow> 's \<Rightarrow> 's) \<Rightarrow> tracker \<Rightarrow> 's \<Rightarrow> 's" where
  "forEach ns callback t s = fold callback (map snd (reorder ns (connections t))) s"

section \<open>The table over all trackers\<close>

text \<open>\<open>trackers_[fp_id] = tracker\<close> with a negative \<open>fp_id\<close> writes before the vector.\<close>

definition new_table :: "nat \<Rightarrow> 'p option list" where
  "new_table num_fps = replicate num_fps None"

definition registerTracker :: "int \<Rightarrow> 'p option \<Rightarrow> 'p option list \<Rightarrow> 'p option list res" where
  "registerTracker i tracker trackers =
     (if i < int (length trackers)
      then if i < 0 then Inl Out_Of_Bounds else Inr (trackers[nat i := tracker])
      else Inr trackers)"

text \<open>\<open>m[k]++\<close> on a map of counters\<close>

fun bump :: "'k \<Rightarrow> ('k \<times> nat) list \<Rightarrow> ('k \<times> nat) list" where
  "bump k [] = [(k, 1)]"
| "bump k ((k', n) # m) = (if k' = k then (k', n + 1) # m else (k', n) # bump k m)"

record global_stats =
  total_active_connections :: nat
  total_connections_seen :: u64
  app_distribution :: "(AppType \<times> nat) list"
  domain_counts :: "(string \<times> nat) list"
  top_domains :: "(string \<times> nat) list"

definition count_connection :: "connection \<Rightarrow> global_stats \<Rightarrow> global_stats" where
  "count_connection c s =
     (let s = s\<lparr>app_distribution := bump (app_type c) (app_distribution s)\<rparr>
      in if conn_sni c \<noteq> [] then s\<lparr>domain_counts := bump (conn_sni c) (domain_counts s)\<rparr> else s)"

definition count_tracker :: "nat list \<Rightarrow> tracker option \<Rightarrow> global_stats \<Rightarrow> global_stats" where
  "count_tracker ns tracker s =
     (case tracker of None \<Rightarrow> s
      | Some t \<Rightarrow>
          let st = tracker_getStats t;
              s = s\<lparr>total_active_connections := total_active_connections s + stat_active st,
                    total_connections_seen := total_connections_seen s + stat_total_seen st\<rparr>
          in forEach ns count_connection t s)"

text \<open>
  The order each tracker is visited in is \<open>ns\<close>. \<open>std::sort\<close> is not stable, and the vector it
  sorts is in the order of an unordered map: the argument \<open>nd\<close> of the stable sort codes every
  outcome. The local \<open>domain_counts\<close> of the code is kept with the result.
\<close>

definition getGlobalStats :: "nat list \<Rightarrow> nat list \<Rightarrow> tracker option list \<Rightarrow> global_stats" where
  "getGlobalStats ns nd trackers =
     (let s = fold (count_tracker ns) trackers
            \<lparr>total_active_connections = 0, total_connections_seen = 0, app_distribution = [],
             domain_counts = [], top_domains = []\<rparr>;
          domain_vec = sort_key (\<lambda>(d, n). - int n) (reorder nd (domain_counts s));
          count = min (length domain_vec) 20
      in s\<lparr>top_domains := take count domain_vec\<rparr>)"

section \<open>The map operations\<close>

abbreviation conn_at :: "tracker \<Rightarrow> five_tuple \<Rightarrow> connection option" where
  "conn_at t k \<equiv> map_of (connections t) k"

lemma map_of_modify [simp]:
  "map_of (modify k f m) k' = (if k' = k then map_option f (map_of m k) else map_of m k')"
  by (induction m) (auto simp: modify_def)

lemma fst_modify [simp]: "map fst (modify k f m) = map fst m"
  by (induction m) (auto simp: modify_def)

lemma length_modify [simp]: "length (modify k f m) = length m"
  by (simp add: modify_def)

lemma map_of_erase [simp]: "map_of (erase k m) k' = (if k' = k then None else map_of m k')"
  by (induction m) (auto simp: erase_def)

lemma distinct_erase [intro]: "distinct (map fst m) \<Longrightarrow> distinct (map fst (erase k m))"
  by (simp add: erase_def distinct_map_filter)

lemma length_erase:
  "distinct (map fst m) \<Longrightarrow> k \<in> fst ` set m \<Longrightarrow> Suc (length (erase k m)) = length m"
proof (induction m)
  case (Cons e m)
  show ?case
  proof (cases "fst e = k")
    case True
    then have "k \<notin> fst ` set m" using Cons.prems by auto
    then have "erase k m = m" by (force simp: erase_def filter_id_conv)
    then show ?thesis using True by (auto simp: erase_def split: prod.splits)
  next
    case False
    then show ?thesis using Cons by (auto simp: erase_def split: prod.splits)
  qed
qed simp

lemma oldest_in: "oldest old its \<in> set (old # its)"
  by (induction old its rule: oldest.induct) auto

lemma oldest_least:
  "x \<in> set (old # its) \<Longrightarrow> last_seen (snd (oldest old its)) \<le> last_seen (snd x)"
proof (induction old its arbitrary: x rule: oldest.induct)
  case (2 old it its)
  let ?o = "if last_seen (snd it) < last_seen (snd old) then it else old"
  have "last_seen (snd ?o) \<le> last_seen (snd old)" "last_seen (snd ?o) \<le> last_seen (snd it)" by auto
  then show ?case
    using "2.IH" [of ?o] "2.IH" [of x] "2.prems" by force
qed simp

section \<open>The tracker stays well formed\<close>

definition tracker_inv :: "tracker \<Rightarrow> bool" where
  "tracker_inv t \<longleftrightarrow>
     distinct (map fst (connections t)) \<and>
     (\<forall>k c. conn_at t k = Some c \<longrightarrow> conn_tuple c = k) \<and>
     length (connections t) \<le> max 1 (max_connections t)"

lemma evictOldest_result:
  assumes "distinct (map fst (connections t))" and "connections t \<noteq> []"
  obtains k c where "conn_at t k = Some c" "\<And>k' c'. conn_at t k' = Some c' \<Longrightarrow> last_seen c \<le> last_seen c'"
    and "evictOldest ns t = t\<lparr>connections := erase k (connections t)\<rparr>"
    and "Suc (length (connections (evictOldest ns t))) = length (connections t)"
proof -
  let ?m = "reorder ns (connections t)"
  obtain it its where m: "?m = it # its"
    using assms(2) by (cases ?m) (auto dest: arg_cong [of _ _ length])
  obtain k c where o: "oldest it (it # its) = (k, c)" by (cases "oldest it (it # its)")
  then have "(k, c) \<in> set ?m" using oldest_in [of it "it # its"] m by auto
  then have kc: "(k, c) \<in> set (connections t)" by simp
  have least: "last_seen c \<le> last_seen c'" if "conn_at t k' = Some c'" for k' c'
  proof -
    have "(k', c') \<in> set ?m" using that by (simp add: map_of_SomeD)
    then show ?thesis using oldest_least [of "(k', c')" it "it # its"] o m by auto
  qed
  have e: "evictOldest ns t = t\<lparr>connections := erase k (connections t)\<rparr>"
    by (simp add: evictOldest_def m o del: oldest.simps)
  have "Suc (length (erase k (connections t))) = length (connections t)"
    using length_erase [OF assms(1)] kc by force
  moreover have "conn_at t k = Some c" using kc assms(1) by simp
  ultimately show thesis using that least e by simp
qed

lemma getOrCreate_known:
  "conn_at t k = Some c \<Longrightarrow> getOrCreateConnection ns now k t = (Some k, t)"
  by (simp add: getOrCreateConnection_def)

lemma getOrCreate_pointer [simp]: "fst (getOrCreateConnection ns now k t) = Some k"
  by (simp add: getOrCreateConnection_def Let_def split: option.split)

lemma getOrCreate_new:
  assumes "tracker_inv t" and "conn_at t k = None"
  obtains t0 where
    "snd (getOrCreateConnection ns now k t) =
       t\<lparr>connections := (k, new_connection k now) # t0, total_seen := total_seen t + 1\<rparr>"
    and "length t0 < max 1 (max_connections t)" and "distinct (map fst t0)" and "map_of t0 k = None"
    and "length (connections t) < max_connections t \<or> connections t = [] \<Longrightarrow> t0 = connections t"
    and "\<not> (length (connections t) < max_connections t \<or> connections t = []) \<Longrightarrow>
      \<exists>v c. conn_at t v = Some c \<and> t0 = erase v (connections t) \<and>
        (\<forall>k' c'. conn_at t k' = Some c' \<longrightarrow> last_seen c \<le> last_seen c')"
proof (cases "length (connections t) < max_connections t \<or> connections t = []")
  case True
  then have "snd (getOrCreateConnection ns now k t) =
      t\<lparr>connections := (k, new_connection k now) # connections t, total_seen := total_seen t + 1\<rparr>"
    using assms(2) by (auto simp: getOrCreateConnection_def Let_def evictOldest_def)
  then show thesis using that [of "connections t"] True assms by (auto simp: tracker_inv_def)
next
  case False
  then have d: "distinct (map fst (connections t))" "connections t \<noteq> []"
    using assms(1) by (auto simp: tracker_inv_def)
  obtain v c where v: "conn_at t v = Some c"
      "\<And>k' c'. conn_at t k' = Some c' \<Longrightarrow> last_seen c \<le> last_seen c'"
      "evictOldest ns t = t\<lparr>connections := erase v (connections t)\<rparr>"
      "Suc (length (connections (evictOldest ns t))) = length (connections t)"
    using evictOldest_result [OF d, of ns] by metis
  have "snd (getOrCreateConnection ns now k t) =
      t\<lparr>connections := (k, new_connection k now) # erase v (connections t), total_seen := total_seen t + 1\<rparr>"
    using assms(2) False v(3) by (simp add: getOrCreateConnection_def Let_def)
  moreover have "length (erase v (connections t)) < max 1 (max_connections t)"
    using v(3,4) assms(1) by (simp add: tracker_inv_def)
  ultimately show thesis
  proof (rule that)
    show "distinct (map fst (erase v (connections t)))" using d(1) by auto
    show "map_of (erase v (connections t)) k = None" using assms(2) by simp
  qed (use False v(1,2) in blast)+
qed

lemma inv_modify:
  assumes "tracker_inv t" and "\<And>c. conn_tuple (f c) = conn_tuple c"
  shows "tracker_inv (t\<lparr>connections := modify k f (connections t)\<rparr>)"
  using assms by (auto simp: tracker_inv_def split: if_splits)

lemma inv_counters [simp]:
  "tracker_inv (t\<lparr>classified_count := n\<rparr>) = tracker_inv t"
  "tracker_inv (t\<lparr>blocked_count := n\<rparr>) = tracker_inv t"
  "tracker_inv (t\<lparr>connections := m, classified_count := n\<rparr>) = tracker_inv (t\<lparr>connections := m\<rparr>)"
  "tracker_inv (t\<lparr>connections := m, blocked_count := n\<rparr>) = tracker_inv (t\<lparr>connections := m\<rparr>)"
  by (simp_all add: tracker_inv_def)

lemma inv_getOrCreate [keeps]:
  assumes "tracker_inv t"
  shows "tracker_inv (snd (getOrCreateConnection ns now k t))"
proof (cases "conn_at t k")
  case (Some c)
  then show ?thesis using assms getOrCreate_known by simp
next
  case None
  show ?thesis
  proof (rule getOrCreate_new [OF assms None, of ns now], goal_cases)
    case (1 t0)
    have "conn_tuple c = k'" if "map_of t0 k' = Some c" for k' c
    proof -
      have "conn_at t k' = Some c"
        using that 1(5,6) by (cases "length (connections t) < max_connections t \<or> connections t = []")
          (auto split: if_splits)
      then show ?thesis using assms by (simp add: tracker_inv_def)
    qed
    then show ?case
      using 1(1-4) by (auto simp: tracker_inv_def new_connection_def map_of_eq_None_iff)
  qed
qed

lemma cleanup_loop_eq:
  "cleanup_loop timeout now m n =
     (n + length (filter (\<lambda>(k, c). stale timeout now c) m), filter (\<lambda>(k, c). \<not> stale timeout now c) m)"
  by (induction m arbitrary: n) auto

lemma cleanup_loop_length:
  "fst (cleanup_loop timeout now m n) + length (snd (cleanup_loop timeout now m n)) = n + length m"
  by (induction m arbitrary: n) (auto simp: cleanup_loop_eq)

lemma map_of_filter_value:
  "distinct (map fst m) \<Longrightarrow>
   map_of (filter (\<lambda>(k, c). P c) m) k = (case map_of m k of None \<Rightarrow> None | Some c \<Rightarrow> if P c then Some c else None)"
  by (induction m) (auto split: option.split simp: map_of_eq_None_iff image_iff)

lemma inv_cleanup [keeps]: "tracker_inv t \<Longrightarrow> tracker_inv (snd (cleanupStale timeout now t))"
  by (auto simp: tracker_inv_def cleanupStale_def cleanup_loop_eq distinct_map_filter
      map_of_filter_value split: option.splits if_splits intro: le_trans [OF length_filter_le])

lemma conn_at_cleanup:
  "tracker_inv t \<Longrightarrow> conn_at (snd (cleanupStale timeout now t)) k \<in> {conn_at t k, None}"
  by (auto simp: tracker_inv_def cleanupStale_def cleanup_loop_eq map_of_filter_value split: option.split)

lemma inv_update [keeps]: "tracker_inv t \<Longrightarrow> tracker_inv (updateConnection now conn n out t)"
  by (auto simp: updateConnection_def Let_def split: option.split intro!: inv_modify)

lemma inv_block [keeps]: "tracker_inv t \<Longrightarrow> tracker_inv (blockConnection conn t)"
  by (auto simp: blockConnection_def split: option.split intro!: inv_modify)

lemma inv_classify [keeps]: "tracker_inv t \<Longrightarrow> tracker_inv (classifyConnection conn app sni t)"
  by (auto simp: classifyConnection_def split: option.split intro!: inv_modify)

lemma inv_close [keeps]: "tracker_inv t \<Longrightarrow> tracker_inv (closeConnection k t)"
  by (auto simp: closeConnection_def split: option.split intro!: inv_modify)

lemma tracker_inv_new: "tracker_inv (new_tracker i n)"
  by (simp add: tracker_inv_def new_tracker_def)

text \<open>C31: the flow table stays well formed under every operation: no tuple has two entries, an
  entry is filed under its own tuple, and there are never more entries than the configured
  limit (one entry when the limit is 0).\<close>

theorem tracker_stays_well_formed:
  assumes "tracker_inv t"
  shows "tracker_inv (snd (getOrCreateConnection ns now k t)) \<and>
    tracker_inv (updateConnection now conn n outbound t) \<and>
    tracker_inv (classifyConnection conn app sni t) \<and>
    tracker_inv (blockConnection conn t) \<and> tracker_inv (closeConnection k t) \<and>
    tracker_inv (snd (cleanupStale timeout now t)) \<and> tracker_inv (tracker_clear t) \<and>
    tracker_inv (evictOldest ns t) \<and> tracker_inv (new_tracker i limit)"
proof -
  have "tracker_inv (evictOldest ns t)"
  proof (cases "connections t = []")
    case True
    then show ?thesis using assms by (simp add: evictOldest_def)
  next
    case False
    have d: "distinct (map fst (connections t))" using assms by (simp add: tracker_inv_def)
    obtain k where "evictOldest ns t = t\<lparr>connections := erase k (connections t)\<rparr>"
      using evictOldest_result [OF d False] by metis
    then show ?thesis
      using assms by (auto simp: tracker_inv_def erase_def distinct_map_filter map_of_erase [unfolded erase_def]
          split: if_splits intro: le_trans [OF length_filter_le])
  qed
  then show ?thesis
    using assms tracker_inv_new
    by (auto intro: keeps simp: tracker_clear_def) (simp add: tracker_inv_def)
qed

theorem tracker_stays_well_formed_witness:
  "\<forall>k. tracker_inv (snd (getOrCreateConnection [] 5 k (new_tracker 0 2)))"
  using tracker_stays_well_formed [of "new_tracker 0 2"] tracker_inv_new by blast

text \<open>C30: a lookup that finds the tuple changes nothing. One that does not creates a fresh entry and
  counts it; if the table was at its limit it first removes exactly one entry, one that no
  other was seen longer ago than, and keeps the rest.\<close>

theorem getOrCreate_lru:
  assumes "tracker_inv t" and "getOrCreateConnection ns now k t = (conn, t')"
  shows "conn = Some k \<and>
    (conn_at t k \<noteq> None \<longrightarrow> t' = t) \<and>
    (conn_at t k = None \<longrightarrow>
       conn_at t' k = Some (new_connection k now) \<and> total_seen t' = total_seen t + 1 \<and>
       (if length (connections t) < max_connections t \<or> connections t = []
        then \<forall>k'. k' \<noteq> k \<longrightarrow> conn_at t' k' = conn_at t k'
        else \<exists>v c. conn_at t v = Some c \<and>
          (\<forall>k' c'. conn_at t k' = Some c' \<longrightarrow> last_seen c \<le> last_seen c') \<and>
          (\<forall>k'. k' \<noteq> k \<longrightarrow> conn_at t' k' = (if k' = v then None else conn_at t k'))))"
proof (cases "conn_at t k")
  case (Some c)
  then show ?thesis using assms(2) getOrCreate_known [of t k c ns now] by simp
next
  case None
  have e: "conn = Some k" "t' = snd (getOrCreateConnection ns now k t)"
    using assms(2) getOrCreate_pointer [of ns now k t] by simp_all
  show ?thesis
  proof (rule getOrCreate_new [OF assms(1) None, of ns now], goal_cases)
    case (1 t0)
    show ?case
    proof (cases "length (connections t) < max_connections t \<or> connections t = []")
      case True
      then show ?thesis using 1(1) 1(5) [OF True] None e by simp
    next
      case False
      obtain v c where v: "conn_at t v = Some c" "t0 = erase v (connections t)"
          "\<forall>k' c'. conn_at t k' = Some c' \<longrightarrow> last_seen c \<le> last_seen c'"
        using 1(6) [OF False] by blast
      then have "\<forall>k'. k' \<noteq> k \<longrightarrow> conn_at t' k' = (if k' = v then None else conn_at t k')"
        using 1(1) e by simp
      moreover have "conn_at t' k = Some (new_connection k now)" "total_seen t' = total_seen t + 1"
        using 1(1) e by simp_all
      ultimately show ?thesis using v(1,3) None False e(1) by (simp only: if_False) blast
    qed
  qed
qed

definition flow :: "nat \<Rightarrow> five_tuple" where
  "flow n = \<lparr>src_ip = word_of_nat n, dst_ip = 0x0100007F, src_port = 5000, dst_port = 443, protocol = 6\<rparr>"

theorem getOrCreate_lru_witness:
  "\<exists>t'. getOrCreateConnection [] 5 (flow 2) (new_tracker 0 1\<lparr>connections := [(flow 1, new_connection (flow 1) 3)]\<rparr>) =
     (Some (flow 2), t') \<and> conn_at t' (flow 2) = Some (new_connection (flow 2) 5) \<and> conn_at t' (flow 1) = None"
proof -
  let ?t = "new_tracker 0 1\<lparr>connections := [(flow 1, new_connection (flow 1) 3)]\<rparr>"
  have ne: "flow 1 \<noteq> flow 2" "flow 2 \<noteq> flow 1" by (simp_all add: flow_def)
  have inv: "tracker_inv ?t"
    by (simp add: tracker_inv_def new_tracker_def new_connection_def)
  obtain t' where e: "getOrCreateConnection [] 5 (flow 2) ?t = (Some (flow 2), t')"
    by (cases "getOrCreateConnection [] 5 (flow 2) ?t") (use getOrCreate_pointer in \<open>metis fst_conv\<close>)
  show ?thesis
    using getOrCreate_lru [OF inv e] e ne by (auto simp: new_tracker_def split: if_splits)
qed

text \<open>\<open>cleanupStale\<close> removes the closed flows and those not seen for more than the timeout,
  in full seconds, and no other; what it returns is how many it removed.\<close>

theorem cleanup_removes_stale:
  assumes "tracker_inv t" and "cleanupStale timeout now t = (removed, t')"
  shows "(\<forall>k. conn_at t' k = (case conn_at t k of None \<Rightarrow> None
      | Some c \<Rightarrow> if stale timeout now c then None else Some c)) \<and>
    removed + length (connections t') = length (connections t) \<and>
    total_seen t' = total_seen t \<and> classified_count t' = classified_count t \<and>
    blocked_count t' = blocked_count t"
proof -
  let ?f = "filter (\<lambda>(k, c). \<not> stale timeout now c) (connections t)"
  have t': "t' = t\<lparr>connections := ?f\<rparr>" and r: "removed = fst (cleanup_loop timeout now (connections t) 0)"
    using assms(2) by (auto simp: cleanupStale_def cleanup_loop_eq)
  have "removed + length ?f = length (connections t)"
    using cleanup_loop_length [of timeout now "connections t" 0] r by (simp add: cleanup_loop_eq)
  moreover have "conn_at t' k = (case conn_at t k of None \<Rightarrow> None
      | Some c \<Rightarrow> if stale timeout now c then None else Some c)" for k
    using assms(1) t' map_of_filter_value [of "connections t" "\<lambda>c. \<not> stale timeout now c" k]
    by (simp add: tracker_inv_def split: option.split)
  ultimately show ?thesis using t' by simp
qed

theorem cleanup_removes_stale_witness:
  "\<exists>t'. cleanupStale 300 301000000000 (new_tracker 0 9\<lparr>connections := [(flow 1, new_connection (flow 1) 0)]\<rparr>) =
     (1, t') \<and> conn_at t' (flow 1) = None"
proof -
  let ?t = "new_tracker 0 9\<lparr>connections := [(flow 1, new_connection (flow 1) 0)]\<rparr>"
  have inv: "tracker_inv ?t" by (simp add: tracker_inv_def new_tracker_def new_connection_def)
  have st: "stale 300 301000000000 (new_connection (flow 1) 0)"
    by (simp add: stale_def seconds_def new_connection_def)
  then have e: "cleanupStale 300 301000000000 ?t = (1, ?t\<lparr>connections := []\<rparr>)"
    by (simp add: cleanupStale_def)
  show ?thesis using cleanup_removes_stale [OF inv e] st e by (auto simp: new_tracker_def)
qed

section \<open>Statistics over all trackers\<close>

lemma fst_bump: "set (map fst (bump k m)) = insert k (set (map fst m))"
  by (induction k m rule: bump.induct) auto

lemma distinct_bump: "distinct (map fst m) \<Longrightarrow> distinct (map fst (bump k m))"
proof (induction k m rule: bump.induct)
  case (2 k k' n m)
  then show ?case using fst_bump [of k m] by auto
qed simp

lemma map_of_bump:
  "map_of (bump k m) k' =
     (if k' = k then Some (Suc (case map_of m k of None \<Rightarrow> 0 | Some n \<Rightarrow> n)) else map_of m k')"
  by (induction k m rule: bump.induct) auto

lemma fold_bump:
  "map_of (fold bump xs m) k =
     (if count_list xs k = 0 then map_of m k
      else Some (count_list xs k + (case map_of m k of None \<Rightarrow> 0 | Some n \<Rightarrow> n)))"
  by (induction xs arbitrary: m) (auto simp: map_of_bump split: option.splits)

lemma distinct_fold_bump: "distinct (map fst m) \<Longrightarrow> distinct (map fst (fold bump xs m))"
  by (induction xs arbitrary: m) (auto simp: distinct_bump)

lemma count_list_perm: "mset xs = mset ys \<Longrightarrow> count_list xs k = count_list ys k"
  by (metis count_mset)

lemma count_connections:
  "fold count_connection cs s =
     s\<lparr>app_distribution := fold bump (map app_type cs) (app_distribution s),
       domain_counts := fold bump (filter (\<lambda>d. d \<noteq> []) (map conn_sni cs)) (domain_counts s)\<rparr>"
  by (induction cs arbitrary: s) (simp_all add: count_connection_def Let_def)

definition all_connections :: "nat list \<Rightarrow> tracker option list \<Rightarrow> connection list" where
  "all_connections ns trackers =
     concat (map (\<lambda>tr. case tr of None \<Rightarrow> [] | Some t \<Rightarrow> map snd (reorder ns (connections t))) trackers)"

definition seen_sum :: "tracker option list \<Rightarrow> u64" where
  "seen_sum trackers = sum_list (map (\<lambda>tr. case tr of None \<Rightarrow> 0 | Some t \<Rightarrow> total_seen t) trackers)"

lemma count_trackers:
  "fold (count_tracker ns) trackers s =
     s\<lparr>total_active_connections := total_active_connections s + length (all_connections ns trackers),
       total_connections_seen := total_connections_seen s + seen_sum trackers,
       app_distribution := fold bump (map app_type (all_connections ns trackers)) (app_distribution s),
       domain_counts := fold bump (filter (\<lambda>d. d \<noteq> []) (map conn_sni (all_connections ns trackers)))
         (domain_counts s)\<rparr>"
proof (induction trackers arbitrary: s)
  case (Cons tr trackers)
  then show ?case
    by (cases tr) (simp_all add: count_tracker_def Let_def forEach_def count_connections
        tracker_getStats_def all_connections_def seen_sum_def)
qed (simp add: all_connections_def seen_sum_def)

lemma all_connections_perm: "mset (all_connections ns trackers) = mset (all_connections [] trackers)"
proof (induction trackers)
  case (Cons tr trackers)
  have "mset (map snd (reorder ns (connections t))) = mset (map snd (connections t))" for t
    by (metis mset_map mset_reorder)
  moreover have "reorder [] xs = xs" for xs :: conn_map by (cases xs) simp_all
  ultimately show ?case
    using Cons by (cases tr) (simp_all add: all_connections_def del: mset_map)
qed (simp add: all_connections_def)

text \<open>A list sorted with the largest count first: what is cut off counts no more than what stays.\<close>

lemma take_sorted_counts:
  assumes "sorted (map f xs)" and "x \<in> set (take n xs)" and "y \<in> set (drop n xs)"
  shows "f x \<le> f y"
proof -
  have "sorted (map f (take n xs) @ map f (drop n xs))"
    using assms(1) by (metis append_take_drop_id map_append)
  then show ?thesis using assms(2,3) by (auto simp: sorted_append)
qed

lemma count_list_map_length: "count_list (map f xs) k = length (filter (\<lambda>x. f x = k) xs)"
  by (induction xs) auto

lemma count_list_filter: "P k \<Longrightarrow> count_list (filter P xs) k = count_list xs k"
  by (induction xs) auto

lemma count_list_zero: "k \<notin> set xs \<Longrightarrow> count_list xs k = 0"
  by (induction xs) auto

definition app_count :: "tracker option list \<Rightarrow> AppType \<Rightarrow> nat" where
  "app_count trackers a = length (filter (\<lambda>c. app_type c = a) (all_connections [] trackers))"

definition domain_count :: "tracker option list \<Rightarrow> string \<Rightarrow> nat" where
  "domain_count trackers d = length (filter (\<lambda>c. conn_sni c = d) (all_connections [] trackers))"

lemma app_distribution_eq:
  "map_of (app_distribution (getGlobalStats ns nd trackers)) a =
     (if app_count trackers a = 0 then None else Some (app_count trackers a))"
proof -
  have "count_list (map app_type (all_connections ns trackers)) a = app_count trackers a"
    unfolding app_count_def count_list_map_length [symmetric]
    by (rule count_list_perm) (metis all_connections_perm mset_map)
  then show ?thesis
    by (simp add: getGlobalStats_def Let_def count_trackers fold_bump)
qed

lemma domain_counts_eq:
  assumes "d \<noteq> []"
  shows "map_of (domain_counts (getGlobalStats ns nd trackers)) d =
     (if domain_count trackers d = 0 then None else Some (domain_count trackers d))"
proof -
  let ?snis = "\<lambda>ns. map conn_sni (all_connections ns trackers)"
  have "count_list (filter (\<lambda>d. d \<noteq> []) (?snis ns)) d = count_list (?snis ns) d"
    using assms by (rule count_list_filter)
  also have "\<dots> = count_list (?snis []) d"
    by (rule count_list_perm) (metis all_connections_perm mset_map)
  also have "\<dots> = domain_count trackers d"
    by (simp add: domain_count_def count_list_map_length)
  finally show ?thesis
    by (simp add: getGlobalStats_def Let_def count_trackers fold_bump)
qed

lemma domain_counts_keys:
  "distinct (map fst (domain_counts (getGlobalStats ns nd trackers)))"
  "map_of (domain_counts (getGlobalStats ns nd trackers)) [] = None"
  by (simp_all add: getGlobalStats_def Let_def count_trackers distinct_fold_bump fold_bump
      count_list_zero)

lemma top_domains_eq:
  "top_domains (getGlobalStats ns nd trackers) =
     take 20 (sort_key (\<lambda>(d, n). - int n) (reorder nd (domain_counts (getGlobalStats ns nd trackers))))"
  by (simp add: getGlobalStats_def Let_def min_def)

text \<open>The first \<open>m\<close> entries of a list of counts that is sorted from the greatest down.\<close>

lemma ranked_prefix:
  fixes l :: "('k \<times> nat) list"
  assumes "distinct (map fst l)" and "sorted (map (\<lambda>(d, n). - int n) l)"
  shows "distinct (map fst (take m l))" and "length (take m l) \<le> m"
    and "sorted_wrt (\<ge>) (map snd (take m l))"
    and "(d, n) \<in> set l \<Longrightarrow> d \<notin> fst ` set (take m l) \<Longrightarrow>
      length (take m l) = m \<and> (\<forall>(d', n') \<in> set (take m l). n \<le> n')"
proof -
  let ?f = "\<lambda>(d :: 'k, n :: nat). - int n"
  show "distinct (map fst (take m l))" "length (take m l) \<le> m"
    using assms(1) by (simp_all add: take_map [symmetric])
  have "sorted_wrt (\<lambda>x y. ?f x \<le> ?f y) l" using assms(2) by (simp add: sorted_map)
  then have "sorted_wrt (\<lambda>x y. ?f x \<le> ?f y) (take m l)" by (rule sorted_wrt_take)
  then show "sorted_wrt (\<ge>) (map snd (take m l))"
    unfolding sorted_wrt_map by (rule sorted_wrt_mono_rel [rotated]) auto
  assume d: "(d, n) \<in> set l" "d \<notin> fst ` set (take m l)"
  then have y: "(d, n) \<in> set (drop m l)"
    by (metis Un_iff append_take_drop_id fst_conv image_eqI set_append)
  then have "m < length l" by (cases "length l \<le> m") auto
  then show "length (take m l) = m \<and> (\<forall>(d', n') \<in> set (take m l). n \<le> n')"
    using take_sorted_counts [OF assms(2) _ y] by force
qed

text \<open>C38: the statistics over all trackers count every flow of every registered tracker once: per
  application, and per name for the list of top domains. That list holds at most twenty
  names, each once and with its true count, largest first, and a name that is left out has
  twenty others in front of it that count at least as much. No order of iteration and no
  order of ties changes that.\<close>

theorem global_stats_correct:
  assumes "s = getGlobalStats ns nd trackers"
  shows "total_active_connections s = length (all_connections [] trackers) \<and>
    total_connections_seen s = seen_sum trackers \<and>
    (\<forall>a. map_of (app_distribution s) a = (if app_count trackers a = 0 then None else Some (app_count trackers a))) \<and>
    distinct (map fst (top_domains s)) \<and> length (top_domains s) \<le> 20 \<and>
    sorted_wrt (\<ge>) (map snd (top_domains s)) \<and>
    (\<forall>(d, n) \<in> set (top_domains s). d \<noteq> [] \<and> 0 < n \<and> n = domain_count trackers d) \<and>
    (\<forall>d. d \<noteq> [] \<and> 0 < domain_count trackers d \<and> d \<notin> fst ` set (top_domains s) \<longrightarrow>
       length (top_domains s) = 20 \<and> (\<forall>(d', n) \<in> set (top_domains s). domain_count trackers d \<le> n))"
proof -
  let ?f = "\<lambda>(d :: string, n :: nat). - int n"
  define l where "l = sort_key ?f (reorder nd (domain_counts s))"
  have top: "top_domains s = take 20 l" unfolding l_def assms by (rule top_domains_eq)
  have set_l: "set l = set (domain_counts s)" by (simp add: l_def)
  have dist: "distinct (map fst (domain_counts s))" "map_of (domain_counts s) [] = None"
    unfolding assms by (rule domain_counts_keys)+
  have dl: "distinct (map fst l)"
  proof -
    have "mset l = mset (domain_counts s)" by (simp add: l_def)
    then show ?thesis using dist(1) by (metis mset_eq_imp_distinct_iff mset_map)
  qed
  have srt: "sorted (map ?f l)" by (simp add: l_def)
  have entry: "(d, n) \<in> set l \<longleftrightarrow> d \<noteq> [] \<and> 0 < n \<and> n = domain_count trackers d" for d n
  proof (cases "d = []")
    case True
    then show ?thesis using dist(2) set_l by (auto simp: map_of_eq_None_iff image_iff)
  next
    case False
    have "(d, n) \<in> set l \<longleftrightarrow> map_of (domain_counts s) d = Some n" using dist(1) set_l by simp
    then show ?thesis
      using domain_counts_eq [OF False, of ns nd trackers] False assms by (auto split: if_splits)
  qed
  note ranked = ranked_prefix [OF dl srt, where m = 20]
  have cut: "length (take 20 l) = 20 \<and> (\<forall>(d', n) \<in> set (take 20 l). domain_count trackers d \<le> n)"
    if "d \<noteq> []" "0 < domain_count trackers d" "d \<notin> fst ` set (take 20 l)" for d
    using that entry [of d "domain_count trackers d"] ranked(4) [where d = d and n = "domain_count trackers d"] by simp
  have len: "length (all_connections ns trackers) = length (all_connections [] trackers)"
    by (rule mset_eq_length) (rule all_connections_perm)
  have totals: "total_active_connections s = length (all_connections [] trackers)"
    "total_connections_seen s = seen_sum trackers"
    by (simp_all add: assms getGlobalStats_def Let_def count_trackers len)
  have "\<forall>(d, n) \<in> set (top_domains s). d \<noteq> [] \<and> 0 < n \<and> n = domain_count trackers d"
    unfolding top using entry by (auto dest: in_set_takeD)
  moreover have "distinct (map fst (top_domains s))" "length (top_domains s) \<le> 20"
    unfolding top by (rule ranked(1)) (rule ranked(2))
  moreover have "\<forall>a. map_of (app_distribution s) a =
      (if app_count trackers a = 0 then None else Some (app_count trackers a))"
    unfolding assms by (intro allI app_distribution_eq)
  ultimately show ?thesis
    using totals ranked(3) cut unfolding top by (intro conjI) blast+
qed

definition sample_table :: "tracker option list" where
  "sample_table =
     [Some (new_tracker 0 9\<lparr>connections :=
        [(flow 1, new_connection (flow 1) 0\<lparr>conn_sni := ''a.org''\<rparr>),
         (flow 2, new_connection (flow 2) 0\<lparr>conn_sni := ''b.org''\<rparr>)], total_seen := 5\<rparr>), None,
      Some (new_tracker 2 9\<lparr>connections :=
        [(flow 3, new_connection (flow 3) 0\<lparr>conn_sni := ''b.org''\<rparr>)], total_seen := 1\<rparr>)]"

theorem global_stats_correct_witness:
  "\<forall>ns nd. total_active_connections (getGlobalStats ns nd sample_table) = 3 \<and>
     total_connections_seen (getGlobalStats ns nd sample_table) = 6 \<and>
     (\<exists>n. (''b.org'', n) \<in> set (top_domains (getGlobalStats ns nd sample_table)) \<and> n = 2)"
proof (intro allI)
  fix ns nd
  let ?s = "getGlobalStats ns nd sample_table"
  have c: "length (all_connections [] sample_table) = 3" "seen_sum sample_table = 6"
    "domain_count sample_table ''b.org'' = 2"
    by (simp_all add: all_connections_def sample_table_def seen_sum_def domain_count_def new_tracker_def
        new_connection_def)
  note g = global_stats_correct [of ?s ns nd sample_table, OF refl, unfolded c(1,2)]
  have "''b.org'' \<in> fst ` set (top_domains ?s)"
  proof (rule ccontr)
    assume b: "''b.org'' \<notin> fst ` set (top_domains ?s)"
    have cut: "length (top_domains ?s) = 20"
      if "d \<noteq> []" "0 < domain_count sample_table d" "d \<notin> fst ` set (top_domains ?s)" for d
      using g that by blast
    have "length (top_domains ?s) = 20" by (rule cut [OF _ _ b]) (simp_all add: c(3))
    moreover have "set (map fst (top_domains ?s)) \<subseteq> {''a.org'', ''b.org''}"
    proof
      fix d assume "d \<in> set (map fst (top_domains ?s))"
      then have "0 < domain_count sample_table d" using g by fastforce
      then show "d \<in> {''a.org'', ''b.org''}"
        by (auto simp: all_connections_def sample_table_def domain_count_def new_tracker_def
            new_connection_def split: if_splits)
    qed
    moreover have "distinct (map fst (top_domains ?s))" using g by blast
    ultimately have "20 \<le> card {''a.org'', ''b.org''}"
      by (metis card_mono distinct_card finite.emptyI finite.insertI length_map)
    then show False by simp
  qed
  then obtain n where "(''b.org'', n) \<in> set (top_domains ?s)" by auto
  moreover from this have "n = 2" using g c(3) by fastforce
  ultimately show "total_active_connections ?s = 3 \<and> total_connections_seen ?s = 6 \<and>
      (\<exists>n. (''b.org'', n) \<in> set (top_domains ?s) \<and> n = 2)"
    using g by blast
qed

section \<open>The interface of the flow table\<close>

text \<open>
  What the packet path relies on: \<open>acquire\<close> makes sure that there is an entry, at the price of
  at most losing others, and a change through the pointer is seen at that entry alone.
  Changes that keep the table well formed are those that satisfy \<open>allowed\<close>.
\<close>

locale flow_table =
  fixes lookup :: "'t \<Rightarrow> 'k \<Rightarrow> 'c option"
    and acquire :: "'k \<Rightarrow> 't \<Rightarrow> 't"
    and change :: "'k \<Rightarrow> ('c \<Rightarrow> 'c) \<Rightarrow> 't \<Rightarrow> 't"
    and fresh :: "'k \<Rightarrow> 'c"
    and ok :: "'t \<Rightarrow> bool"
    and allowed :: "('c \<Rightarrow> 'c) \<Rightarrow> bool"
  assumes acquire_known: "lookup t k = Some c \<Longrightarrow> acquire k t = t"
    and acquire_new: "ok t \<Longrightarrow> lookup t k = None \<Longrightarrow> lookup (acquire k t) k = Some (fresh k)"
    and acquire_other: "ok t \<Longrightarrow> k' \<noteq> k \<Longrightarrow> lookup (acquire k t) k' \<in> {lookup t k', None}"
    and acquire_ok: "ok t \<Longrightarrow> ok (acquire k t)"
    and change_at: "lookup (change k f t) k = map_option f (lookup t k)"
    and change_other: "k' \<noteq> k \<Longrightarrow> lookup (change k f t) k' = lookup t k'"
    and change_ok: "ok t \<Longrightarrow> allowed f \<Longrightarrow> ok (change k f t)"
begin

lemma acquired: "ok t \<Longrightarrow> lookup (acquire k t) k = Some (case lookup t k of None \<Rightarrow> fresh k | Some c \<Rightarrow> c)"
  using acquire_known [of t k] acquire_new [of t k] by (cases "lookup t k") auto

text \<open>
  A visit of the entry of \<open>k\<close> that began in \<open>t0\<close> and has now made it \<open>c\<close>: every other entry
  is as it was or gone.
\<close>

definition visited :: "'k \<Rightarrow> 't \<Rightarrow> 't \<Rightarrow> 'c \<Rightarrow> bool" where
  "visited k t0 t c \<longleftrightarrow>
     ok t \<and> lookup t k = Some c \<and> (\<forall>k'. k' \<noteq> k \<longrightarrow> lookup t k' \<in> {lookup t0 k', None})"

lemma visited_acquire:
  "ok t \<Longrightarrow> visited k t (acquire k t) (case lookup t k of None \<Rightarrow> fresh k | Some c \<Rightarrow> c)"
  using acquired [of t k] acquire_ok [of t k] acquire_other [of t _ k] by (auto simp: visited_def)

lemma visited_change: "visited k t0 t c \<Longrightarrow> allowed f \<Longrightarrow> visited k t0 (change k f t) (f c)"
  by (auto simp: visited_def change_at change_other change_ok)

end

definition acquire_conn :: "nat list \<Rightarrow> time_point \<Rightarrow> five_tuple \<Rightarrow> tracker \<Rightarrow> tracker" where
  "acquire_conn ns now k t = snd (getOrCreateConnection ns now k t)"

definition change_conn :: "five_tuple \<Rightarrow> (connection \<Rightarrow> connection) \<Rightarrow> tracker \<Rightarrow> tracker" where
  "change_conn k f t = t\<lparr>connections := modify k f (connections t)\<rparr>"

definition keeps_tuple :: "(connection \<Rightarrow> connection) \<Rightarrow> bool" where
  "keeps_tuple f \<longleftrightarrow> (\<forall>c. conn_tuple (f c) = conn_tuple c)"

lemma acquire_conn_other:
  assumes "tracker_inv t" and "k' \<noteq> k"
  shows "conn_at (acquire_conn ns now k t) k' \<in> {conn_at t k', None}"
proof -
  obtain conn t' where e: "getOrCreateConnection ns now k t = (conn, t')"
    by (cases "getOrCreateConnection ns now k t")
  show ?thesis
  proof (cases "conn_at t k")
    case (Some c)
    then show ?thesis using getOrCreate_known by (simp add: acquire_conn_def)
  next
    case None
    show ?thesis
    proof (rule getOrCreate_new [OF assms(1) None, of ns now], goal_cases)
      case (1 t0)
      have "map_of t0 k' = conn_at t k' \<or> map_of t0 k' = None"
      proof (cases "length (connections t) < max_connections t \<or> connections t = []")
        case False
        then obtain v where "t0 = erase v (connections t)" using 1(6) by blast
        then show ?thesis by simp
      qed (use 1(5) in simp)
      then show ?case using 1(1) assms(2) by (auto simp: acquire_conn_def)
    qed
  qed
qed

lemma acquire_conn_new:
  assumes "tracker_inv t" and "conn_at t k = None"
  shows "conn_at (acquire_conn ns now k t) k = Some (new_connection k now)"
  by (rule getOrCreate_new [OF assms, of ns now]) (simp add: acquire_conn_def)

interpretation ct: flow_table conn_at "acquire_conn ns now" change_conn "\<lambda>k. new_connection k now"
  tracker_inv keeps_tuple
  for ns now
proof (unfold_locales, goal_cases)
  case (1 t k c)
  then show ?case using getOrCreate_known by (simp add: acquire_conn_def)
next
  case (2 t k)
  then show ?case by (rule acquire_conn_new)
next
  case (3 t k' k)
  then show ?case by (rule acquire_conn_other)
next
  case (4 t k)
  then show ?case using inv_getOrCreate by (simp add: acquire_conn_def)
next
  case (7 t f k)
  then show ?case using inv_modify by (simp add: change_conn_def keeps_tuple_def)
qed (simp_all add: change_conn_def)

end
