(* ===== verification/Load_Balancer.thy ===== *)
theory Load_Balancer
  imports Aegis_Types Thread_Safe_Queue
begin

text \<open>
  \<open>include/load_balancer.h\<close> and \<open>src/load_balancer.cpp\<close>: the tier that spreads the packets
  over the workers by the hash of their tuple. A pointer to a worker's queue is the
  worker's index. One iteration of \<open>run\<close> is two steps, because it may wait in between:
  \<open>lb_take\<close> pops a job, \<open>lb_give\<close> pushes it to its worker. The products of the two
  configured numbers stay in the range of \<open>int\<close> when that of the engine's
  \<open>total_fps\<close> does.
\<close>

section \<open>One load balancer\<close>

record load_balancer =
  lb_id :: int
  fp_start_id :: int
  num_fps :: nat
  fp_queues :: "nat list"
  lb_input :: "packet_job tsq"
  in_hand :: "packet_job option"
  packets_received :: u64
  packets_dispatched :: u64
  per_fp_counts :: "u64 list"
  lb_running :: bool

definition new_load_balancer :: "int \<Rightarrow> nat list \<Rightarrow> int \<Rightarrow> load_balancer" where
  "new_load_balancer i queues start =
     \<lparr>lb_id = i, fp_start_id = start, num_fps = length queues, fp_queues = queues,
      lb_input = new_queue 10000, in_hand = None, packets_received = 0, packets_dispatched = 0,
      per_fp_counts = replicate (length queues) 0, lb_running = False\<rparr>"

text \<open>
  \<open>start\<close> and \<open>stop\<close>, but for the thread they spawn and join, which \<open>Pipeline\<close> has. The two
  writes of \<open>stop\<close> are one step: the thread looks at the flag only, and nobody pushes to
  the queue any more.
\<close>

definition lb_start :: "load_balancer \<Rightarrow> load_balancer" where
  "lb_start lb = (if lb_running lb then lb else lb\<lparr>lb_running := True\<rparr>)"

definition lb_stop :: "load_balancer \<Rightarrow> load_balancer" where
  "lb_stop lb =
     (if \<not> lb_running lb then lb
      else lb\<lparr>lb_running := False, lb_input := shutdown (lb_input lb)\<rparr>)"

definition selectFP :: "load_balancer \<Rightarrow> five_tuple \<Rightarrow> nat res" where
  "selectFP lb tuple =
     (if num_fps lb = 0 then Inl Division_By_Zero
      else Inr (unat (FiveTupleHash tuple) mod num_fps lb))"

definition lb_take :: "load_balancer \<Rightarrow> load_balancer" where
  "lb_take lb =
     (let (job_opt, q) = popWithTimeout (lb_input lb);
          lb = lb\<lparr>lb_input := q\<rparr>
      in case job_opt of None \<Rightarrow> lb
         | Some job \<Rightarrow> lb\<lparr>in_hand := Some job, packets_received := packets_received lb + 1\<rparr>)"

text \<open>\<open>None\<close> while the push to the worker's queue waits.\<close>

definition lb_give ::
  "load_balancer \<Rightarrow> packet_job tsq list \<Rightarrow> (load_balancer \<times> packet_job tsq list) option res" where
  "lb_give lb qs =
     (case in_hand lb of None \<Rightarrow> Inr (Some (lb, qs))
      | Some job \<Rightarrow>
          andThen (selectFP lb (job_tuple job)) (\<lambda>fp_index.
          let ptr = fp_queues lb ! fp_index
          in case push job (qs ! ptr) of None \<Rightarrow> Inr None
             | Some q \<Rightarrow>
                 Inr (Some (lb\<lparr>in_hand := None,
                               per_fp_counts := (per_fp_counts lb)[fp_index := per_fp_counts lb ! fp_index + 1],
                               packets_dispatched := packets_dispatched lb + 1\<rparr>,
                            qs[ptr := q]))))"

record lb_stats =
  lb_received :: u64
  lb_dispatched :: u64
  lb_per_fp :: "u64 list"

definition lb_getStats :: "load_balancer \<Rightarrow> lb_stats" where
  "lb_getStats lb =
     \<lparr>lb_received = packets_received lb, lb_dispatched = packets_dispatched lb,
      lb_per_fp = per_fp_counts lb\<rparr>"

section \<open>The tier\<close>

record lb_manager =
  lbs :: "load_balancer list"
  fps_per_lb :: int

definition lb_queues :: "int \<Rightarrow> nat list \<Rightarrow> int \<Rightarrow> nat list" where
  "lb_queues fps queues start_idx =
     map (\<lambda>j. queues ! nat (start_idx + j))
       (takeWhile (\<lambda>j. start_idx + j < int (length queues)) [0..fps - 1])"

definition new_lb_manager :: "int \<Rightarrow> int \<Rightarrow> nat list \<Rightarrow> lb_manager" where
  "new_lb_manager num_lbs fps queues =
     \<lparr>lbs = map (\<lambda>i. let start_idx = i * fps
                     in new_load_balancer i (lb_queues fps queues start_idx) start_idx) [0..num_lbs - 1],
      fps_per_lb = fps\<rparr>"

definition lb_startAll :: "lb_manager \<Rightarrow> lb_manager" where
  "lb_startAll lbm = lbm\<lparr>lbs := map lb_start (lbs lbm)\<rparr>"

text \<open>The index of the load balancer; \<open>fps_per_lb_\<close> is converted to \<open>size_t\<close> for the division.\<close>

definition getLBForPacket :: "lb_manager \<Rightarrow> five_tuple \<Rightarrow> nat res" where
  "getLBForPacket lbm tuple =
     (let d = unat (word_of_int (fps_per_lb lbm) :: u64)
      in if d = 0 \<or> length (lbs lbm) = 0 then Inl Division_By_Zero
         else Inr ((unat (FiveTupleHash tuple) div d) mod length (lbs lbm)))"

definition lb_getAggregatedStats :: "lb_manager \<Rightarrow> u64 \<times> u64" where
  "lb_getAggregatedStats lbm =
     fold (\<lambda>lb (r, d). (r + lb_received (lb_getStats lb), d + lb_dispatched (lb_getStats lb))) (lbs lbm) (0, 0)"

section \<open>The route of a flow\<close>

text \<open>The worker that gets the packets of a tuple, through both decisions.\<close>

definition worker_of :: "lb_manager \<Rightarrow> five_tuple \<Rightarrow> nat res" where
  "worker_of lbm tuple =
     andThen (getLBForPacket lbm tuple) (\<lambda>i.
     andThen (selectFP (lbs lbm ! i) tuple) (\<lambda>j. Inr (fp_queues (lbs lbm ! i) ! j)))"

lemma lb_queues_all:
  assumes "0 < f" and "i < l"
  shows "lb_queues (int f) [0..<l * f] (int i * int f) = [i * f..<i * f + f]"
proof -
  have "Suc i * f \<le> l * f" using assms by (intro mult_le_mono1) simp
  then have fit: "i * f + f \<le> l * f" by simp
  have "int i * int f + j < int (length [0..<l * f])" if "j \<in> set [0..int f - 1]" for j
  proof -
    have "int i * int f + j < int (i * f + f)" using that by simp
    also have "\<dots> \<le> int (l * f)" using fit by (simp only: of_nat_le_iff)
    finally show ?thesis by simp
  qed
  then have tw: "takeWhile (\<lambda>j. int i * int f + j < int (length [0..<l * f])) [0..int f - 1] = [0..int f - 1]"
    using takeWhile_eq_all_conv by blast
  show ?thesis
    unfolding lb_queues_def tw
  proof (rule nth_equalityI)
    fix k assume "k < length (map (\<lambda>j. [0..<l * f] ! nat (int i * int f + j)) [0..int f - 1])"
    then have k: "k < f" by simp
    have "nat (int i * int f + int k) = i * f + k"
      by (simp flip: of_nat_mult of_nat_add)
    then show "map (\<lambda>j. [0..<l * f] ! nat (int i * int f + j)) [0..int f - 1] ! k = [i * f..<i * f + f] ! k"
      using k fit by simp
  qed simp
qed

lemma num_fps_new [simp]: "num_fps (new_load_balancer i qs s) = length qs" "fp_queues (new_load_balancer i qs s) = qs"
  by (simp_all add: new_load_balancer_def)

lemma div_mod_split:
  fixes h f l :: nat
  assumes "0 < f" "0 < l"
  shows "(h div f) mod l * f + h mod f = h mod (l * f)"
  using assms by (metis mod_mult2_eq mult.commute add.commute)

lemma worker_of_eq:
  assumes "0 < f" and "0 < l" and "f < 2 ^ 31"
  shows "worker_of (new_lb_manager (int l) (int f) [0..<l * f]) tuple =
    Inr (unat (FiveTupleHash tuple) mod (l * f))"
proof -
  let ?m = "new_lb_manager (int l) (int f) [0..<l * f]" and ?h = "unat (FiveTupleHash tuple)"
  let ?i = "(?h div f) mod l"
  have len: "length (lbs ?m) = l" by (simp add: new_lb_manager_def)
  have d: "unat (word_of_int (int f) :: u64) = f" using assms(3) by (simp add: unat_of_nat)
  have i: "?i < l" using assms(2) by simp
  have nth: "lbs ?m ! ?i = new_load_balancer (int ?i) [?i * f..<?i * f + f] (int ?i * int f)"
    using i lb_queues_all [OF assms(1) i] by (simp add: new_lb_manager_def Let_def)
  have m: "?h mod f < f" using assms(1) by simp
  have "fps_per_lb ?m = int f" by (simp add: new_lb_manager_def)
  then have lb: "getLBForPacket ?m tuple = Inr ?i"
    using assms(1,2) len d by (simp only: getLBForPacket_def Let_def) simp
  have fp: "selectFP (lbs ?m ! ?i) tuple = Inr (?h mod f)"
    using assms(1) by (simp only: nth selectFP_def num_fps_new) simp
  have "[?i * f..<?i * f + f] ! (?h mod f) = ?h mod (l * f)"
    using m div_mod_split [OF assms(1,2), of ?h] by simp
  then show ?thesis
    by (simp only: worker_of_def lb andThen.simps fp) (simp only: nth num_fps_new)
qed

text \<open>The route of a flow. With at least one load balancer and one worker for each, both hash
  decisions together pick the worker with the number \<open>hash mod (number of workers)\<close>: there
  always is one, packets of one tuple always meet the same one, and tuples whose hashes
  differ modulo that number do not.\<close>

theorem route_by_hash:
  assumes "0 < l" and "0 < f" and "f < 2 ^ 31"
  shows "worker_of (new_lb_manager (int l) (int f) [0..<l * f]) tuple =
      Inr (unat (FiveTupleHash tuple) mod (l * f)) \<and>
    unat (FiveTupleHash tuple) mod (l * f) < l * f"
  using worker_of_eq [OF assms(2,1,3), of tuple] assms(1,2) by simp

definition web_flow :: "u16 \<Rightarrow> five_tuple" where
  "web_flow p = \<lparr>src_ip = 0x0A00A8C0, dst_ip = 0x08080808, src_port = p, dst_port = 443, protocol = 6\<rparr>"

theorem route_by_hash_witness:
  "\<exists>i < 4. worker_of (new_lb_manager 2 2 [0, 1, 2, 3]) (web_flow 50000) = Inr i"
proof -
  have "[0..<2 * 2] = [0, 1, 2, 3 :: nat]" by code_simp
  then show ?thesis using route_by_hash [of 2 2 "web_flow 50000"] by auto
qed

text \<open>With no worker or no load balancer configured (\<open>--fps 0\<close>, \<open>--lbs 0\<close>) the first packet
  divides by zero.\<close>

theorem no_workers_faults:
  "worker_of (new_lb_manager l 0 qs) tuple = Inl Division_By_Zero \<and>
   worker_of (new_lb_manager 0 f qs) tuple = Inl Division_By_Zero"
  by (simp add: worker_of_def getLBForPacket_def new_lb_manager_def)

text \<open>The two directions of a connection can go to different workers: their tuples hash differently.\<close>

lemma directions_apart:
  "worker_of (new_lb_manager 2 2 [0, 1, 2, 3]) (web_flow 50000) \<noteq>
   worker_of (new_lb_manager 2 2 [0, 1, 2, 3]) (reverse (web_flow 50000))"
proof -
  have "[0..<2 * 2] = [0, 1, 2, 3 :: nat]" by code_simp
  then have w: "worker_of (new_lb_manager 2 2 [0, 1, 2, 3]) t = Inr (unat (FiveTupleHash t) mod 4)" for t
    using worker_of_eq [of 2 2 t] by simp
  have "unat (FiveTupleHash (web_flow 50000)) mod 4 \<noteq> unat (FiveTupleHash (reverse (web_flow 50000))) mod 4"
    by (simp add: FiveTupleHash_def combine_def web_flow_def reverse_def Let_def)
  then show ?thesis unfolding w by simp
qed

end
