(* ===== verification/Fast_Path.thy ===== *)
theory Fast_Path
  imports Connection_Tracker Packet_Parser Rule_Manager Sni_Extractor Thread_Safe_Queue
begin

text \<open>
  \<open>include/fast_path.h\<close> and \<open>src/fast_path.cpp\<close>: one worker that tracks the flows of its
  packets, inspects payloads, applies the rules and decides each packet's fate. The rules
  are shared by all workers and are an argument (\<open>None\<close> for a null pointer). \<open>ns\<close> is the
  iteration order an eviction sees, \<open>t1\<close> and \<open>t2\<close> the two clock readings of a packet. The
  classification report is in \<open>Reports\<close>. \<open>flow_step\<close> is the specification: what one
  packet does to the entry of its own flow.
\<close>

section \<open>The worker\<close>

record fast_path =
  worker_id :: int
  input_queue :: "packet_job tsq"
  conn_tracker :: tracker
  packets_processed :: u64
  packets_forwarded :: u64
  packets_dropped :: u64
  sni_extractions :: u64
  classification_hits :: u64
  fp_running :: bool

definition new_fast_path :: "int \<Rightarrow> fast_path" where
  "new_fast_path i =
     \<lparr>worker_id = i, input_queue = new_queue 10000, conn_tracker = new_tracker i 100000,
      packets_processed = 0, packets_forwarded = 0, packets_dropped = 0, sni_extractions = 0,
      classification_hits = 0, fp_running = False\<rparr>"

text \<open>\<open>start\<close> and \<open>stop\<close>, as for a load balancer.\<close>

definition fp_start :: "fast_path \<Rightarrow> fast_path" where
  "fp_start fp = (if fp_running fp then fp else fp\<lparr>fp_running := True\<rparr>)"

definition fp_stop :: "fast_path \<Rightarrow> fast_path" where
  "fp_stop fp =
     (if \<not> fp_running fp then fp
      else fp\<lparr>fp_running := False, input_queue := shutdown (input_queue fp)\<rparr>)"

text \<open>\<open>*conn\<close>: the entry the pointer leads to; a null pointer has none.\<close>

definition deref :: "fast_path \<Rightarrow> five_tuple option \<Rightarrow> connection res" where
  "deref fp conn =
     (case conn of None \<Rightarrow> Inl Out_Of_Bounds
      | Some k \<Rightarrow> (case conn_at (conn_tracker fp) k of None \<Rightarrow> Inl Out_Of_Bounds | Some c \<Rightarrow> Inr c))"

text \<open>The five statements of \<open>updateTCPState\<close>, one after the other.\<close>

definition note_syn :: "u8 \<Rightarrow> connection \<Rightarrow> connection" where
  "note_syn flags c =
     (if flags AND SYN \<noteq> 0
      then (if flags AND ACK \<noteq> 0 then c\<lparr>syn_ack_seen := True\<rparr> else c\<lparr>syn_seen := True\<rparr>)
      else c)"

definition note_established :: "u8 \<Rightarrow> connection \<Rightarrow> connection" where
  "note_established flags c =
     (if syn_seen c \<and> syn_ack_seen c \<and> flags AND ACK \<noteq> 0
      then (if conn_state c = NEW then c\<lparr>conn_state := ESTABLISHED\<rparr> else c)
      else c)"

definition note_fin :: "u8 \<Rightarrow> connection \<Rightarrow> connection" where
  "note_fin flags c = (if flags AND FIN \<noteq> 0 then c\<lparr>fin_seen := True\<rparr> else c)"

definition note_rst :: "u8 \<Rightarrow> connection \<Rightarrow> connection" where
  "note_rst flags c = (if flags AND RST \<noteq> 0 then c\<lparr>conn_state := CLOSED\<rparr> else c)"

definition note_closed :: "u8 \<Rightarrow> connection \<Rightarrow> connection" where
  "note_closed flags c =
     (if fin_seen c \<and> flags AND ACK \<noteq> 0 then c\<lparr>conn_state := CLOSED\<rparr> else c)"

definition updateTCPState :: "u8 \<Rightarrow> connection \<Rightarrow> connection" where
  "updateTCPState flags c =
     note_closed flags (note_rst flags (note_fin flags (note_established flags (note_syn flags c))))"

text \<open>What the TCP state machine reads and writes, and what it leaves alone.\<close>

lemma note_syn_frame [simp]:
  "conn_tuple (note_syn flags c) = conn_tuple c" "app_type (note_syn flags c) = app_type c"
  "conn_sni (note_syn flags c) = conn_sni c" "last_seen (note_syn flags c) = last_seen c"
  "fin_seen (note_syn flags c) = fin_seen c"
  "conn_state (note_syn flags c) = conn_state c"
  by (simp_all add: note_syn_def)

lemma note_established_frame [simp]:
  "conn_tuple (note_established flags c) = conn_tuple c" "app_type (note_established flags c) = app_type c"
  "conn_sni (note_established flags c) = conn_sni c" "last_seen (note_established flags c) = last_seen c"
  "syn_seen (note_established flags c) = syn_seen c" "syn_ack_seen (note_established flags c) = syn_ack_seen c"
  "fin_seen (note_established flags c) = fin_seen c"
  by (simp_all add: note_established_def)

lemma note_fin_frame [simp]:
  "conn_tuple (note_fin flags c) = conn_tuple c" "app_type (note_fin flags c) = app_type c"
  "conn_sni (note_fin flags c) = conn_sni c" "last_seen (note_fin flags c) = last_seen c"
  "syn_seen (note_fin flags c) = syn_seen c" "syn_ack_seen (note_fin flags c) = syn_ack_seen c"
  "conn_state (note_fin flags c) = conn_state c"
  by (simp_all add: note_fin_def)

lemma note_rst_frame [simp]:
  "conn_tuple (note_rst flags c) = conn_tuple c" "app_type (note_rst flags c) = app_type c"
  "conn_sni (note_rst flags c) = conn_sni c" "last_seen (note_rst flags c) = last_seen c"
  "syn_seen (note_rst flags c) = syn_seen c" "syn_ack_seen (note_rst flags c) = syn_ack_seen c"
  "fin_seen (note_rst flags c) = fin_seen c"
  by (simp_all add: note_rst_def)

lemma note_closed_frame [simp]:
  "conn_tuple (note_closed flags c) = conn_tuple c" "app_type (note_closed flags c) = app_type c"
  "conn_sni (note_closed flags c) = conn_sni c" "last_seen (note_closed flags c) = last_seen c"
  "syn_seen (note_closed flags c) = syn_seen c" "syn_ack_seen (note_closed flags c) = syn_ack_seen c"
  "fin_seen (note_closed flags c) = fin_seen c"
  by (simp_all add: note_closed_def)

lemma updateTCPState_frame [simp]:
  "conn_tuple (updateTCPState flags c) = conn_tuple c"
  "app_type (updateTCPState flags c) = app_type c"
  "conn_sni (updateTCPState flags c) = conn_sni c"
  by (simp_all add: updateTCPState_def)

lemma note_states:
  "conn_state (note_closed flags c) = (if fin_seen c \<and> flags AND ACK \<noteq> 0 then CLOSED else conn_state c)"
  "conn_state (note_rst flags c) = (if flags AND RST \<noteq> 0 then CLOSED else conn_state c)"
  "conn_state (note_established flags c) =
     (if conn_state c = NEW \<and> syn_seen c \<and> syn_ack_seen c \<and> flags AND ACK \<noteq> 0 then ESTABLISHED
      else conn_state c)"
  by (simp_all add: note_closed_def note_rst_def note_established_def)

lemma updateTCPState_flags:
  "syn_seen (updateTCPState flags c) \<longleftrightarrow> syn_seen c \<or> flags AND SYN \<noteq> 0 \<and> flags AND ACK = 0"
  "syn_ack_seen (updateTCPState flags c) \<longleftrightarrow> syn_ack_seen c \<or> flags AND SYN \<noteq> 0 \<and> flags AND ACK \<noteq> 0"
  "fin_seen (updateTCPState flags c) \<longleftrightarrow> fin_seen c \<or> flags AND FIN \<noteq> 0"
  by (simp_all add: updateTCPState_def note_syn_def note_fin_def)

lemma updateTCPState_state:
  "conn_state (updateTCPState flags c) =
     (if flags AND RST \<noteq> 0 \<or> (fin_seen (updateTCPState flags c) \<and> flags AND ACK \<noteq> 0) then CLOSED
      else if conn_state c = NEW \<and> syn_seen (updateTCPState flags c) \<and>
        syn_ack_seen (updateTCPState flags c) \<and> flags AND ACK \<noteq> 0 then ESTABLISHED
      else conn_state c)"
  by (simp add: updateTCPState_def note_states)

definition set_tracker :: "(tracker \<Rightarrow> tracker) \<Rightarrow> fast_path \<Rightarrow> fast_path" where
  "set_tracker f fp = fp\<lparr>conn_tracker := f (conn_tracker fp)\<rparr>"

definition tryExtractSNI ::
  "packet_job \<Rightarrow> five_tuple option \<Rightarrow> fast_path \<Rightarrow> (bool \<times> fast_path) res" where
  "tryExtractSNI job conn fp =
     (if dst_port (job_tuple job) \<noteq> 443 \<and> payload_length job < 50 then Inr (False, fp)
      else if payload_offset job \<ge> length (job_data job) \<or> payload_length job = 0 then Inr (False, fp)
      else andThen (sni_extract (job_data job) (int (payload_offset job)) (payload_length job)) (\<lambda>sni.
        case sni of None \<Rightarrow> Inr (False, fp)
        | Some name \<Rightarrow>
            let fp = fp\<lparr>sni_extractions := sni_extractions fp + 1\<rparr>;
                app = sniToAppType name;
                fp = set_tracker (classifyConnection conn app name) fp;
                fp = (if app \<noteq> UNKNOWN \<and> app \<noteq> HTTPS
                      then fp\<lparr>classification_hits := classification_hits fp + 1\<rparr> else fp)
            in Inr (True, fp)))"

definition tryExtractHTTPHost ::
  "packet_job \<Rightarrow> five_tuple option \<Rightarrow> fast_path \<Rightarrow> (bool \<times> fast_path) res" where
  "tryExtractHTTPHost job conn fp =
     (if dst_port (job_tuple job) \<noteq> 80 then Inr (False, fp)
      else if payload_offset job \<ge> length (job_data job) \<or> payload_length job = 0 then Inr (False, fp)
      else andThen (http_extract (job_data job) (int (payload_offset job)) (payload_length job)) (\<lambda>host.
        case host of None \<Rightarrow> Inr (False, fp)
        | Some name \<Rightarrow>
            let app = sniToAppType name;
                fp = set_tracker (classifyConnection conn app name) fp;
                fp = (if app \<noteq> UNKNOWN \<and> app \<noteq> HTTP
                      then fp\<lparr>classification_hits := classification_hits fp + 1\<rparr> else fp)
            in Inr (True, fp)))"

definition inspectPayload :: "packet_job \<Rightarrow> five_tuple option \<Rightarrow> fast_path \<Rightarrow> fast_path res" where
  "inspectPayload job conn fp =
     (if payload_length job = 0 \<or> payload_offset job \<ge> length (job_data job) then Inr fp
      else andThen (tryExtractSNI job conn fp) (\<lambda>(found, fp). if found then Inr fp
      else andThen (tryExtractHTTPHost job conn fp) (\<lambda>(found, fp). if found then Inr fp
      else andThen
        (if dst_port (job_tuple job) = 53 \<or> src_port (job_tuple job) = 53
         then extractQuery (job_data job) (int (payload_offset job)) (payload_length job)
         else Inr None) (\<lambda>domain.
        case domain of
          Some d \<Rightarrow> Inr (set_tracker (classifyConnection conn DNS d) fp)
        | None \<Rightarrow>
            if dst_port (job_tuple job) = 80 then Inr (set_tracker (classifyConnection conn HTTP []) fp)
            else if dst_port (job_tuple job) = 443
              then Inr (set_tracker (classifyConnection conn HTTPS []) fp)
            else Inr fp))))"

definition checkRules ::
  "rule_manager option \<Rightarrow> packet_job \<Rightarrow> five_tuple option \<Rightarrow> fast_path \<Rightarrow>
    (PacketAction \<times> fast_path) res" where
  "checkRules rules job conn fp =
     (case rules of None \<Rightarrow> Inr (FORWARD, fp)
      | Some rm \<Rightarrow>
          andThen (deref fp conn) (\<lambda>c.
          case shouldBlock rm (src_ip (job_tuple job)) (dst_port (job_tuple job)) (app_type c) (conn_sni c) of
            Some reason \<Rightarrow> Inr (DROP, set_tracker (blockConnection conn) fp)
          | None \<Rightarrow> Inr (FORWARD, fp)))"

definition processPacket ::
  "nat list \<Rightarrow> time_point \<Rightarrow> time_point \<Rightarrow> rule_manager option \<Rightarrow> packet_job \<Rightarrow> fast_path \<Rightarrow>
    (PacketAction \<times> fast_path) res" where
  "processPacket ns t1 t2 rules job fp =
     (let (conn, tr) = getOrCreateConnection ns t1 (job_tuple job) (conn_tracker fp);
          fp = fp\<lparr>conn_tracker := tr\<rparr>
      in case conn of None \<Rightarrow> Inr (FORWARD, fp)
      | Some k \<Rightarrow>
          let fp = set_tracker (updateConnection t2 conn (length (job_data job)) True) fp;
              fp = (if protocol (job_tuple job) = TCP_PROTO
                    then set_tracker (change_conn k (updateTCPState (job_flags job))) fp else fp)
          in andThen (deref fp conn) (\<lambda>c.
             if conn_state c = BLOCKED then Inr (DROP, fp)
             else andThen
               (if conn_state c \<noteq> CLASSIFIED \<and> payload_length job > 0
                then inspectPayload job conn fp else Inr fp) (\<lambda>fp.
               checkRules rules job conn fp)))"

text \<open>
  The body of the loop of \<open>run\<close>: the result of \<open>popWithTimeout\<close> is handled; a packet that was
  decided goes to the output callback together with its action.
\<close>

definition run_body ::
  "nat list \<Rightarrow> time_point \<Rightarrow> time_point \<Rightarrow> rule_manager option \<Rightarrow> packet_job option \<Rightarrow> fast_path \<Rightarrow>
    ((packet_job \<times> PacketAction) option \<times> fast_path) res" where
  "run_body ns t1 t2 rules job_opt fp =
     (case job_opt of
        None \<Rightarrow> Inr (None, set_tracker (snd \<circ> cleanupStale 300 t1) fp)
      | Some job \<Rightarrow>
          let fp = fp\<lparr>packets_processed := packets_processed fp + 1\<rparr>
          in andThen (processPacket ns t1 t2 rules job fp) (\<lambda>(action, fp).
             Inr (Some (job, action),
               if action = DROP then fp\<lparr>packets_dropped := packets_dropped fp + 1\<rparr>
               else fp\<lparr>packets_forwarded := packets_forwarded fp + 1\<rparr>)))"

record fp_stats =
  st_processed :: u64
  st_forwarded :: u64
  st_dropped :: u64
  st_connections :: u64
  st_extractions :: u64
  st_hits :: u64

definition fp_getStats :: "fast_path \<Rightarrow> fp_stats" where
  "fp_getStats fp =
     \<lparr>st_processed = packets_processed fp, st_forwarded = packets_forwarded fp,
      st_dropped = packets_dropped fp,
      st_connections = word_of_nat (getActiveCount (conn_tracker fp)),
      st_extractions = sni_extractions fp, st_hits = classification_hits fp\<rparr>"

section \<open>The workers together\<close>

definition new_fps :: "int \<Rightarrow> fast_path list" where
  "new_fps num_fps = map new_fast_path [0..num_fps - 1]"

definition fp_startAll :: "fast_path list \<Rightarrow> fast_path list" where
  "fp_startAll fps = map fp_start fps"

record fp_totals =
  total_processed :: u64
  total_forwarded :: u64
  total_dropped :: u64
  total_connections :: u64

definition add_fp :: "fast_path \<Rightarrow> fp_totals \<Rightarrow> fp_totals" where
  "add_fp fp s =
     (let st = fp_getStats fp
      in s\<lparr>total_processed := total_processed s + st_processed st,
           total_forwarded := total_forwarded s + st_forwarded st,
           total_dropped := total_dropped s + st_dropped st,
           total_connections := total_connections s + st_connections st\<rparr>)"

definition fp_getAggregatedStats :: "fast_path list \<Rightarrow> fp_totals" where
  "fp_getAggregatedStats fps =
     fold add_fp fps
       \<lparr>total_processed = 0, total_forwarded = 0, total_dropped = 0, total_connections = 0\<rparr>"

record class_counts =
  app_counts :: "(AppType \<times> nat) list"
  total_classified :: nat
  total_unknown :: nat

definition count_class :: "connection \<Rightarrow> class_counts \<Rightarrow> class_counts" where
  "count_class c s =
     (let s = s\<lparr>app_counts := bump (app_type c) (app_counts s)\<rparr>
      in if app_type c = UNKNOWN then s\<lparr>total_unknown := total_unknown s + 1\<rparr>
         else s\<lparr>total_classified := total_classified s + 1\<rparr>)"

text \<open>The numbers \<open>generateClassificationReport\<close> prints.\<close>

definition classification_counts :: "nat list \<Rightarrow> fast_path list \<Rightarrow> class_counts" where
  "classification_counts ns fps =
     fold (\<lambda>fp. forEach ns count_class (conn_tracker fp)) fps
       \<lparr>app_counts = [], total_classified = 0, total_unknown = 0\<rparr>"

section \<open>The specification of one packet\<close>

definition touch :: "time_point \<Rightarrow> nat \<Rightarrow> connection \<Rightarrow> connection" where
  "touch now n c =
     c\<lparr>last_seen := now, packets_out := packets_out c + 1, bytes_out := bytes_out c + word_of_nat n\<rparr>"

definition classify :: "AppType \<times> string \<Rightarrow> connection \<Rightarrow> connection" where
  "classify a c =
     (if conn_state c = CLASSIFIED then c
      else c\<lparr>app_type := fst a, conn_sni := snd a, conn_state := CLASSIFIED\<rparr>)"

definition mark_blocked :: "connection \<Rightarrow> connection" where
  "mark_blocked c = c\<lparr>conn_state := BLOCKED, conn_action := DROP\<rparr>"

definition payload_of :: "packet_job \<Rightarrow> bytes" where
  "payload_of job = view (job_data job) (int (payload_offset job)) (payload_length job)"

text \<open>The payload, if there is one, lies inside the packet's data.\<close>

definition job_ok :: "packet_job \<Rightarrow> bool" where
  "job_ok job \<longleftrightarrow>
     0 < payload_length job \<longrightarrow> payload_offset job + payload_length job \<le> length (job_data job)"

definition found :: "string option res \<Rightarrow> string option" where
  "found r = (case r of Inl e \<Rightarrow> None | Inr x \<Rightarrow> x)"

definition tls_name :: "five_tuple \<Rightarrow> bytes \<Rightarrow> string option" where
  "tls_name t p = (if dst_port t = 443 \<or> 50 \<le> length p then found (sni_extract p 0 (length p)) else None)"

definition http_name :: "five_tuple \<Rightarrow> bytes \<Rightarrow> string option" where
  "http_name t p = (if dst_port t = 80 then found (http_extract p 0 (length p)) else None)"

definition dns_name :: "five_tuple \<Rightarrow> bytes \<Rightarrow> string option" where
  "dns_name t p =
     (if dst_port t = 53 \<or> src_port t = 53 then found (extractQuery p 0 (length p)) else None)"

text \<open>What a payload says of its flow: the application and the name, if anything.\<close>

definition payload_class :: "five_tuple \<Rightarrow> bytes \<Rightarrow> (AppType \<times> string) option" where
  "payload_class t p =
     (case tls_name t p of Some s \<Rightarrow> Some (sniToAppType s, s)
      | None \<Rightarrow> (case http_name t p of Some h \<Rightarrow> Some (sniToAppType h, h)
      | None \<Rightarrow> (case dns_name t p of Some d \<Rightarrow> Some (DNS, d)
      | None \<Rightarrow> if dst_port t = 80 then Some (HTTP, []) else if dst_port t = 443 then Some (HTTPS, [])
               else None)))"

definition tracked :: "time_point \<Rightarrow> packet_job \<Rightarrow> connection \<Rightarrow> connection" where
  "tracked now job c =
     (let c = touch now (length (job_data job)) c
      in if protocol (job_tuple job) = TCP_PROTO then updateTCPState (job_flags job) c else c)"

definition inspected :: "packet_job \<Rightarrow> connection \<Rightarrow> connection" where
  "inspected job c =
     (if conn_state c \<noteq> CLASSIFIED \<and> 0 < payload_length job
      then (case payload_class (job_tuple job) (payload_of job) of None \<Rightarrow> c | Some a \<Rightarrow> classify a c)
      else c)"

definition rule_hit :: "rule_manager option \<Rightarrow> packet_job \<Rightarrow> connection \<Rightarrow> bool" where
  "rule_hit rules job c =
     (case rules of None \<Rightarrow> False
      | Some rm \<Rightarrow>
          shouldBlock rm (src_ip (job_tuple job)) (dst_port (job_tuple job)) (app_type c) (conn_sni c) \<noteq> None)"

definition flow_step ::
  "rule_manager option \<Rightarrow> time_point \<Rightarrow> packet_job \<Rightarrow> connection \<Rightarrow> connection \<times> PacketAction" where
  "flow_step rules now job c =
     (let c = tracked now job c
      in if conn_state c = BLOCKED then (c, DROP)
         else let c = inspected job c
              in if rule_hit rules job c then (mark_blocked c, DROP) else (c, FORWARD))"

section \<open>The worker implements the specification\<close>

text \<open>The fields of the worker that a packet's own processing leaves alone.\<close>

definition same_frame :: "fast_path \<Rightarrow> fast_path \<Rightarrow> bool" where
  "same_frame fp fp' \<longleftrightarrow>
     worker_id fp' = worker_id fp \<and> input_queue fp' = input_queue fp \<and> fp_running fp' = fp_running fp \<and>
     packets_processed fp' = packets_processed fp \<and> packets_forwarded fp' = packets_forwarded fp \<and>
     packets_dropped fp' = packets_dropped fp"

lemma same_frame_set [simp]: "same_frame fp (set_tracker f fp)" "same_frame fp (fp\<lparr>conn_tracker := tr\<rparr>)"
  by (simp_all add: same_frame_def set_tracker_def)

lemma same_frame_trans: "same_frame a b \<Longrightarrow> same_frame b c \<Longrightarrow> same_frame a c"
  by (simp add: same_frame_def)

lemma conn_tracker_set [simp]: "conn_tracker (set_tracker f fp) = f (conn_tracker fp)"
  by (simp add: set_tracker_def)

lemma foundI: "returns r \<Longrightarrow> r = Inr (found r)"
  by (auto simp: returns_def found_def)

lemma payload_block:
  assumes "job_ok job" and "0 < payload_length job"
  shows "in_block (job_data job) (int (payload_offset job)) (payload_length job)"
    and "payload_offset job < length (job_data job)"
    and "length (payload_of job) = payload_length job"
proof -
  show b: "in_block (job_data job) (int (payload_offset job)) (payload_length job)"
    using assms by (simp add: job_ok_def in_block_def)
  show "payload_offset job < length (job_data job)" using assms by (simp add: job_ok_def)
  show "length (payload_of job) = payload_length job" unfolding payload_of_def by (rule length_view [OF b])
qed

lemma extracts:
  assumes "job_ok job" and "0 < payload_length job"
  shows "sni_extract (job_data job) (int (payload_offset job)) (payload_length job) =
      Inr (found (sni_extract (payload_of job) 0 (length (payload_of job))))"
    and "http_extract (job_data job) (int (payload_offset job)) (payload_length job) =
      Inr (found (http_extract (payload_of job) 0 (length (payload_of job))))"
    and "extractQuery (job_data job) (int (payload_offset job)) (payload_length job) =
      Inr (found (extractQuery (payload_of job) 0 (length (payload_of job))))"
proof -
  note b = payload_block [OF assms]
  show "sni_extract (job_data job) (int (payload_offset job)) (payload_length job) =
      Inr (found (sni_extract (payload_of job) 0 (length (payload_of job))))"
    using sni_extract_local [OF b(1)] b(3) foundI by (simp add: payload_of_def)
  show "http_extract (job_data job) (int (payload_offset job)) (payload_length job) =
      Inr (found (http_extract (payload_of job) 0 (length (payload_of job))))"
    using http_extract_local [OF b(1)] b(3) foundI by (simp add: payload_of_def)
  show "extractQuery (job_data job) (int (payload_offset job)) (payload_length job) =
      Inr (found (extractQuery (payload_of job) 0 (length (payload_of job))))"
    using extractQuery_local [OF b(1)] b(3) foundI by (simp add: payload_of_def)
qed

lemma tryExtractSNI_result:
  assumes "job_ok job" and "0 < payload_length job"
  shows "\<exists>fp'. tryExtractSNI job conn fp = Inr (tls_name (job_tuple job) (payload_of job) \<noteq> None, fp') \<and>
    same_frame fp fp' \<and>
    conn_tracker fp' =
      (case tls_name (job_tuple job) (payload_of job) of None \<Rightarrow> conn_tracker fp
       | Some s \<Rightarrow> classifyConnection conn (sniToAppType s) s (conn_tracker fp))"
  using payload_block(2,3) [OF assms] assms(2) extracts(1) [OF assms]
  by (auto simp: tryExtractSNI_def tls_name_def Let_def same_frame_def set_tracker_def split: option.split)

lemma tryExtractHTTPHost_result:
  assumes "job_ok job" and "0 < payload_length job"
  shows "\<exists>fp'. tryExtractHTTPHost job conn fp = Inr (http_name (job_tuple job) (payload_of job) \<noteq> None, fp') \<and>
    same_frame fp fp' \<and>
    conn_tracker fp' =
      (case http_name (job_tuple job) (payload_of job) of None \<Rightarrow> conn_tracker fp
       | Some s \<Rightarrow> classifyConnection conn (sniToAppType s) s (conn_tracker fp))"
  using payload_block(2,3) [OF assms] assms(2) extracts(2) [OF assms]
  by (auto simp: tryExtractHTTPHost_def http_name_def Let_def same_frame_def set_tracker_def split: option.split)

lemma inspectPayload_result:
  assumes "job_ok job" and "0 < payload_length job"
  shows "\<exists>fp'. inspectPayload job conn fp = Inr fp' \<and> same_frame fp fp' \<and>
    conn_tracker fp' =
      (case payload_class (job_tuple job) (payload_of job) of None \<Rightarrow> conn_tracker fp
       | Some (app, s) \<Rightarrow> classifyConnection conn app s (conn_tracker fp))"
proof -
  let ?t = "job_tuple job" and ?p = "payload_of job"
  obtain fp1 where s: "tryExtractSNI job conn fp = Inr (tls_name ?t ?p \<noteq> None, fp1)" "same_frame fp fp1"
      "conn_tracker fp1 = (case tls_name ?t ?p of None \<Rightarrow> conn_tracker fp
        | Some s \<Rightarrow> classifyConnection conn (sniToAppType s) s (conn_tracker fp))"
    using tryExtractSNI_result [OF assms] by blast
  obtain fp2 where h: "tryExtractHTTPHost job conn fp1 = Inr (http_name ?t ?p \<noteq> None, fp2)" "same_frame fp1 fp2"
      "conn_tracker fp2 = (case http_name ?t ?p of None \<Rightarrow> conn_tracker fp1
        | Some s \<Rightarrow> classifyConnection conn (sniToAppType s) s (conn_tracker fp1))"
    using tryExtractHTTPHost_result [OF assms] by blast
  have frame: "same_frame fp fp2" using s(2) h(2) by (rule same_frame_trans)
  have dns: "(if dst_port ?t = 53 \<or> src_port ?t = 53
      then extractQuery (job_data job) (int (payload_offset job)) (payload_length job) else Inr None) =
      Inr (dns_name ?t ?p)"
    using extracts(3) [OF assms] by (simp add: dns_name_def)
  have frame_set: "same_frame fp (set_tracker f fp2)" for f
    using frame by (rule same_frame_trans) simp
  show ?thesis
    using payload_block(2) [OF assms] assms(2) s h frame frame_set
    by (cases "tls_name ?t ?p"; cases "http_name ?t ?p"; cases "dns_name ?t ?p")
      (simp_all add: inspectPayload_def payload_class_def dns)
qed

text \<open>The operations through the pointer \<open>Some k\<close> as changes of the entry.\<close>

lemma update_is_change:
  "updateConnection now (Some k) n True t = change_conn k (touch now n) t"
  by (simp add: updateConnection_def change_conn_def touch_def [abs_def] Let_def)

lemma modify_cong: "map_of m k = Some c \<Longrightarrow> distinct (map fst m) \<Longrightarrow> f c = g c \<Longrightarrow> modify k f m = modify k g m"
  by (auto simp: modify_def dest: eq_key_imp_eq_value)

lemma modify_id: "map_of m k = Some c \<Longrightarrow> distinct (map fst m) \<Longrightarrow> f c = c \<Longrightarrow> modify k f m = m"
  by (auto simp: modify_def intro!: map_idI dest: eq_key_imp_eq_value)

lemma classify_is_change:
  assumes "tracker_inv t" and "conn_at t k = Some c"
  shows "connections (classifyConnection (Some k) app s t) = connections (change_conn k (classify (app, s)) t)"
proof -
  have d: "distinct (map fst (connections t))" using assms(1) by (simp add: tracker_inv_def)
  show ?thesis
  proof (cases "conn_state c = CLASSIFIED")
    case True
    then show ?thesis
      using assms modify_id [OF assms(2) d, of "classify (app, s)"]
      by (simp add: classifyConnection_def change_conn_def classify_def)
  next
    case False
    then show ?thesis
      using assms modify_cong [OF assms(2) d, of "classify (app, s)"
          "\<lambda>c. c\<lparr>app_type := app, conn_sni := s, conn_state := CLASSIFIED\<rparr>"]
      by (simp add: classifyConnection_def change_conn_def classify_def)
  qed
qed

lemma keeps_tuples [simp]:
  "keeps_tuple (touch now n)" "keeps_tuple (updateTCPState flags)" "keeps_tuple (classify a)"
  "keeps_tuple mark_blocked" "keeps_tuple (\<lambda>c. c)"
  by (simp_all add: keeps_tuple_def touch_def classify_def mark_blocked_def)

abbreviation visits :: "five_tuple \<Rightarrow> tracker \<Rightarrow> tracker \<Rightarrow> connection \<Rightarrow> bool" where
  "visits \<equiv> flow_table.visited conn_at tracker_inv"

lemmas visits_iff = ct.visited_def

lemma visited_same_connections:
  assumes "visits k t0 t c" and "connections t' = connections t" and "max_connections t' = max_connections t"
  shows "visits k t0 t' c"
  using assms by (simp add: visits_iff tracker_inv_def)

lemma visited_classify:
  assumes "visits k t0 t c"
  shows "visits k t0 (classifyConnection (Some k) app s t) (classify (app, s) c)"
proof (rule visited_same_connections [OF ct.visited_change [OF assms keeps_tuples(3)]])
  show "connections (classifyConnection (Some k) app s t) = connections (change_conn k (classify (app, s)) t)"
    using assms by (intro classify_is_change) (auto simp: visits_iff)
qed (simp add: classifyConnection_def change_conn_def split: option.split)

lemma visited_block:
  assumes "visits k t0 t c"
  shows "visits k t0 (blockConnection (Some k) t) (mark_blocked c)"
  by (rule visited_same_connections [OF ct.visited_change [OF assms keeps_tuples(4)]])
     (simp_all add: blockConnection_def change_conn_def mark_blocked_def [abs_def])

lemma visited_tracked:
  fixes job :: packet_job and t1 t2 :: time_point and ns :: "nat list"
  assumes "tracker_inv t"
  defines "c \<equiv> (case conn_at t (job_tuple job) of None \<Rightarrow> new_connection (job_tuple job) t1 | Some c \<Rightarrow> c)"
    and "tr \<equiv> updateConnection t2 (Some (job_tuple job)) (length (job_data job)) True
      (acquire_conn ns t1 (job_tuple job) t)"
  shows "visits (job_tuple job) t
    (if protocol (job_tuple job) = TCP_PROTO then change_conn (job_tuple job) (updateTCPState (job_flags job)) tr else tr)
    (tracked t2 job c)"
proof -
  let ?k = "job_tuple job"
  have "visits ?k t (acquire_conn ns t1 ?k t) c"
    unfolding c_def by (rule ct.visited_acquire [OF assms(1)])
  then have "visits ?k t tr (touch t2 (length (job_data job)) c)"
    unfolding tr_def update_is_change by (rule ct.visited_change) simp
  then show ?thesis by (auto simp: tracked_def Let_def intro: ct.visited_change)
qed

lemma checkRules_result:
  assumes "visits (job_tuple job) t0 (conn_tracker fp) c"
  shows "\<exists>fp'. checkRules rules job (Some (job_tuple job)) fp =
      Inr (if rule_hit rules job c then DROP else FORWARD, fp') \<and> same_frame fp fp' \<and>
    visits (job_tuple job) t0 (conn_tracker fp') (if rule_hit rules job c then mark_blocked c else c)"
proof -
  have "deref fp (Some (job_tuple job)) = Inr c" using assms by (simp add: deref_def visits_iff)
  then show ?thesis
    using assms visited_block [OF assms]
    by (auto simp: checkRules_def rule_hit_def same_frame_def set_tracker_def split: option.split)
qed

lemma inspect_result:
  assumes "visits (job_tuple job) t0 (conn_tracker fp) c" and "job_ok job"
  shows "\<exists>fp'. (if conn_state c \<noteq> CLASSIFIED \<and> payload_length job > 0
        then inspectPayload job (Some (job_tuple job)) fp else Inr fp) = Inr fp' \<and> same_frame fp fp' \<and>
    visits (job_tuple job) t0 (conn_tracker fp') (inspected job c)"
proof (cases "conn_state c \<noteq> CLASSIFIED \<and> payload_length job > 0")
  case True
  then obtain fp' where "inspectPayload job (Some (job_tuple job)) fp = Inr fp'" "same_frame fp fp'"
      "conn_tracker fp' = (case payload_class (job_tuple job) (payload_of job) of None \<Rightarrow> conn_tracker fp
        | Some (app, s) \<Rightarrow> classifyConnection (Some (job_tuple job)) app s (conn_tracker fp))"
    using inspectPayload_result [OF assms(2)] by blast
  then show ?thesis
    using True assms(1) visited_classify [OF assms(1)]
    by (auto simp: inspected_def split: option.splits)
qed (use assms in \<open>auto simp: inspected_def same_frame_def\<close>)

lemma processPacket_refines:
  fixes rules :: "rule_manager option" and t1 t2 :: time_point
  assumes "tracker_inv (conn_tracker fp)" and "job_ok job"
  defines "r \<equiv> flow_step rules t2 job
    (case conn_at (conn_tracker fp) (job_tuple job) of
       None \<Rightarrow> new_connection (job_tuple job) t1 | Some c \<Rightarrow> c)"
  shows "\<exists>fp'. processPacket ns t1 t2 rules job fp = Inr (snd r, fp') \<and> same_frame fp fp' \<and>
    visits (job_tuple job) (conn_tracker fp) (conn_tracker fp') (fst r)"
proof -
  let ?k = "job_tuple job" and ?t = "conn_tracker fp"
  let ?c = "case conn_at ?t ?k of None \<Rightarrow> new_connection ?k t1 | Some c \<Rightarrow> c"
  let ?ct = "tracked t2 job ?c"
  define fp1 where "fp1 = set_tracker (updateConnection t2 (Some ?k) (length (job_data job)) True)
    (fp\<lparr>conn_tracker := acquire_conn ns t1 ?k ?t\<rparr>)"
  define fp2 where "fp2 = (if protocol ?k = TCP_PROTO
    then set_tracker (change_conn ?k (updateTCPState (job_flags job))) fp1 else fp1)"
  have v: "visits ?k ?t (conn_tracker fp2) ?ct"
    using visited_tracked [OF assms(1), where job = job and ?t1.0 = t1 and ?t2.0 = t2 and ns = ns]
    by (cases "protocol ?k = TCP_PROTO") (simp_all add: fp2_def fp1_def)
  have f: "same_frame fp fp2" by (simp add: fp2_def fp1_def set_tracker_def same_frame_def)
  have d: "deref fp2 (Some ?k) = Inr ?ct" using v by (simp add: deref_def visits_iff)
  have p: "processPacket ns t1 t2 rules job fp =
      (if conn_state ?ct = BLOCKED then Inr (DROP, fp2)
       else andThen (if conn_state ?ct \<noteq> CLASSIFIED \<and> payload_length job > 0
                     then inspectPayload job (Some ?k) fp2 else Inr fp2) (\<lambda>fp. checkRules rules job (Some ?k) fp))"
  proof -
    have "getOrCreateConnection ns t1 ?k ?t = (Some ?k, acquire_conn ns t1 ?k ?t)"
      by (simp add: acquire_conn_def prod_eq_iff)
    then show ?thesis
      by (simp only: processPacket_def Let_def prod.case option.case fp1_def [symmetric] fp2_def [symmetric] d
          andThen.simps)
  qed
  show ?thesis
  proof (cases "conn_state ?ct = BLOCKED")
    case True
    then show ?thesis using p v f by (simp add: r_def flow_step_def)
  next
    case False
    obtain fp3 where i: "(if conn_state ?ct \<noteq> CLASSIFIED \<and> payload_length job > 0
        then inspectPayload job (Some ?k) fp2 else Inr fp2) = Inr fp3" "same_frame fp2 fp3"
        "visits ?k ?t (conn_tracker fp3) (inspected job ?ct)"
      using inspect_result [OF v assms(2)] by blast
    obtain fp4 where "checkRules rules job (Some ?k) fp3 =
        Inr (if rule_hit rules job (inspected job ?ct) then DROP else FORWARD, fp4)" "same_frame fp3 fp4"
        "visits ?k ?t (conn_tracker fp4)
          (if rule_hit rules job (inspected job ?ct) then mark_blocked (inspected job ?ct) else inspected job ?ct)"
      using checkRules_result [OF i(3)] by blast
    then show ?thesis
      using p i(1) False same_frame_trans [OF f same_frame_trans [OF i(2)]]
      by (cases "rule_hit rules job (inspected job ?ct)") (simp_all add: r_def flow_step_def Let_def)
  qed
qed

section \<open>What a packet's processing guarantees\<close>

text \<open>C19: processing a packet whose payload lies in its data never faults, and is the specified
  step of its own flow: the decision and the new entry are those of \<open>flow_step\<close> on the
  entry the flow had, or on a fresh one. The table stays well formed, and an entry of any
  other flow is untouched unless it was evicted to make room.\<close>

theorem processPacket_correct:
  assumes "tracker_inv (conn_tracker fp)" and "job_ok job"
    and "flow_step rules t2 job (case conn_at (conn_tracker fp) (job_tuple job) of
           None \<Rightarrow> new_connection (job_tuple job) t1 | Some c \<Rightarrow> c) = (c', action)"
  shows "\<exists>fp'. processPacket ns t1 t2 rules job fp = Inr (action, fp') \<and>
    tracker_inv (conn_tracker fp') \<and> conn_at (conn_tracker fp') (job_tuple job) = Some c' \<and>
    (\<forall>k. k \<noteq> job_tuple job \<longrightarrow> conn_at (conn_tracker fp') k \<in> {conn_at (conn_tracker fp) k, None}) \<and>
    input_queue fp' = input_queue fp"
  using processPacket_refines [OF assms(1,2), where rules = rules and ?t1.0 = t1 and ?t2.0 = t2 and ns = ns] assms(3)
  by (auto simp: visits_iff same_frame_def)

definition job_of :: "five_tuple \<Rightarrow> u8 \<Rightarrow> bytes \<Rightarrow> packet_job" where
  "job_of t flags payload =
     \<lparr>packet_id = 0, job_tuple = t, job_data = replicate 54 0 @ payload, eth_offset = 0, ip_offset = 14,
      transport_offset = 34, payload_offset = 54, payload_length = length payload, job_flags = flags,
      payload_data = Some 54, job_ts_sec = 0, job_ts_usec = 0\<rparr>"

lemma job_of_simps [simp]:
  "job_tuple (job_of t flags payload) = t" "job_flags (job_of t flags payload) = flags"
  "payload_length (job_of t flags payload) = length payload" "payload_of (job_of t flags payload) = payload"
  by (simp_all add: job_of_def payload_of_def view_def)

lemma job_of_ok: "job_ok (job_of t flags payload)"
  by (simp add: job_ok_def job_of_def)

theorem processPacket_correct_witness:
  "\<exists>fp' c'. processPacket [] 1 2 (Some (blockPort 443 empty_rules)) (job_of (flow 1) SYN []) (new_fast_path 0) =
      Inr (DROP, fp') \<and> conn_at (conn_tracker fp') (flow 1) = Some c' \<and> conn_state c' = BLOCKED"
proof -
  let ?job = "job_of (flow 1) SYN []" and ?rules = "Some (blockPort 443 empty_rules)"
  let ?c = "new_connection (flow 1) 1"
  have st: "flow_step ?rules 2 ?job ?c = (fst (flow_step ?rules 2 ?job ?c), DROP)"
    "conn_state (fst (flow_step ?rules 2 ?job ?c)) = BLOCKED"
    by (simp_all add: flow_step_def tracked_def inspected_def Let_def rule_hit_def shouldBlock_def
        isIPBlocked_def isPortBlocked_def blockPort_def empty_rules_def mark_blocked_def job_of_def flow_def)
  have e: "(case conn_at (conn_tracker (new_fast_path 0)) (job_tuple ?job) of
      None \<Rightarrow> new_connection (job_tuple ?job) 1 | Some c \<Rightarrow> c) = ?c" "job_tuple ?job = flow 1"
    by (simp_all add: new_fast_path_def new_tracker_def job_of_def)
  have inv: "tracker_inv (conn_tracker (new_fast_path 0))"
    by (simp add: new_fast_path_def tracker_inv_new)
  obtain c' where c': "flow_step ?rules 2 ?job ?c = (c', DROP)" "conn_state c' = BLOCKED"
    using st by metis
  show ?thesis
    using processPacket_correct [OF inv job_of_ok, of ?rules 2 "flow 1" SYN "[]" 1 c' DROP "[]"] c' e by auto
qed

lemma inspected_state:
  "conn_state c \<noteq> BLOCKED \<Longrightarrow> conn_state (inspected job c) \<noteq> BLOCKED"
  by (auto simp: inspected_def classify_def split: option.split)

lemma rule_hit_blocked [simp]: "rule_hit rules job (mark_blocked c) = rule_hit rules job c"
  by (simp add: rule_hit_def mark_blocked_def split: option.split)

lemma flow_step_action:
  assumes "flow_step rules now job c = (c', action)"
  shows "action = (if conn_state c' = BLOCKED then DROP else FORWARD)"
    and "action = FORWARD \<Longrightarrow> \<not> rule_hit rules job c'"
    and "rules = Some rm \<Longrightarrow> isIPBlocked rm (src_ip (job_tuple job)) \<or> isPortBlocked rm (dst_port (job_tuple job)) \<Longrightarrow>
      action = DROP"
    and "action = DROP \<Longrightarrow> rule_hit rules job c' \<or> conn_state c = BLOCKED"
proof -
  have tb: "conn_state (tracked now job c) = BLOCKED \<Longrightarrow> conn_state c = BLOCKED"
    by (auto simp: tracked_def Let_def updateTCPState_state touch_def split: if_splits)
  have st: "conn_state (mark_blocked x) = BLOCKED" for x by (simp add: mark_blocked_def)
  have hit: "rule_hit (Some rm) job x"
    if "isIPBlocked rm (src_ip (job_tuple job)) \<or> isPortBlocked rm (dst_port (job_tuple job))" for x
    using that by (auto simp: rule_hit_def shouldBlock_def)
  show "action = (if conn_state c' = BLOCKED then DROP else FORWARD)"
    and "action = FORWARD \<Longrightarrow> \<not> rule_hit rules job c'"
    and "rules = Some rm \<Longrightarrow> isIPBlocked rm (src_ip (job_tuple job)) \<or> isPortBlocked rm (dst_port (job_tuple job)) \<Longrightarrow>
      action = DROP"
    and "action = DROP \<Longrightarrow> rule_hit rules job c' \<or> conn_state c = BLOCKED"
    using assms inspected_state [of "tracked now job c" job] st tb hit
    by (auto simp: flow_step_def Let_def split: if_splits)
qed

text \<open>The verdict on a packet is sound and the entry records it. A packet is dropped exactly
  when its flow is blocked after it, a forwarded packet is one to which no rule applies with
  what is then known of its flow, a packet from a blocked address or to a blocked port is
  always dropped, and a drop has a rule behind it or a flow that was blocked already.\<close>

theorem verdict_sound:
  assumes "tracker_inv (conn_tracker fp)" and "job_ok job"
    and "processPacket ns t1 t2 (Some rm) job fp = Inr (action, fp')"
  shows "\<exists>c'. conn_at (conn_tracker fp') (job_tuple job) = Some c' \<and>
    action = (if conn_state c' = BLOCKED then DROP else FORWARD) \<and>
    (action = FORWARD \<longrightarrow>
       shouldBlock rm (src_ip (job_tuple job)) (dst_port (job_tuple job)) (app_type c') (conn_sni c') = None) \<and>
    (isIPBlocked rm (src_ip (job_tuple job)) \<or> isPortBlocked rm (dst_port (job_tuple job)) \<longrightarrow> action = DROP) \<and>
    (action = DROP \<longrightarrow>
       shouldBlock rm (src_ip (job_tuple job)) (dst_port (job_tuple job)) (app_type c') (conn_sni c') \<noteq> None \<or>
       (\<exists>c. conn_at (conn_tracker fp) (job_tuple job) = Some c \<and> conn_state c = BLOCKED))"
proof -
  let ?c = "case conn_at (conn_tracker fp) (job_tuple job) of
    None \<Rightarrow> new_connection (job_tuple job) t1 | Some c \<Rightarrow> c"
  obtain c' a where r: "flow_step (Some rm) t2 job ?c = (c', a)" by (cases "flow_step (Some rm) t2 job ?c")
  have e: "a = action" "conn_at (conn_tracker fp') (job_tuple job) = Some c'"
    using processPacket_refines [OF assms(1,2), where rules = "Some rm" and ?t1.0 = t1 and ?t2.0 = t2 and ns = ns]
      assms(3) r by (auto simp: visits_iff)
  have old: "conn_state ?c = BLOCKED \<Longrightarrow>
      \<exists>c. conn_at (conn_tracker fp) (job_tuple job) = Some c \<and> conn_state c = BLOCKED"
    by (cases "conn_at (conn_tracker fp) (job_tuple job)") (simp_all add: new_connection_def)
  have hit: "rule_hit (Some rm) job c' \<longleftrightarrow>
      shouldBlock rm (src_ip (job_tuple job)) (dst_port (job_tuple job)) (app_type c') (conn_sni c') \<noteq> None"
    by (simp add: rule_hit_def)
  note verdict = flow_step_action [OF r [unfolded e(1)], unfolded hit]
  show ?thesis
    by (rule exI [of _ c'], intro conjI) (use e(2) verdict old in blast)+
qed

theorem verdict_sound_witness:
  "\<exists>action fp'. processPacket [] 1 2 (Some (blockIP 0x01000001 empty_rules))
      (job_of ((flow 1)\<lparr>src_ip := 0x01000001\<rparr>) SYN []) (new_fast_path 0) = Inr (action, fp') \<and> action = DROP"
proof -
  let ?rm = "blockIP 0x01000001 empty_rules" and ?job = "job_of ((flow 1)\<lparr>src_ip := 0x01000001\<rparr>) SYN []"
  have inv: "tracker_inv (conn_tracker (new_fast_path 0))"
    by (simp add: new_fast_path_def tracker_inv_new)
  obtain action fp' where e: "processPacket [] 1 2 (Some ?rm) ?job (new_fast_path 0) = Inr (action, fp')"
    using processPacket_refines [OF inv job_of_ok] by blast
  have "isIPBlocked ?rm (src_ip (job_tuple ?job))"
    by (simp add: isIPBlocked_def blockIP_def job_of_def empty_rules_def)
  then have "action = DROP" using verdict_sound [OF inv job_of_ok e] by blast
  then show ?thesis using e by blast
qed

section \<open>The TCP state machine\<close>

definition closing :: "u8 \<Rightarrow> connection \<Rightarrow> bool" where
  "closing flags c \<longleftrightarrow> flags AND RST \<noteq> 0 \<or> (fin_seen c \<or> flags AND FIN \<noteq> 0) \<and> flags AND ACK \<noteq> 0"

lemma tcp_state_closing:
  "conn_state (updateTCPState flags c) =
     (if closing flags c then CLOSED
      else if conn_state c = NEW \<and> syn_seen (updateTCPState flags c) \<and>
        syn_ack_seen (updateTCPState flags c) \<and> flags AND ACK \<noteq> 0 then ESTABLISHED
      else conn_state c)"
  by (simp add: updateTCPState_state updateTCPState_flags closing_def)

lemma fold_no_syn_ack:
  "\<forall>f \<in> set fs. f AND SYN = 0 \<or> f AND ACK = 0 \<Longrightarrow> \<not> syn_ack_seen c \<Longrightarrow> conn_state c \<noteq> ESTABLISHED \<Longrightarrow>
   \<not> syn_ack_seen (fold updateTCPState fs c) \<and> conn_state (fold updateTCPState fs c) \<noteq> ESTABLISHED"
proof (induction fs arbitrary: c)
  case (Cons f fs)
  then have "\<not> syn_ack_seen (updateTCPState f c)" by (auto simp: updateTCPState_flags)
  moreover from this have "conn_state (updateTCPState f c) \<noteq> ESTABLISHED"
    using Cons.prems(3) by (simp add: tcp_state_closing)
  ultimately show ?case using Cons by simp
qed simp

text \<open>The transitions of the TCP state machine, whatever the flags: a reset, or an acknowledgement
  once a FIN was seen, closes the flow from every state; a new flow is established by an
  acknowledgement once a SYN and a SYN-ACK were seen on it; nothing else changes the state,
  and the classification is never touched. Flags that never have SYN and ACK together, such
  as all those one side of a handshake sends, never establish a flow.\<close>

theorem tcp_transitions:
  "conn_state (updateTCPState flags c) =
     (if flags AND RST \<noteq> 0 \<or> (fin_seen c \<or> flags AND FIN \<noteq> 0) \<and> flags AND ACK \<noteq> 0 then CLOSED
      else if conn_state c = NEW \<and> flags AND ACK \<noteq> 0 \<and> syn_seen c \<and>
        (syn_ack_seen c \<or> flags AND SYN \<noteq> 0) then ESTABLISHED
      else conn_state c) \<and>
   app_type (updateTCPState flags c) = app_type c \<and> conn_sni (updateTCPState flags c) = conn_sni c \<and>
   ((\<forall>f \<in> set fs. f AND SYN = 0 \<or> f AND ACK = 0) \<longrightarrow>
     conn_state (fold updateTCPState fs (new_connection t now)) \<noteq> ESTABLISHED)"
proof -
  have "(\<forall>f \<in> set fs. f AND SYN = 0 \<or> f AND ACK = 0) \<longrightarrow>
      conn_state (fold updateTCPState fs (new_connection t now)) \<noteq> ESTABLISHED"
    using fold_no_syn_ack [of fs "new_connection t now"] by (simp add: new_connection_def)
  moreover have "conn_state (updateTCPState flags c) =
     (if flags AND RST \<noteq> 0 \<or> (fin_seen c \<or> flags AND FIN \<noteq> 0) \<and> flags AND ACK \<noteq> 0 then CLOSED
      else if conn_state c = NEW \<and> flags AND ACK \<noteq> 0 \<and> syn_seen c \<and>
        (syn_ack_seen c \<or> flags AND SYN \<noteq> 0) then ESTABLISHED
      else conn_state c)"
    unfolding tcp_state_closing closing_def updateTCPState_flags by auto
  ultimately show ?thesis by simp
qed

theorem tcp_transitions_witness:
  "conn_state (fold updateTCPState [SYN, ACK, ACK OR PSH] (new_connection (flow 1) 0)) \<noteq> ESTABLISHED"
proof -
  have "\<forall>f \<in> set [SYN, ACK, ACK OR PSH]. f AND SYN = 0 \<or> f AND ACK = 0"
    by (simp add: SYN_def ACK_def PSH_def)
  then show ?thesis
    using tcp_transitions [of 0 "new_connection (flow 1) 0" "[SYN, ACK, ACK OR PSH]" "flow 1" 0] by blast
qed

section \<open>How long a verdict lasts\<close>

lemma tracked_not_closing:
  assumes "protocol (job_tuple job) = TCP_PROTO \<longrightarrow> \<not> closing (job_flags job) c" and "conn_state c \<noteq> NEW"
  shows "conn_state (tracked now job c) = conn_state c" and "app_type (tracked now job c) = app_type c"
    and "conn_sni (tracked now job c) = conn_sni c"
  using assms by (auto simp: tracked_def Let_def tcp_state_closing touch_def closing_def)

text \<open>A verdict lasts until a TCP close. On a blocked flow every packet that is not a TCP close
  is dropped and leaves it blocked; a classified flow keeps its application and its name
  through every such packet, whatever the payload.\<close>

theorem verdict_lasts:
  assumes "tracker_inv (conn_tracker fp)" and "job_ok job"
    and "conn_at (conn_tracker fp) (job_tuple job) = Some c" and "conn_state c \<in> {BLOCKED, CLASSIFIED}"
    and "protocol (job_tuple job) = TCP_PROTO \<longrightarrow> \<not> closing (job_flags job) c"
  shows "\<exists>action fp' c'. processPacket ns t1 t2 rules job fp = Inr (action, fp') \<and>
    conn_at (conn_tracker fp') (job_tuple job) = Some c' \<and>
    app_type c' = app_type c \<and> conn_sni c' = conn_sni c \<and> conn_state c' \<in> {conn_state c, BLOCKED} \<and>
    (conn_state c = BLOCKED \<longrightarrow> action = DROP)"
proof -
  obtain c' a where r: "flow_step rules t2 job c = (c', a)" by (cases "flow_step rules t2 job c")
  have "conn_state c \<noteq> NEW" using assms(4) by auto
  note tr = tracked_not_closing [OF assms(5) this]
  have "app_type c' = app_type c" "conn_sni c' = conn_sni c" "conn_state c' \<in> {conn_state c, BLOCKED}"
    "conn_state c = BLOCKED \<longrightarrow> a = DROP"
    using r tr assms(4)
    by (auto simp: flow_step_def Let_def inspected_def mark_blocked_def split: if_splits)
  then show ?thesis
    using processPacket_refines [OF assms(1,2), where rules = rules and ?t1.0 = t1 and ?t2.0 = t2 and ns = ns]
      assms(3) r by (auto simp: visits_iff)
qed

definition blocked_flow :: connection where
  "blocked_flow = (new_connection (flow 1) 0)\<lparr>conn_state := BLOCKED, conn_action := DROP, app_type := TWITTER,
     conn_sni := ''x.com'', fin_seen := False\<rparr>"

definition blocked_worker :: fast_path where
  "blocked_worker =
     (new_fast_path 0)\<lparr>conn_tracker := (new_tracker 0 9)\<lparr>connections := [(flow 1, blocked_flow)]\<rparr>\<rparr>"

lemma blocked_flow_simps [simp]:
  "conn_state blocked_flow = BLOCKED" "fin_seen blocked_flow = False" "app_type blocked_flow = TWITTER"
  by (simp_all add: blocked_flow_def)

lemma blocked_worker_ok:
  "tracker_inv (conn_tracker blocked_worker)" "conn_at (conn_tracker blocked_worker) (flow 1) = Some blocked_flow"
  by (simp_all add: blocked_worker_def blocked_flow_def tracker_inv_def new_tracker_def new_connection_def)

theorem verdict_lasts_witness:
  "\<exists>fp'. processPacket [] 1 2 None (job_of (flow 1) ACK [1, 2, 3]) blocked_worker = Inr (DROP, fp')"
proof -
  have "\<not> closing ACK blocked_flow" by (simp add: closing_def ACK_def RST_def FIN_def)
  then show ?thesis
    using verdict_lasts [of blocked_worker "job_of (flow 1) ACK [1, 2, 3]" blocked_flow "[]" 1 2 None]
      blocked_worker_ok job_of_ok by auto
qed

text \<open>What a packet says of its flow, if anything.\<close>

definition job_class :: "packet_job \<Rightarrow> (AppType \<times> string) option" where
  "job_class j = (if 0 < payload_length j then payload_class (job_tuple j) (payload_of j) else None)"



section \<open>The worker's loop\<close>

lemma run_body_result:
  assumes "tracker_inv (conn_tracker fp)" and "\<forall>job. job_opt = Some job \<longrightarrow> job_ok job"
  shows "\<exists>out fp'. run_body ns t1 t2 rules job_opt fp = Inr (out, fp') \<and>
    tracker_inv (conn_tracker fp') \<and> map_option fst out = job_opt \<and>
    (\<forall>job action. out = Some (job, action) \<longrightarrow> action \<in> {FORWARD, DROP}) \<and>
    packets_processed fp' = packets_processed fp + (if job_opt = None then 0 else 1) \<and>
    packets_forwarded fp' = packets_forwarded fp + (if map_option snd out = Some FORWARD then 1 else 0) \<and>
    packets_dropped fp' = packets_dropped fp + (if map_option snd out = Some DROP then 1 else 0) \<and>
    input_queue fp' = input_queue fp \<and> fp_running fp' = fp_running fp"
proof (cases job_opt)
  case None
  then show ?thesis using assms(1) by (simp add: run_body_def set_tracker_def inv_cleanup)
next
  case (Some job)
  let ?fp = "fp\<lparr>packets_processed := packets_processed fp + 1\<rparr>"
  let ?c = "case conn_at (conn_tracker ?fp) (job_tuple job) of
    None \<Rightarrow> new_connection (job_tuple job) t1 | Some c \<Rightarrow> c"
  have ok: "tracker_inv (conn_tracker ?fp)" "job_ok job" using assms Some by simp_all
  obtain c' action where r: "flow_step rules t2 job ?c = (c', action)" by (cases "flow_step rules t2 job ?c")
  obtain fp1 where p: "processPacket ns t1 t2 rules job ?fp = Inr (action, fp1)" "same_frame ?fp fp1"
      "tracker_inv (conn_tracker fp1)"
    using processPacket_refines [OF ok, where rules = rules and ?t1.0 = t1 and ?t2.0 = t2 and ns = ns] r
    by (auto simp: visits_iff)
  have a: "action \<in> {FORWARD, DROP}" using flow_step_action(1) [OF r] by auto
  show ?thesis
    using Some p a by (auto simp: run_body_def Let_def same_frame_def)
qed

text \<open>What the rules alone say of a packet, whatever is known of its flow.\<close>

definition permits :: "rule_manager option \<Rightarrow> packet_job \<Rightarrow> bool" where
  "permits rules job \<longleftrightarrow>
     (case rules of None \<Rightarrow> True
      | Some rm \<Rightarrow> \<not> isIPBlocked rm (src_ip (job_tuple job)) \<and> \<not> isPortBlocked rm (dst_port (job_tuple job)))"

text \<open>The rules have something against a tuple, for some application and server name.\<close>

definition may_block :: "rule_manager option \<Rightarrow> five_tuple \<Rightarrow> bool" where
  "may_block rules k \<longleftrightarrow>
     (\<exists>rm app sni. rules = Some rm \<and> shouldBlock rm (src_ip k) (dst_port k) app sni \<noteq> None)"

definition addresses_only :: "rule_manager option \<Rightarrow> bool" where
  "addresses_only rules \<longleftrightarrow>
     (case rules of None \<Rightarrow> True
      | Some rm \<Rightarrow> blocked_apps rm = [] \<and> blocked_domains rm = [] \<and> domain_patterns rm = [])"

lemma may_block_addresses: "addresses_only rules \<Longrightarrow> may_block rules (job_tuple j) \<longleftrightarrow> \<not> permits rules j"
  by (auto simp: addresses_only_def may_block_def permits_def shouldBlock_def isAppBlocked_def isDomainBlocked_def
      split: option.splits)

text \<open>The blocked flows of a table are flows there is something against: \<open>P\<close>.\<close>

definition accounted :: "(five_tuple \<Rightarrow> bool) \<Rightarrow> tracker \<Rightarrow> bool" where
  "accounted P t \<longleftrightarrow> (\<forall>k c. conn_at t k = Some c \<longrightarrow> conn_state c = BLOCKED \<longrightarrow> P k)"

lemma accounted_mono:
  "accounted P t \<Longrightarrow> (\<And>k. conn_at t' k \<in> {conn_at t k, None}) \<Longrightarrow> accounted P t'"
  unfolding accounted_def by (metis insertE option.distinct(1) singletonD)

text \<open>A packet's round in terms of the specification.\<close>

lemma run_body_step:
  assumes "tracker_inv (conn_tracker fp)" and "job_ok job"
    and "run_body ns t1 t2 rules (Some job) fp = Inr (out, fp')"
  obtains c' action where
    "flow_step rules t2 job (case conn_at (conn_tracker fp) (job_tuple job) of
       None \<Rightarrow> new_connection (job_tuple job) t1 | Some c \<Rightarrow> c) = (c', action)"
    "out = Some (job, action)" "visits (job_tuple job) (conn_tracker fp) (conn_tracker fp') c'"
proof -
  let ?fp = "fp\<lparr>packets_processed := packets_processed fp + 1\<rparr>"
  let ?c = "case conn_at (conn_tracker fp) (job_tuple job) of
    None \<Rightarrow> new_connection (job_tuple job) t1 | Some c \<Rightarrow> c"
  obtain c' action where r: "flow_step rules t2 job ?c = (c', action)" by (cases "flow_step rules t2 job ?c")
  have "tracker_inv (conn_tracker ?fp)" using assms(1) by simp
  then obtain fp1 where p: "processPacket ns t1 t2 rules job ?fp = Inr (action, fp1)"
      "visits (job_tuple job) (conn_tracker fp) (conn_tracker fp1) c'"
    using processPacket_refines [OF _ assms(2), of ?fp, where rules = rules and ?t1.0 = t1 and ?t2.0 = t2 and ns = ns] r
    by auto
  have "out = Some (job, action)" "conn_tracker fp' = conn_tracker fp1"
    using assms(3) p(1) by (auto simp: run_body_def Let_def)
  then show thesis using that [OF r] p(2) by simp
qed

lemma run_body_permits:
  assumes "tracker_inv (conn_tracker fp)" and "job_ok job"
    and "run_body ns t1 t2 rules (Some job) fp = Inr (Some (j, action), fp')" and "action \<noteq> DROP"
  shows "j = job \<and> permits rules job"
proof (rule run_body_step [OF assms(1-3)])
  fix c' a
  assume r: "flow_step rules t2 job (case conn_at (conn_tracker fp) (job_tuple job) of
       None \<Rightarrow> new_connection (job_tuple job) t1 | Some c \<Rightarrow> c) = (c', a)" and o: "Some (j, action) = Some (job, a)"
  have "rules = Some rm \<Longrightarrow>
      \<not> (isIPBlocked rm (src_ip (job_tuple job)) \<or> isPortBlocked rm (dst_port (job_tuple job)))" for rm
    using flow_step_action(3) [OF r] o assms(4) by blast
  then show ?thesis using o by (cases rules) (auto simp: permits_def)
qed

lemma run_body_accounted:
  assumes "tracker_inv (conn_tracker fp)" and "\<forall>job. job_opt = Some job \<longrightarrow> job_ok job"
    and "accounted P (conn_tracker fp)" and "\<And>k. may_block rules k \<Longrightarrow> P k"
    and "run_body ns t1 t2 rules job_opt fp = Inr (out, fp')"
  shows "accounted P (conn_tracker fp') \<and> (\<forall>j. out = Some (j, DROP) \<longrightarrow> P (job_tuple j))"
proof (cases job_opt)
  case None
  then have "conn_tracker fp' = snd (cleanupStale 300 t1 (conn_tracker fp))" "out = None"
    using assms(5) by (auto simp: run_body_def)
  then show ?thesis
    using accounted_mono [OF assms(3) conn_at_cleanup [OF assms(1), of 300 t1]] by simp_all
next
  case (Some job)
  let ?c = "case conn_at (conn_tracker fp) (job_tuple job) of
    None \<Rightarrow> new_connection (job_tuple job) t1 | Some c \<Rightarrow> c"
  have ok: "job_ok job" using assms(2) Some by simp
  have c: "conn_state ?c = BLOCKED \<Longrightarrow> P (job_tuple job)"
    using assms(3) by (auto simp: accounted_def new_connection_def split: option.splits)
  have hit: "rule_hit rules job x \<Longrightarrow> P (job_tuple job)" for x
    using assms(4) [of "job_tuple job"] by (auto simp: rule_hit_def may_block_def split: option.splits)
  show ?thesis
  proof (rule run_body_step [OF assms(1) ok assms(5) [unfolded Some]])
    fix c' a
    assume r: "flow_step rules t2 job ?c = (c', a)" and o: "out = Some (job, a)"
      and v: "visits (job_tuple job) (conn_tracker fp) (conn_tracker fp') c'"
    have d: "a = DROP \<Longrightarrow> P (job_tuple job)"
      using flow_step_action(4) [OF r] hit c by blast
    then have "conn_state c' = BLOCKED \<Longrightarrow> P (job_tuple job)"
      using flow_step_action(1) [OF r] by simp
    then have "accounted P (conn_tracker fp')"
      using v assms(3) unfolding visits_iff accounted_def
      by (metis insertE option.distinct(1) option.inject singletonD)
    then show ?thesis using o d by blast
  qed
qed

text \<open>The loop over a sequence of wake-ups, each with its iteration order, clock readings and job.\<close>

fun run_loop ::
  "rule_manager option \<Rightarrow> (nat list \<times> time_point \<times> time_point \<times> packet_job option) list \<Rightarrow> fast_path \<Rightarrow>
    ((packet_job \<times> PacketAction) list \<times> fast_path) res" where
  "run_loop rules [] fp = Inr ([], fp)"
| "run_loop rules ((ns, t1, t2, job_opt) # ws) fp =
     andThen (run_body ns t1 t2 rules job_opt fp) (\<lambda>(out, fp).
     andThen (run_loop rules ws fp) (\<lambda>(outs, fp).
     Inr ((case out of None \<Rightarrow> outs | Some r \<Rightarrow> r # outs), fp)))"

definition wake_jobs :: "(nat list \<times> time_point \<times> time_point \<times> packet_job option) list \<Rightarrow> packet_job list" where
  "wake_jobs ws = concat (map (\<lambda>(ns, t1, t2, job_opt). case job_opt of None \<Rightarrow> [] | Some job \<Rightarrow> [job]) ws)"

lemma run_loop_result:
  assumes "tracker_inv (conn_tracker fp)" and "\<forall>job \<in> set (wake_jobs ws). job_ok job"
  shows "\<exists>outs fp'. run_loop rules ws fp = Inr (outs, fp') \<and> tracker_inv (conn_tracker fp') \<and>
    map fst outs = wake_jobs ws \<and> (\<forall>(job, action) \<in> set outs. action \<in> {FORWARD, DROP}) \<and>
    packets_processed fp' = packets_processed fp + word_of_nat (length outs) \<and>
    packets_forwarded fp' = packets_forwarded fp + word_of_nat (count_list (map snd outs) FORWARD) \<and>
    packets_dropped fp' = packets_dropped fp + word_of_nat (count_list (map snd outs) DROP)"
  using assms
proof (induction ws arbitrary: fp)
  case Nil
  then show ?case by (simp add: wake_jobs_def)
next
  case (Cons w ws)
  obtain ns t1 t2 job_opt where w: "w = (ns, t1, t2, job_opt)" by (cases w)
  have wj: "wake_jobs (w # ws) = (case job_opt of None \<Rightarrow> [] | Some job \<Rightarrow> [job]) @ wake_jobs ws"
    by (simp add: wake_jobs_def w)
  have ok: "\<forall>job. job_opt = Some job \<longrightarrow> job_ok job" "\<forall>job \<in> set (wake_jobs ws). job_ok job"
    using Cons.prems(2) wj by auto
  obtain out fp1 where b: "run_body ns t1 t2 rules job_opt fp = Inr (out, fp1)"
      "tracker_inv (conn_tracker fp1)" "map_option fst out = job_opt"
      "\<forall>job action. out = Some (job, action) \<longrightarrow> action \<in> {FORWARD, DROP}"
      "packets_processed fp1 = packets_processed fp + (if job_opt = None then 0 else 1)"
      "packets_forwarded fp1 = packets_forwarded fp + (if map_option snd out = Some FORWARD then 1 else 0)"
      "packets_dropped fp1 = packets_dropped fp + (if map_option snd out = Some DROP then 1 else 0)"
    using run_body_result [OF Cons.prems(1) ok(1), of ns t1 t2 rules] by blast
  obtain outs fp2 where l: "run_loop rules ws fp1 = Inr (outs, fp2)" "tracker_inv (conn_tracker fp2)"
      "map fst outs = wake_jobs ws" "\<forall>(job, action) \<in> set outs. action \<in> {FORWARD, DROP}"
      "packets_processed fp2 = packets_processed fp1 + word_of_nat (length outs)"
      "packets_forwarded fp2 = packets_forwarded fp1 + word_of_nat (count_list (map snd outs) FORWARD)"
      "packets_dropped fp2 = packets_dropped fp1 + word_of_nat (count_list (map snd outs) DROP)"
    using Cons.IH [OF b(2) ok(2)] by blast
  show ?case
  proof (cases out)
    case None
    then show ?thesis using b l wj w by (auto simp: map_option_is_None)
  next
    case (Some r)
    obtain job action where r: "r = (job, action)" by (cases r)
    have run: "run_loop rules (w # ws) fp = Inr (r # outs, fp2)"
      using Some by (simp add: w b(1) l(1))
    have "job_opt = Some job" using b(3) Some r by simp
    then have "map fst (r # outs) = wake_jobs (w # ws)" using wj l(3) r by simp
    moreover have "action = FORWARD \<or> action = DROP" using b(4) Some r by simp
    then have "packets_forwarded fp2 = packets_forwarded fp + word_of_nat (count_list (map snd (r # outs)) FORWARD)"
      "packets_dropped fp2 = packets_dropped fp + word_of_nat (count_list (map snd (r # outs)) DROP)"
      "\<forall>(job, action) \<in> set (r # outs). action \<in> {FORWARD, DROP}"
      using l(4,6,7) b(6,7) Some r by auto
    moreover have "packets_processed fp2 = packets_processed fp + word_of_nat (length (r # outs))"
      using l(5) b(5) \<open>job_opt = Some job\<close> by simp
    ultimately show ?thesis using run l(2) by blast
  qed
qed

lemma count_verdicts:
  "\<forall>(job, action) \<in> set outs. action \<in> {FORWARD, DROP} \<Longrightarrow>
   count_list (map snd outs) FORWARD + count_list (map snd outs) DROP = length outs"
  by (induction outs) auto

text \<open>A worker that is started and handed any sequence of jobs never faults, gives exactly one
  verdict for each job, in order, forward or drop, and its three counters are the numbers
  of those verdicts, so that processed is forwarded plus dropped (modulo \<open>2 ^ 64\<close>).\<close>

theorem worker_accounts_for_every_packet:
  assumes "\<forall>job \<in> set (wake_jobs ws). job_ok job"
  shows "\<exists>outs fp. run_loop rules ws (new_fast_path i) = Inr (outs, fp) \<and> map fst outs = wake_jobs ws \<and>
    (\<forall>(job, action) \<in> set outs. action \<in> {FORWARD, DROP}) \<and>
    packets_processed fp = word_of_nat (length outs) \<and>
    packets_forwarded fp = word_of_nat (count_list (map snd outs) FORWARD) \<and>
    packets_dropped fp = word_of_nat (count_list (map snd outs) DROP) \<and>
    packets_processed fp = packets_forwarded fp + packets_dropped fp"
proof -
  have inv: "tracker_inv (conn_tracker (new_fast_path i))" by (simp add: new_fast_path_def tracker_inv_new)
  have zero: "packets_processed (new_fast_path i) = 0" "packets_forwarded (new_fast_path i) = 0"
    "packets_dropped (new_fast_path i) = 0" by (simp_all add: new_fast_path_def)
  obtain outs fp where r: "run_loop rules ws (new_fast_path i) = Inr (outs, fp)" "map fst outs = wake_jobs ws"
      "\<forall>(job, action) \<in> set outs. action \<in> {FORWARD, DROP}"
      "packets_processed fp = word_of_nat (length outs)"
      "packets_forwarded fp = word_of_nat (count_list (map snd outs) FORWARD)"
      "packets_dropped fp = word_of_nat (count_list (map snd outs) DROP)"
    using run_loop_result [OF inv assms, of rules] zero by auto
  moreover have "packets_processed fp = packets_forwarded fp + packets_dropped fp"
    unfolding r(4-6) count_verdicts [OF r(3), symmetric] by simp
  ultimately show ?thesis by blast
qed

theorem worker_accounts_for_every_packet_witness:
  "\<exists>outs fp. run_loop None [([], 1, 2, Some (job_of (flow 1) SYN [])), ([], 3, 3, None)] (new_fast_path 0) =
      Inr (outs, fp) \<and> packets_processed fp = 1"
  using worker_accounts_for_every_packet [of "[([], 1, 2, Some (job_of (flow 1) SYN [])), ([], 3, 3, None)]" None 0]
    job_of_ok [of "flow 1" SYN "[]"]
  by (auto simp: wake_jobs_def)

end
