(* ===== verification/Dpi_Engine.thy ===== *)
theory Dpi_Engine
  imports Pcap_Reader Load_Balancer Fast_Path
begin

text \<open>
  \<open>include/dpi_engine.h\<close> and \<open>src/dpi_engine.cpp\<close>: the engine that owns the parts, the
  reader thread's work on each packet, and the output file. The text of a rule file that can
  be opened is given by \<open>rule_files\<close>. The threads and the order they run in are the subject
  of \<open>Pipeline\<close>, the texts it prints that of \<open>Reports\<close>.
\<close>

section \<open>Configuration and parts\<close>

record config =
  num_load_balancers :: int
  cfg_fps_per_lb :: int
  cfg_queue_size :: nat
  rules_file :: string
  verbose :: bool

definition default_config :: config where
  "default_config =
     \<lparr>num_load_balancers = 2, cfg_fps_per_lb = 2, cfg_queue_size = 10000, rules_file = [], verbose = False\<rparr>"

text \<open>An \<open>ofstream\<close> in binary mode: the bytes written so far.\<close>

record ofstream =
  out_open :: bool
  out_bytes :: bytes
  out_good :: bool

definition ofs_write :: "bytes \<Rightarrow> ofstream \<Rightarrow> ofstream" where
  "ofs_write bs f = (if out_good f then f\<lparr>out_bytes := out_bytes f @ bs\<rparr> else f)"

record engine =
  cfg :: config
  rule_mgr :: "rule_manager option"
  fps :: "fast_path list"
  lb_mgr :: "lb_manager option"
  conn_table :: "nat option list"
  output_queue :: "packet_job tsq"
  output_file :: ofstream
  stats :: dpi_stats
  running :: bool
  processing_complete :: bool

definition new_engine :: "config \<Rightarrow> engine" where
  "new_engine c =
     \<lparr>cfg = c, rule_mgr = None, fps = [], lb_mgr = None, conn_table = [], output_queue = new_queue 10000,
      output_file = \<lparr>out_open = False, out_bytes = [], out_good = True\<rparr>, stats = initial_stats,
      running = False, processing_complete = False\<rparr>"

definition int_mult :: "int \<Rightarrow> int \<Rightarrow> int res" where
  "int_mult a b =
     (if - 2147483648 \<le> a * b \<and> a * b \<le> 2147483647 then Inr (a * b) else Inl Signed_Overflow)"

fun register_all :: "int list \<Rightarrow> nat option list \<Rightarrow> nat option list res" where
  "register_all [] tab = Inr tab"
| "register_all (i # is) tab = andThen (registerTracker i (Some (nat i)) tab) (register_all is)"

text \<open>A negative \<open>total_fps\<close> is a huge \<open>size_t\<close> for the connection table.\<close>

definition initialize :: "(string \<Rightarrow> string option) \<Rightarrow> engine \<Rightarrow> (bool \<times> engine) res" where
  "initialize rule_files e =
     andThen
       (if rules_file (cfg e) \<noteq> []
        then andThen (loadRules (rule_files (rules_file (cfg e))) empty_rules) (\<lambda>(ok, rm). Inr rm)
        else Inr empty_rules) (\<lambda>rm.
     andThen (int_mult (num_load_balancers (cfg e)) (cfg_fps_per_lb (cfg e))) (\<lambda>total_fps.
     let workers = new_fps total_fps;
         lbm = new_lb_manager (num_load_balancers (cfg e)) (cfg_fps_per_lb (cfg e)) [0..<length workers]
     in if total_fps < 0 then Inl Length_Error
        else andThen (register_all [0..total_fps - 1] (new_table (nat total_fps))) (\<lambda>tab.
        Inr (True, e\<lparr>rule_mgr := Some rm, fps := workers, lb_mgr := Some lbm, conn_table := tab\<rparr>))))"

section \<open>Rules through the engine\<close>

definition with_rules :: "(rule_manager \<Rightarrow> rule_manager) \<Rightarrow> engine \<Rightarrow> engine" where
  "with_rules f e = e\<lparr>rule_mgr := map_option f (rule_mgr e)\<rparr>"

definition with_rules_res :: "(rule_manager \<Rightarrow> rule_manager res) \<Rightarrow> engine \<Rightarrow> engine res" where
  "with_rules_res f e =
     (case rule_mgr e of None \<Rightarrow> Inr e | Some rm \<Rightarrow> andThen (f rm) (\<lambda>rm. Inr (e\<lparr>rule_mgr := Some rm\<rparr>)))"

definition engine_blockIP :: "string \<Rightarrow> engine \<Rightarrow> engine res" where
  "engine_blockIP ip = with_rules_res (blockIP_str ip)"

definition engine_unblockIP :: "string \<Rightarrow> engine \<Rightarrow> engine res" where
  "engine_unblockIP ip = with_rules_res (unblockIP_str ip)"

definition engine_blockApp :: "AppType \<Rightarrow> engine \<Rightarrow> engine" where
  "engine_blockApp app = with_rules (blockApp app)"

definition engine_blockApp_name :: "string \<Rightarrow> engine \<Rightarrow> engine" where
  "engine_blockApp_name name e =
     (case find_app name of None \<Rightarrow> e | Some app \<Rightarrow> engine_blockApp app e)"

definition engine_unblockApp :: "AppType \<Rightarrow> engine \<Rightarrow> engine" where
  "engine_unblockApp app = with_rules (unblockApp app)"

definition engine_unblockApp_name :: "string \<Rightarrow> engine \<Rightarrow> engine" where
  "engine_unblockApp_name name e =
     (case find_app name of None \<Rightarrow> e | Some app \<Rightarrow> engine_unblockApp app e)"

definition engine_blockDomain :: "string \<Rightarrow> engine \<Rightarrow> engine" where
  "engine_blockDomain d = with_rules (blockDomain d)"

definition engine_unblockDomain :: "string \<Rightarrow> engine \<Rightarrow> engine" where
  "engine_unblockDomain d = with_rules (unblockDomain d)"

definition engine_loadRules :: "string option \<Rightarrow> engine \<Rightarrow> (bool \<times> engine) res" where
  "engine_loadRules text e =
     (case rule_mgr e of None \<Rightarrow> Inr (False, e)
      | Some rm \<Rightarrow> andThen (loadRules text rm) (\<lambda>(ok, rm). Inr (ok, e\<lparr>rule_mgr := Some rm\<rparr>)))"

text \<open>\<open>None\<close>: the call returns false; otherwise the text written to the file.\<close>

definition engine_saveRules ::
  "bool \<Rightarrow> nat list \<Rightarrow> nat list \<Rightarrow> nat list \<Rightarrow> nat list \<Rightarrow> engine \<Rightarrow> string option" where
  "engine_saveRules can_open ni na nd np e =
     (case rule_mgr e of None \<Rightarrow> None | Some rm \<Rightarrow> saveRules can_open ni na nd np rm)"

section \<open>A packet becomes a job\<close>

text \<open>The local \<open>parseIP\<close> of \<open>createPacketJob\<close> is the loop of \<open>RuleManager::parseIP\<close>.\<close>

definition job_parseIP :: "string \<Rightarrow> u32 res" where
  "job_parseIP ip = parseIP_loop ip 0 0 0"

definition set_job_payload :: "packet_job \<Rightarrow> packet_job" where
  "set_job_payload job =
     (if payload_offset job < length (job_data job)
      then job\<lparr>payload_length := length (job_data job) - payload_offset job,
               payload_data := Some (payload_offset job)\<rparr>
      else job)"

definition createPacketJob :: "raw_packet \<Rightarrow> parsed_packet \<Rightarrow> u32 \<Rightarrow> packet_job res" where
  "createPacketJob raw parsed i =
     andThen (job_parseIP (src_ip_str parsed)) (\<lambda>sip.
     andThen (job_parseIP (dest_ip_str parsed)) (\<lambda>dip.
     let data = raw_data raw;
         job = \<lparr>packet_id = i,
                job_tuple = \<lparr>src_ip = sip, dst_ip = dip, src_port = l4_src_port parsed,
                             dst_port = l4_dest_port parsed, protocol = ip_protocol parsed\<rparr>,
                job_data = data, eth_offset = 0, ip_offset = 14, transport_offset = 0,
                payload_offset = 0, payload_length = 0, job_flags = tcp_flags parsed,
                payload_data = None, job_ts_sec = ts_sec (header raw), job_ts_usec = ts_usec (header raw)\<rparr>
     in if length data > 14 then
          andThen (rd data 14) (\<lambda>b.
          let ip_header_len = unat (b AND 0x0F) * 4;
              job = job\<lparr>transport_offset := 14 + ip_header_len\<rparr>
          in andThen
               (if has_tcp parsed \<and> length data > transport_offset job
                then andThen (rd data (int (transport_offset job + 12))) (\<lambda>t.
                  Inr (job\<lparr>payload_offset := transport_offset job + unat (drop_bit 4 t AND 0x0F) * 4\<rparr>))
                else if has_udp parsed then Inr (job\<lparr>payload_offset := transport_offset job + 8\<rparr>)
                else Inr job) (\<lambda>job. Inr (set_job_payload job)))
        else Inr job))"

section \<open>The reader thread\<close>

definition count_packet :: "raw_packet \<Rightarrow> parsed_packet \<Rightarrow> dpi_stats \<Rightarrow> dpi_stats" where
  "count_packet raw parsed st =
     (let st = st\<lparr>total_packets := total_packets st + 1,
                  total_bytes := total_bytes st + word_of_nat (length (raw_data raw))\<rparr>
      in if has_tcp parsed then st\<lparr>tcp_packets := tcp_packets st + 1\<rparr>
         else if has_udp parsed then st\<lparr>udp_packets := udp_packets st + 1\<rparr> else st)"

text \<open>One round of the loop: the job to be pushed, if the packet is not skipped.\<close>

definition reader_packet ::
  "bool \<Rightarrow> raw_packet \<Rightarrow> u32 \<Rightarrow> dpi_stats \<Rightarrow> (packet_job option \<times> u32 \<times> dpi_stats) res" where
  "reader_packet le raw i st =
     andThen (parse le raw) (\<lambda>(ok, parsed).
     if \<not> ok then Inr (None, i, st)
     else if \<not> has_ip parsed \<or> (\<not> has_tcp parsed \<and> \<not> has_udp parsed) then Inr (None, i, st)
     else andThen (createPacketJob raw parsed i) (\<lambda>job.
       Inr (Some job, i + 1, count_packet raw parsed st)))"

fun reader_loop :: "bool \<Rightarrow> raw_packet list \<Rightarrow> u32 \<Rightarrow> dpi_stats \<Rightarrow> (packet_job list \<times> u32 \<times> dpi_stats) res" where
  "reader_loop le [] i st = Inr ([], i, st)"
| "reader_loop le (raw # raws) i st =
     andThen (reader_packet le raw i st) (\<lambda>(job, i, st).
     andThen (reader_loop le raws i st) (\<lambda>(jobs, i, st).
       Inr ((case job of None \<Rightarrow> jobs | Some j \<Rightarrow> j # jobs), i, st)))"

section \<open>The output\<close>

text \<open>\<open>handleOutput\<close> up to its push: what it counts, and the job it pushes.\<close>

definition handleOutput :: "packet_job \<Rightarrow> PacketAction \<Rightarrow> dpi_stats \<Rightarrow> packet_job option \<times> dpi_stats" where
  "handleOutput job action st =
     (if action = DROP then (None, st\<lparr>dropped_packets := dropped_packets st + 1\<rparr>)
      else (Some job, st\<lparr>forwarded_packets := forwarded_packets st + 1\<rparr>))"

definition writeOutputHeader :: "bool \<Rightarrow> pcap_global_header \<Rightarrow> ofstream \<Rightarrow> bool \<times> ofstream" where
  "writeOutputHeader le h f =
     (if \<not> out_open f then (False, f)
      else let f = ofs_write (encode_global le h) f in (out_good f, f))"

definition writeOutputPacket :: "bool \<Rightarrow> packet_job \<Rightarrow> ofstream \<Rightarrow> ofstream" where
  "writeOutputPacket le job f =
     (if \<not> out_open f then f
      else
        let pkt_header = \<lparr>ts_sec = job_ts_sec job, ts_usec = job_ts_usec job,
              incl_len = word_of_nat (length (job_data job)), orig_len = word_of_nat (length (job_data job))\<rparr>
        in ofs_write (job_data job) (ofs_write (encode_packet_header le pkt_header) f))"

text \<open>
  The reader thread as a whole: what it writes to the output file before its first packet, and
  the jobs it makes, in order. When the input cannot be opened it writes and makes nothing.
\<close>

definition readerThreadFunc ::
  "bool \<Rightarrow> (string \<Rightarrow> bytes option) \<Rightarrow> string \<Rightarrow> pcap_reader \<Rightarrow> raw_packet \<Rightarrow> ofstream \<Rightarrow> dpi_stats \<Rightarrow>
    (packet_job list \<times> ofstream \<times> dpi_stats) res" where
  "readerThreadFunc le fs input_file reader raw out st =
     (let (ok, reader) = pcap_open le fs input_file reader
      in if \<not> ok then Inr ([], out, st)
         else
           let (ok, out) = writeOutputHeader le (global_header reader) out
           in andThen (reader_loop le (read_packets le reader raw) 0 st) (\<lambda>(jobs, i, st).
              Inr (jobs, out, st)))"

section \<open>Jobs are what the parser saw\<close>

lemma job_parseIP_ipToString: "job_parseIP (ipToString ip) = Inr ip"
  using parseIP_ipToString [of ip]
  by (simp add: job_parseIP_def parseIP_def ipToString_def rm_ipToString_def)

definition flow_frame :: "raw_packet \<Rightarrow> bool" where
  "flow_frame raw \<longleftrightarrow> tcp_frame (raw_data raw) \<or> udp_frame (raw_data raw)"

text \<open>The job of a TCP or UDP frame, from its bytes alone.\<close>

definition frame_job :: "bool \<Rightarrow> raw_packet \<Rightarrow> u32 \<Rightarrow> packet_job" where
  "frame_job le raw i =
     (let d = raw_data raw; t = l4_off d; ps = payload_start d in
      \<lparr>packet_id = i,
       job_tuple = \<lparr>src_ip = load32 le (d ! 26) (d ! 27) (d ! 28) (d ! 29),
                    dst_ip = load32 le (d ! 30) (d ! 31) (d ! 32) (d ! 33),
                    src_port = be16 (d ! t) (d ! (t + 1)), dst_port = be16 (d ! (t + 2)) (d ! (t + 3)),
                    protocol = d ! 23\<rparr>,
       job_data = d, eth_offset = 0, ip_offset = 14, transport_offset = t, payload_offset = ps,
       payload_length = length d - ps, job_flags = (if tcp_frame d then d ! (t + 13) else 0),
       payload_data = (if ps < length d then Some ps else None),
       job_ts_sec = ts_sec (header raw), job_ts_usec = ts_usec (header raw)\<rparr>)"

lemma createPacketJob_tcp:
  assumes t: "tcp_frame (raw_data raw)"
    and p: "src_ip_str p = ipToString a" "dest_ip_str p = ipToString b" "has_tcp p" "\<not> has_udp p"
  shows "createPacketJob raw p i =
    Inr (set_job_payload \<lparr>packet_id = i, job_tuple = \<lparr>src_ip = a, dst_ip = b, src_port = l4_src_port p,
        dst_port = l4_dest_port p, protocol = ip_protocol p\<rparr>, job_data = raw_data raw, eth_offset = 0,
      ip_offset = 14, transport_offset = l4_off (raw_data raw), payload_offset = payload_start (raw_data raw),
      payload_length = 0, job_flags = tcp_flags p, payload_data = None,
      job_ts_sec = ts_sec (header raw), job_ts_usec = ts_usec (header raw)\<rparr>)"
proof -
  let ?d = "raw_data raw"
  have len: "14 < length ?d" "l4_off ?d + 12 < length ?d" "l4_off ?d < length ?d" and pr: "?d ! 23 = TCP_PROTO"
    using t by (auto simp: frame_defs)
  have r: "rd ?d 14 = Inr (?d ! 14)" "rd ?d (int (l4_off ?d + 12)) = Inr (?d ! (l4_off ?d + 12))"
    using rd_nth [OF len(1)] rd_nth [OF len(2)] by simp_all
  have o: "14 + unat (?d ! 14 AND 0x0F) * 4 = l4_off ?d" by (simp add: l4_off_def l3_len_def)
  show ?thesis
    using len p r o pr
    by (simp add: createPacketJob_def Let_def job_parseIP_ipToString payload_start_def tcp_len_def)
qed

lemma createPacketJob_udp:
  assumes t: "udp_frame (raw_data raw)"
    and p: "src_ip_str p = ipToString a" "dest_ip_str p = ipToString b" "\<not> has_tcp p" "has_udp p"
  shows "createPacketJob raw p i =
    Inr (set_job_payload \<lparr>packet_id = i, job_tuple = \<lparr>src_ip = a, dst_ip = b, src_port = l4_src_port p,
        dst_port = l4_dest_port p, protocol = ip_protocol p\<rparr>, job_data = raw_data raw, eth_offset = 0,
      ip_offset = 14, transport_offset = l4_off (raw_data raw), payload_offset = payload_start (raw_data raw),
      payload_length = 0, job_flags = tcp_flags p, payload_data = None,
      job_ts_sec = ts_sec (header raw), job_ts_usec = ts_usec (header raw)\<rparr>)"
proof -
  let ?d = "raw_data raw"
  have len: "14 < length ?d" and pr: "?d ! 23 \<noteq> TCP_PROTO"
    using t ports_distinct by (auto simp: frame_defs)
  have r: "rd ?d 14 = Inr (?d ! 14)" using rd_nth [OF len] by simp
  have o: "14 + unat (?d ! 14 AND 0x0F) * 4 = l4_off ?d" "22 + unat (?d ! 14 AND 0x0F) * 4 = l4_off ?d + 8"
    by (simp_all add: l4_off_def l3_len_def)
  show ?thesis
    using len p r pr
    by (simp add: createPacketJob_def Let_def job_parseIP_ipToString payload_start_def o)
qed

lemma set_job_payload_eq:
  "payload_length job = 0 \<Longrightarrow> payload_data job = None \<Longrightarrow>
   set_job_payload job =
     job\<lparr>payload_length := length (job_data job) - payload_offset job,
         payload_data := (if payload_offset job < length (job_data job) then Some (payload_offset job) else None)\<rparr>"
  by (auto simp: set_job_payload_def)

lemma frame_job_ok: "flow_frame raw \<Longrightarrow> job_ok (frame_job le raw i)"
  using payload_start_le [of "raw_data raw"] by (auto simp: job_ok_def frame_job_def Let_def flow_frame_def)

text \<open>The packet the parser yields for a frame, and the job made of it.\<close>

lemma parse_then_job:
  assumes "flow_frame raw"
  shows "\<exists>p. parse le raw = Inr (True, p) \<and> has_ip p \<and> (has_tcp p \<or> has_udp p) \<and>
    has_tcp p = tcp_frame (raw_data raw) \<and> has_udp p = udp_frame (raw_data raw) \<and>
    parsed_payload_length p = payload_length (frame_job le raw i) \<and>
    parsed_payload_data p = payload_data (frame_job le raw i) \<and>
    l4_src_port p = src_port (job_tuple (frame_job le raw i)) \<and>
    l4_dest_port p = dst_port (job_tuple (frame_job le raw i)) \<and>
    src_ip_str p = ipToString (src_ip (job_tuple (frame_job le raw i))) \<and>
    dest_ip_str p = ipToString (dst_ip (job_tuple (frame_job le raw i))) \<and>
    tcp_flags p = job_flags (frame_job le raw i) \<and>
    createPacketJob raw p i = Inr (frame_job le raw i)"
proof (cases "tcp_frame (raw_data raw)")
  case True
  let ?d = "raw_data raw"
  have nu: "\<not> udp_frame ?d" using True ports_distinct by (auto simp: frame_defs)
  obtain dm sm where e: "parse le raw = Inr (True, set_payload (length ?d)
      (with_tcp ?d (with_ip le ?d (base_packet raw dm sm))) (payload_start ?d))"
    using parse_tcp [OF True] by blast
  let ?p = "set_payload (length ?d) (with_tcp ?d (with_ip le ?d (base_packet raw dm sm))) (payload_start ?d)"
  have "createPacketJob raw ?p i = Inr (frame_job le raw i)"
    by (subst createPacketJob_tcp [OF True])
       (simp_all add: set_job_payload_eq frame_job_def Let_def with_tcp_def with_ip_def True)
  then show ?thesis
    using e True nu by (simp add: set_payload_simps frame_job_def Let_def with_tcp_def with_ip_def)
next
  case False
  let ?d = "raw_data raw"
  have u: "udp_frame ?d" using assms False by (simp add: flow_frame_def)
  obtain dm sm where e: "parse le raw = Inr (True, set_payload (length ?d)
      (with_udp ?d (with_ip le ?d (base_packet raw dm sm))) (payload_start ?d))"
    using parse_udp [OF u] by blast
  let ?p = "set_payload (length ?d) (with_udp ?d (with_ip le ?d (base_packet raw dm sm))) (payload_start ?d)"
  have "tcp_flags (base_packet raw dm sm) = 0" by (simp add: base_packet_def empty_packet_def)
  moreover from this have "createPacketJob raw ?p i = Inr (frame_job le raw i)"
    by (subst createPacketJob_udp [OF u])
       (simp_all add: set_job_payload_eq frame_job_def Let_def with_udp_def with_ip_def False)
  ultimately show ?thesis
    using e False u by (simp add: set_payload_simps frame_job_def Let_def with_udp_def with_ip_def)
qed

text \<open>C34: the engine's own decoding of a TCP or UDP frame agrees with the parser's. The job is made
  without a fault (no overflow in the address parsing, no read outside the frame), carries
  the addresses, ports and protocol of the frame, and has as payload exactly the bytes the
  parser found, which lie inside the frame.\<close>

theorem job_agrees_with_parser:
  assumes "flow_frame raw"
  shows "\<exists>p. parse le raw = Inr (True, p) \<and>
    (\<exists>job. createPacketJob raw p i = Inr job \<and> job_ok job \<and> job_data job = raw_data raw \<and> packet_id job = i \<and>
       payload_length job = parsed_payload_length p \<and> payload_data job = parsed_payload_data p \<and>
       payload_offset job = payload_start (raw_data raw) \<and>
       src_port (job_tuple job) = l4_src_port p \<and> dst_port (job_tuple job) = l4_dest_port p \<and>
       protocol (job_tuple job) = raw_data raw ! 23 \<and> job_flags job = tcp_flags p \<and>
       ipToString (src_ip (job_tuple job)) = src_ip_str p \<and> ipToString (dst_ip (job_tuple job)) = dest_ip_str p)"
  using parse_then_job [OF assms, of le i] frame_job_ok [OF assms, of le i]
  by (elim exE) (auto simp: frame_job_def Let_def)

definition sample_raw :: raw_packet where
  "sample_raw = \<lparr>header = \<lparr>ts_sec = 1, ts_usec = 2, incl_len = 57, orig_len = 57\<rparr>,
     raw_data = sample_frame 0x18 [1, 2, 3]\<rparr>"

lemma sample_raw_flow: "flow_frame sample_raw"
  by (simp add: flow_frame_def sample_raw_def sample_frame_layout)

theorem job_agrees_with_parser_witness:
  "\<exists>p job. parse True sample_raw = Inr (True, p) \<and> createPacketJob sample_raw p 7 = Inr job \<and>
     payload_offset job = 54 \<and> packet_id job = 7"
  using job_agrees_with_parser [OF sample_raw_flow, of True 7]
  by (auto simp: sample_raw_def sample_frame_layout)

section \<open>What the reader makes of a capture\<close>

lemma reader_packet_flow:
  assumes "flow_frame raw"
  shows "\<exists>st'. reader_packet le raw i st = Inr (Some (frame_job le raw i), i + 1, st') \<and>
    st' = (let st = st\<lparr>total_packets := total_packets st + 1,
                       total_bytes := total_bytes st + word_of_nat (length (raw_data raw))\<rparr>
           in if tcp_frame (raw_data raw) then st\<lparr>tcp_packets := tcp_packets st + 1\<rparr>
              else st\<lparr>udp_packets := udp_packets st + 1\<rparr>)"
  using parse_then_job [OF assms, of le i]
  by (elim exE) (auto simp: reader_packet_def count_packet_def Let_def)

lemma reader_packet_other:
  assumes "\<not> flow_frame raw"
  shows "reader_packet le raw i st = Inr (None, i, st)"
proof -
  obtain ok p where "parse le raw = Inr (ok, p)" "\<not> (ok \<and> (has_tcp p \<or> has_udp p))"
    using parse_neither [of raw le] assms by (auto simp: flow_frame_def)
  then show ?thesis by (auto simp: reader_packet_def)
qed

fun number_jobs :: "bool \<Rightarrow> raw_packet list \<Rightarrow> u32 \<Rightarrow> packet_job list" where
  "number_jobs le [] i = []"
| "number_jobs le (raw # raws) i = frame_job le raw i # number_jobs le raws (i + 1)"

lemma reader_loop_jobs:
  "\<exists>i' st'. reader_loop le raws i st = Inr (number_jobs le (filter flow_frame raws) i, i', st') \<and>
    total_packets st' = total_packets st + word_of_nat (length (filter flow_frame raws)) \<and>
    total_bytes st' = total_bytes st + word_of_nat (sum_list (map (length \<circ> raw_data) (filter flow_frame raws))) \<and>
    tcp_packets st' + udp_packets st' =
      tcp_packets st + udp_packets st + word_of_nat (length (filter flow_frame raws)) \<and>
    forwarded_packets st' = forwarded_packets st \<and> dropped_packets st' = dropped_packets st"
proof (induction raws arbitrary: i st)
  case (Cons raw raws)
  show ?case
  proof (cases "flow_frame raw")
    case True
    obtain st1 where r: "reader_packet le raw i st = Inr (Some (frame_job le raw i), i + 1, st1)"
      and st1: "total_packets st1 = total_packets st + 1"
        "total_bytes st1 = total_bytes st + word_of_nat (length (raw_data raw))"
        "tcp_packets st1 + udp_packets st1 = tcp_packets st + udp_packets st + 1"
        "forwarded_packets st1 = forwarded_packets st" "dropped_packets st1 = dropped_packets st"
      using reader_packet_flow [OF True, of le i st] by (auto simp: Let_def)
    show ?thesis
      using Cons.IH [of "i + 1" st1] True r st1 by (auto simp: ac_simps)
  next
    case False
    then show ?thesis using Cons.IH [of i st] reader_packet_other [OF False, of le i st] by simp
  qed
qed simp

lemma number_jobs_data: "map job_data (number_jobs le raws i) = map raw_data raws"
  by (induction raws arbitrary: i) (simp_all add: frame_job_def Let_def)

lemma number_jobs_ids:
  "map packet_id (number_jobs le raws i) = map (\<lambda>k. i + word_of_nat k) [0..<length raws]"
proof (induction raws arbitrary: i)
  case (Cons raw raws)
  have "[0..<Suc (length raws)] = 0 # map Suc [0..<length raws]"
    by (simp add: map_Suc_upt upt_conv_Cons del: upt_Suc)
  then show ?case
    using Cons [of "i + 1"] by (simp add: frame_job_def Let_def o_def ac_simps)
qed simp

lemma number_jobs_ok: "\<forall>raw \<in> set raws. flow_frame raw \<Longrightarrow> \<forall>job \<in> set (number_jobs le raws i). job_ok job"
  by (induction raws arbitrary: i) (auto simp: frame_job_ok)

text \<open>The reader makes one job for every TCP or UDP frame of the capture and for no other packet,
  in the order of the capture and numbered from 0, with the frame's bytes and a payload
  inside them; it never faults, whatever the capture holds, and its counters are the number
  of those frames and of their bytes.\<close>

theorem reader_makes_all_jobs:
  "\<exists>jobs n st. reader_loop le raws 0 initial_stats = Inr (jobs, n, st) \<and>
     map job_data jobs = map raw_data (filter flow_frame raws) \<and>
     (\<forall>k < length jobs. packet_id (jobs ! k) = word_of_nat k) \<and> (\<forall>job \<in> set jobs. job_ok job) \<and>
     total_packets st = word_of_nat (length jobs) \<and>
     total_bytes st = word_of_nat (sum_list (map (length \<circ> raw_data) (filter flow_frame raws))) \<and>
     tcp_packets st + udp_packets st = total_packets st"
proof -
  let ?fs = "filter flow_frame raws"
  let ?jobs = "number_jobs le ?fs 0"
  have len: "length ?jobs = length ?fs" using number_jobs_data [of le ?fs 0] by (metis length_map)
  have "packet_id (?jobs ! k) = word_of_nat k" if "k < length ?jobs" for k
    using number_jobs_ids [of le ?fs 0] that len
    by (metis (no_types, lifting) add.left_neutral diff_zero length_map length_upt nth_map nth_upt)
  moreover have "\<forall>job \<in> set ?jobs. job_ok job" by (rule number_jobs_ok) simp
  moreover have "total_packets initial_stats = 0" "total_bytes initial_stats = 0"
    "tcp_packets initial_stats = 0" "udp_packets initial_stats = 0" by (simp_all add: initial_stats_def)
  ultimately show ?thesis
    using reader_loop_jobs [of le raws 0 initial_stats] number_jobs_data [of le ?fs 0] len by auto
qed

theorem reader_makes_all_jobs_witness:
  "\<exists>jobs n st. reader_loop True [sample_raw, sample_raw\<lparr>raw_data := [1]\<rparr>] 0 initial_stats = Inr (jobs, n, st) \<and>
     map job_data jobs = [sample_frame 0x18 [1, 2, 3]] \<and> total_packets st = 1"
proof -
  have "\<not> flow_frame (sample_raw\<lparr>raw_data := [1]\<rparr>)" by (simp add: flow_frame_def frame_defs)
  then have f: "filter flow_frame [sample_raw, sample_raw\<lparr>raw_data := [1]\<rparr>] = [sample_raw]"
    using sample_raw_flow by simp
  obtain jobs n st where j: "reader_loop True [sample_raw, sample_raw\<lparr>raw_data := [1]\<rparr>] 0 initial_stats = Inr (jobs, n, st)"
      "map job_data jobs = map raw_data [sample_raw]" "total_packets st = word_of_nat (length jobs)"
    using reader_makes_all_jobs [of True "[sample_raw, sample_raw\<lparr>raw_data := [1]\<rparr>]"] unfolding f by blast
  have "length jobs = 1" using arg_cong [OF j(2), of length] by simp
  then have "total_packets st = 1" using j(3) by simp
  moreover have "map job_data jobs = [sample_frame 0x18 [1, 2, 3]]" using j(2) by (simp add: sample_raw_def)
  ultimately show ?thesis using j(1) by (intro exI [of _ jobs] exI [of _ n] exI [of _ st]) simp
qed

section \<open>What is written to the output file\<close>

text \<open>The captured packet a job is written as.\<close>

definition job_raw :: "packet_job \<Rightarrow> raw_packet" where
  "job_raw job =
     \<lparr>header = \<lparr>ts_sec = job_ts_sec job, ts_usec = job_ts_usec job,
                incl_len = word_of_nat (length (job_data job)), orig_len = word_of_nat (length (job_data job))\<rparr>,
      raw_data = job_data job\<rparr>"

lemma writeOutputPacket_eq:
  "out_open f \<Longrightarrow> out_good f \<Longrightarrow>
   writeOutputPacket le job f = f\<lparr>out_bytes := out_bytes f @ packet_bytes le (job_raw job)\<rparr>"
  by (simp add: writeOutputPacket_def ofs_write_def packet_bytes_def job_raw_def Let_def)

lemma write_all_eq:
  "out_open f \<Longrightarrow> out_good f \<Longrightarrow>
   fold (writeOutputPacket le) js f =
     f\<lparr>out_bytes := out_bytes f @ concat (map (packet_bytes le \<circ> job_raw) js)\<rparr>"
  by (induction js arbitrary: f) (simp_all add: writeOutputPacket_eq)

definition empty_file :: ofstream where
  "empty_file = \<lparr>out_open = True, out_bytes = [], out_good = True\<rparr>"

text \<open>The bytes of the output file once the header of the capture and the jobs \<open>js\<close> are written.\<close>

definition output_bytes :: "bool \<Rightarrow> pcap_global_header \<Rightarrow> packet_job list \<Rightarrow> bytes" where
  "output_bytes le h js =
     out_bytes (fold (writeOutputPacket le) js (snd (writeOutputHeader le h empty_file)))"

lemma output_bytes_eq: "output_bytes le h js = pcap_bytes le h (map job_raw js)"
proof -
  have "snd (writeOutputHeader le h empty_file) = empty_file\<lparr>out_bytes := encode_global le h\<rparr>"
    by (simp add: writeOutputHeader_def ofs_write_def empty_file_def Let_def)
  then show ?thesis
    by (simp add: output_bytes_def write_all_eq empty_file_def pcap_bytes_def)
qed

text \<open>For a capture in the host's own byte order the output file is a capture again: reading
  it back gives exactly the packets written, in order, with their time stamps and data (the
  original length becomes the captured one), for any jobs short enough for the snapshot
  length, as all jobs of that capture are.\<close>

theorem output_round_trip:
  assumes "fst (pcap_open le fs name r)" and "magic_number (global_header (snd (pcap_open le fs name r))) = PCAP_MAGIC_NATIVE"
    and "\<forall>job \<in> set js. length (job_data job) \<le> unat (snaplen (global_header (snd (pcap_open le fs name r)))) \<and>
      length (job_data job) \<le> 65535"
    and "fs' out = Some (output_bytes le (global_header (snd (pcap_open le fs name r))) js)"
  shows "\<exists>r''. pcap_open le fs' out r' = (True, r'') \<and> read_packets le r'' q = map job_raw js"
proof -
  let ?h = "global_header (snd (pcap_open le fs name r))"
  let ?r = "\<lparr>ifs = \<lparr>is_open = True, rest = concat (map (packet_bytes le) (map job_raw js)), good = True\<rparr>,
    global_header = opened_header le le ?h, needs_byte_swap = (le \<noteq> le)\<rparr>"
  have "pcap_open le fs' out r' = (True, ?r)"
    using assms(2,4) by (intro pcap_open_bytes) (simp_all add: output_bytes_eq pcap_bytes_def)
  moreover have len: "unat (word_of_nat (length (job_data job)) :: u32) = length (job_data job)"
    if "job \<in> set js" for job
    using assms(3) that by (auto simp: unat_of_nat)
  have "read_packets le ?r q = takeWhile (fits (snaplen ?h)) (map job_raw js)"
    using len by (intro read_packets_bytes [where fe = le]) (auto simp: opened_header_def job_raw_def)
  moreover have "\<forall>p \<in> set (map job_raw js). fits (snaplen ?h) p"
    using assms(3) len by (auto simp: fits_def job_raw_def word_le_nat_alt)
  then have "takeWhile (fits (snaplen ?h)) (map job_raw js) = map job_raw js"
    using takeWhile_eq_all_conv by blast
  ultimately show ?thesis by auto
qed

definition sample_header :: pcap_global_header where
  "sample_header = \<lparr>magic_number = PCAP_MAGIC_NATIVE, version_major = 2, version_minor = 4, thiszone = 0,
     sigfigs = 0, snaplen = 65535, network = 1\<rparr>"

theorem output_round_trip_witness:
  "\<forall>r q. \<exists>r''. pcap_open True (\<lambda>_. Some (output_bytes True sample_header [frame_job True sample_raw 0])) ''out.pcap'' r =
     (True, r'') \<and> map raw_data (read_packets True r'' q) = [sample_frame 0x18 [1, 2, 3]]"
proof (intro allI)
  fix r :: pcap_reader and q :: raw_packet
  let ?fs = "\<lambda>_. Some (encode_global True sample_header)"
  have "magic_number sample_header = PCAP_MAGIC_NATIVE" by (simp add: sample_header_def)
  then have o: "fst (pcap_open True ?fs ''in.pcap'' r)"
      "global_header (snd (pcap_open True ?fs ''in.pcap'' r)) = sample_header"
    using pcap_open_bytes [of ?fs "''in.pcap''" True sample_header "[]" True r] by (simp_all add: opened_header_def)
  have j: "job_data (frame_job True sample_raw 0) = sample_frame 0x18 [1, 2, 3]"
    by (simp add: frame_job_def sample_raw_def Let_def)
  have s: "unat (snaplen sample_header) = 65535" "magic_number sample_header = PCAP_MAGIC_NATIVE"
    by (simp_all add: sample_header_def)
  obtain r'' where "pcap_open True (\<lambda>_. Some (output_bytes True sample_header [frame_job True sample_raw 0])) ''out.pcap'' r =
      (True, r'')" "read_packets True r'' q = map job_raw [frame_job True sample_raw 0]"
    using output_round_trip [OF o(1), of "[frame_job True sample_raw 0]"
        "\<lambda>_. Some (output_bytes True sample_header [frame_job True sample_raw 0])" "''out.pcap''" r q]
    unfolding o(2) by (auto simp: s j sample_frame_layout)
  then show "\<exists>r''. pcap_open True (\<lambda>_. Some (output_bytes True sample_header [frame_job True sample_raw 0])) ''out.pcap'' r =
     (True, r'') \<and> map raw_data (read_packets True r'' q) = [sample_frame 0x18 [1, 2, 3]]"
    using j by (auto simp: job_raw_def)
qed

lemma take_bit_eq_of_small: "unat (w :: u32) < 2 ^ k \<Longrightarrow> take_bit k w = w"
  by (simp add: word_unat_eq_iff unsigned_take_bit_eq take_bit_nat_eq_self)

lemma high_bit_large:
  assumes "bit (w :: u32) n" and "16 \<le> n"
  shows "w > 65535"
proof (rule ccontr)
  assume "\<not> w > 65535"
  then have "unat w < 2 ^ 16" by (simp add: word_less_nat_alt not_less)
  then have "take_bit 16 w = w" by (rule take_bit_eq_of_small)
  then have "bit (take_bit 16 w) n" using assms(1) by simp
  then show False using assms(2) by (simp add: bit_take_bit_iff)
qed

lemma swapped_length_large:
  fixes w :: u32
  assumes "w \<noteq> 0" and "unat w < 65536"
  shows "swapBytes32 w > 65535"
proof -
  obtain n where n: "bit w n" using assms(1) bit_eq_iff [of w 0] by auto
  have "take_bit 16 w = w" using assms(2) by (intro take_bit_eq_of_small) simp
  then have "bit (take_bit 16 w) n" using n by simp
  then have n16: "n < 16" by (simp add: bit_take_bit_iff)
  show ?thesis
  proof (cases "n < 8")
    case True
    then have "bit (swapBytes32 w) (24 + n)" using n by (simp add: bit_swapBytes32)
    then show ?thesis by (rule high_bit_large) simp
  next
    case False
    then have "n - 8 < 8" "8 + (n - 8) = n" using n16 by simp_all
    then have "bit (swapBytes32 w) (16 + (n - 8))" using n by (auto simp: bit_swapBytes32)
    then show ?thesis by (rule high_bit_large) simp
  qed
qed

text \<open>For a capture in the other byte order the output file is unusable. The engine copies the
  capture's magic number as read, which says that the file is byte swapped, and writes the
  packet headers in its own order; a reader swaps their lengths, finds the first one above
  the limit and delivers no packet at all.\<close>

theorem foreign_capture_lost:
  assumes "fs name = Some (pcap_bytes fe h ps)" and "magic_number h = PCAP_MAGIC_NATIVE" and "fe \<noteq> le"
    and "0 < length (job_data job)" and "length (job_data job) < 65536"
    and "fs' out = Some (output_bytes le (global_header (snd (pcap_open le fs name r))) (job # js))"
  shows "fst (pcap_open le fs name r) \<and>
    (\<exists>r''. pcap_open le fs' out r' = (True, r'') \<and> read_packets le r'' q = [])"
proof -
  let ?h = "opened_header le fe h"
  have o: "pcap_open le fs name r = (True, \<lparr>ifs = \<lparr>is_open = True, rest = concat (map (packet_bytes fe) ps), good = True\<rparr>,
      global_header = ?h, needs_byte_swap = True\<rparr>)"
    using assms(1-3) pcap_open_bytes [of fs name fe h "concat (map (packet_bytes fe) ps)" le r]
    by (simp add: pcap_bytes_def)
  have m: "magic_number ?h = PCAP_MAGIC_SWAPPED" "PCAP_MAGIC_SWAPPED \<noteq> PCAP_MAGIC_NATIVE"
    using assms(3) by (simp_all add: opened_header_def PCAP_MAGIC_NATIVE_def PCAP_MAGIC_SWAPPED_def)
  let ?tail = "packet_bytes le (job_raw job) @ concat (map (packet_bytes le) (map job_raw js))"
  have content: "fs' out = Some (encode_global le ?h @ ?tail)"
    using assms(6) o by (simp add: output_bytes_eq pcap_bytes_def)
  obtain r'' where r'': "pcap_open le fs' out r' = (True, r'')" "is_open (ifs r'')" "good (ifs r'')"
      "rest (ifs r'') = ?tail" "needs_byte_swap r''"
    using content m decode_encode_global [of le le ?h]
    by (simp add: pcap_open_def Let_def ifs_read_def flip_global_def)
  define hdr where "hdr = header (job_raw job)"
  have "unat (incl_len hdr) = length (job_data job)"
    using assms(5) by (simp add: hdr_def job_raw_def unat_of_nat)
  then have big: "swapBytes32 (incl_len hdr) > 65535"
    using assms(4,5) by (intro swapped_length_large) auto
  have tail: "?tail = encode_packet_header le hdr @ job_data job @ concat (map (packet_bytes le) (map job_raw js))"
    by (simp add: packet_bytes_def hdr_def job_raw_def)
  have "fst (readNextPacket le r'' q) = False"
    using r'' big decode_encode_packet_header [of le le hdr] unfolding tail
    by (auto simp: readNextPacket_def Let_def ifs_read_def flip_packet_header_def swap_packet_header_def
        maybeSwap32_eq)
  then have "read_packets le r'' q = []"
    by (auto simp: read_packets.simps [of le r'' q] split: prod.splits)
  then show ?thesis using r''(1) o by simp
qed

theorem foreign_capture_lost_witness:
  "let fs = (\<lambda>_. Some (pcap_bytes False sample_header [sample_raw]));
       job = frame_job True sample_raw 0
   in \<forall>r r' q. \<exists>r''. pcap_open True (\<lambda>_. Some (output_bytes True
        (global_header (snd (pcap_open True fs ''in.pcap'' r))) [job])) ''out.pcap'' r' = (True, r'') \<and>
      read_packets True r'' q = []"
proof -
  have j: "length (job_data (frame_job True sample_raw 0)) = 57"
    by (simp add: frame_job_def sample_raw_def Let_def sample_frame_layout)
  have m: "magic_number sample_header = PCAP_MAGIC_NATIVE" by (simp add: sample_header_def)
  show ?thesis
    using foreign_capture_lost [of "\<lambda>_. Some (pcap_bytes False sample_header [sample_raw])" "''in.pcap''" False
        sample_header "[sample_raw]" True "frame_job True sample_raw 0"] j m
    by (simp add: Let_def)
qed

end
