(* ===== verification/Pipeline.thy ===== *)
theory Pipeline
  imports Dpi_Engine
begin

text \<open>
  The threads of the engine together (\<open>src/dpi_engine.cpp\<close>, the loops of
  \<open>src/load_balancer.cpp\<close> and \<open>src/fast_path.cpp\<close>): the reader, the load balancers, the workers
  and the output thread, as a step relation on one state. A step is what a thread does
  between two points where it may wait, so every interleaving of the threads is a
  sequence of steps. \<open>stop\<close> is the steps in which it clears the flags and shuts the queues
  down. A thread whose flag is cleared may finish the round it is in; the relation lets it
  go on until the step in which it leaves its loop, which allows every real run.
\<close>

section \<open>The state\<close>

text \<open>
  \<open>to_read\<close> are the jobs the reader has yet to push, \<open>holding\<close> a worker's job between its
  verdict and the push to the output queue. \<open>written\<close> and \<open>dropped\<close> record what became of
  the jobs that are through.
\<close>

record system =
  to_read :: "packet_job list"
  tier :: lb_manager
  workers :: "fast_path list"
  holding :: "packet_job option list"
  outq :: "packet_job tsq"
  written :: "packet_job list"
  dropped :: "packet_job list"
  sys_stats :: dpi_stats
  engine_running :: bool
  lb_alive :: "bool list"
  fp_alive :: "bool list"
  writer_alive :: bool

definition start_system :: "nat \<Rightarrow> nat \<Rightarrow> packet_job list \<Rightarrow> system" where
  "start_system l f jobs =
     \<lparr>to_read = jobs, tier = lb_startAll (new_lb_manager (int l) (int f) [0..<l * f]),
      workers = fp_startAll (new_fps (int (l * f))), holding = replicate (l * f) None,
      outq = new_queue 10000, written = [], dropped = [], sys_stats = initial_stats,
      engine_running = True, lb_alive = replicate l True, fp_alive = replicate (l * f) True,
      writer_alive = True\<rparr>"

text \<open>The threads as \<open>start\<close> leaves them.\<close>

lemma start_lb:
  assumes "0 < f" and "i < l"
  shows "lbs (tier (start_system l f jobs)) ! i =
    lb_start (new_load_balancer (int i) [i * f..<i * f + f] (int i * int f))"
  using lb_queues_all [OF assms] assms(2)
  by (simp add: start_system_def lb_startAll_def new_lb_manager_def Let_def)

lemma start_fp: "w < l * f \<Longrightarrow> workers (start_system l f jobs) ! w = fp_start (new_fast_path (int w))"
  by (simp add: start_system_def fp_startAll_def new_fps_def nth_upto del: of_nat_mult)

lemma start_simps [simp]:
  "to_read (start_system l f jobs) = jobs" "written (start_system l f jobs) = []"
  "dropped (start_system l f jobs) = []" "outq (start_system l f jobs) = new_queue 10000"
  "holding (start_system l f jobs) = replicate (l * f) None" "engine_running (start_system l f jobs)"
  "lb_alive (start_system l f jobs) = replicate l True"
  "fp_alive (start_system l f jobs) = replicate (l * f) True" "writer_alive (start_system l f jobs)"
  "sys_stats (start_system l f jobs) = initial_stats"
  "length (lbs (tier (start_system l f jobs))) = l" "fps_per_lb (tier (start_system l f jobs)) = int f"
  "length (workers (start_system l f jobs)) = l * f"
  by (simp_all add: start_system_def lb_startAll_def new_lb_manager_def fp_startAll_def new_fps_def
      del: of_nat_mult)

text \<open>Every balancer and every worker starts empty, whatever the sizes of the tier.\<close>

lemma start_empty:
  assumes "lb \<in> set (lbs (tier (start_system l f jobs)))"
  shows "in_hand lb = None \<and> lb_input lb = new_queue 10000 \<and> lb_running lb"
  using assms
  by (auto simp: start_system_def lb_startAll_def new_lb_manager_def Let_def new_load_balancer_def lb_start_def)

lemma start_idle:
  assumes "fp \<in> set (workers (start_system l f jobs))"
  shows "input_queue fp = new_queue 10000 \<and> (\<exists>w. conn_tracker fp = new_tracker w 100000) \<and> fp_running fp"
  using assms
  by (auto simp: start_system_def fp_startAll_def new_fps_def new_fast_path_def fp_start_def)

section \<open>The steps of the threads\<close>

definition update_lb :: "nat \<Rightarrow> load_balancer \<Rightarrow> system \<Rightarrow> system" where
  "update_lb i lb s = s\<lparr>tier := (tier s)\<lparr>lbs := (lbs (tier s))[i := lb]\<rparr>\<rparr>"

definition update_worker :: "nat \<Rightarrow> fast_path \<Rightarrow> system \<Rightarrow> system" where
  "update_worker w fp s = s\<lparr>workers := (workers s)[w := fp]\<rparr>"

text \<open>\<open>Inr None\<close>: the thread waits or has nothing to do in this state.\<close>

definition reader_step :: "system \<Rightarrow> system option res" where
  "reader_step s =
     (case to_read s of [] \<Rightarrow> Inr None
      | job # jobs \<Rightarrow>
          andThen (getLBForPacket (tier s) (job_tuple job)) (\<lambda>i.
          case push job (lb_input (lbs (tier s) ! i)) of None \<Rightarrow> Inr None
          | Some q \<Rightarrow>
              Inr (Some (update_lb i ((lbs (tier s) ! i)\<lparr>lb_input := q\<rparr>) (s\<lparr>to_read := jobs\<rparr>)))))"

definition lb_pop_step :: "nat \<Rightarrow> system \<Rightarrow> system option" where
  "lb_pop_step i s =
     (if i < length (lbs (tier s)) \<and> lb_alive s ! i \<and> in_hand (lbs (tier s) ! i) = None
      then Some (update_lb i (lb_take (lbs (tier s) ! i)) s) else None)"

definition lb_push_step :: "nat \<Rightarrow> system \<Rightarrow> system option res" where
  "lb_push_step i s =
     (if i < length (lbs (tier s)) \<and> in_hand (lbs (tier s) ! i) \<noteq> None
      then andThen (lb_give (lbs (tier s) ! i) (map input_queue (workers s))) (\<lambda>r.
        case r of None \<Rightarrow> Inr None
        | Some (lb, qs) \<Rightarrow>
            Inr (Some (update_lb i lb
              (s\<lparr>workers := map2 (\<lambda>fp q. fp\<lparr>input_queue := q\<rparr>) (workers s) qs\<rparr>))))
      else Inr None)"

definition worker_step ::
  "rule_manager option \<Rightarrow> nat list \<Rightarrow> time_point \<Rightarrow> time_point \<Rightarrow> nat \<Rightarrow> system \<Rightarrow> system option res" where
  "worker_step rules ns t1 t2 w s =
     (if w < length (workers s) \<and> fp_alive s ! w \<and> holding s ! w = None
      then
        let (job_opt, q) = popWithTimeout (input_queue (workers s ! w))
        in andThen (run_body ns t1 t2 rules job_opt ((workers s ! w)\<lparr>input_queue := q\<rparr>)) (\<lambda>(out, fp).
           let s = update_worker w fp s
           in case out of None \<Rightarrow> Inr (Some s)
              | Some (job, action) \<Rightarrow>
                  let (fwd, st) = handleOutput job action (sys_stats s);
                      s = s\<lparr>sys_stats := st\<rparr>
                  in case fwd of None \<Rightarrow> Inr (Some (s\<lparr>dropped := dropped s @ [job]\<rparr>))
                     | Some j \<Rightarrow> Inr (Some (s\<lparr>holding := (holding s)[w := Some j]\<rparr>)))
      else Inr None)"

definition emit_step :: "nat \<Rightarrow> system \<Rightarrow> system option" where
  "emit_step w s =
     (if w < length (holding s)
      then case holding s ! w of None \<Rightarrow> None
        | Some job \<Rightarrow>
            (case push job (outq s) of None \<Rightarrow> None
             | Some q \<Rightarrow> Some (s\<lparr>outq := q, holding := (holding s)[w := None]\<rparr>))
      else None)"

definition writer_step :: "system \<Rightarrow> system option" where
  "writer_step s =
     (if writer_alive s
      then (case popWithTimeout (outq s) of (None, q) \<Rightarrow> Some (s\<lparr>outq := q\<rparr>)
        | (Some job, q) \<Rightarrow> Some (s\<lparr>outq := q, written := written s @ [job]\<rparr>))
      else None)"

text \<open>
  \<open>processFile\<close> calls \<open>stop\<close> when the reader has ended. \<open>stop\<close> clears the engine's flag, stops
  and joins the load balancers, then the workers, then shuts the output queue down and joins
  the output thread, which leaves its loop when the flag is clear and its queue empty.
\<close>

inductive step :: "rule_manager option \<Rightarrow> system \<Rightarrow> system \<Rightarrow> bool" for rules where
  Read: "reader_step s = Inr (Some s') \<Longrightarrow> step rules s s'"
| Lb_pop: "lb_pop_step i s = Some s' \<Longrightarrow> step rules s s'"
| Lb_push: "lb_push_step i s = Inr (Some s') \<Longrightarrow> step rules s s'"
| Work: "worker_step rules ns t1 t2 w s = Inr (Some s') \<Longrightarrow> step rules s s'"
| Emit: "emit_step w s = Some s' \<Longrightarrow> step rules s s'"
| Write: "writer_step s = Some s' \<Longrightarrow> step rules s s'"
| Stop: "to_read s = [] \<Longrightarrow> step rules s (s\<lparr>engine_running := False\<rparr>)"
| Lb_stop: "\<not> engine_running s \<Longrightarrow> i < length (lbs (tier s)) \<Longrightarrow>
    step rules s (update_lb i (lb_stop (lbs (tier s) ! i)) s)"
| Lb_exit: "i < length (lbs (tier s)) \<Longrightarrow> \<not> lb_running (lbs (tier s) ! i) \<Longrightarrow>
    in_hand (lbs (tier s) ! i) = None \<Longrightarrow> step rules s (s\<lparr>lb_alive := (lb_alive s)[i := False]\<rparr>)"
| Fp_stop: "\<forall>i < length (lb_alive s). \<not> lb_alive s ! i \<Longrightarrow> w < length (workers s) \<Longrightarrow>
    step rules s (update_worker w (fp_stop (workers s ! w)) s)"
| Fp_exit: "w < length (workers s) \<Longrightarrow> \<not> fp_running (workers s ! w) \<Longrightarrow>
    holding s ! w = None \<Longrightarrow> step rules s (s\<lparr>fp_alive := (fp_alive s)[w := False]\<rparr>)"
| Out_shutdown: "\<not> engine_running s \<Longrightarrow> \<forall>w < length (fp_alive s). \<not> fp_alive s ! w \<Longrightarrow>
    step rules s (s\<lparr>outq := shutdown (outq s)\<rparr>)"
| Writer_exit: "\<not> engine_running s \<Longrightarrow> queue (outq s) = [] \<Longrightarrow>
    step rules s (s\<lparr>writer_alive := False\<rparr>)"

inductive reachable :: "rule_manager option \<Rightarrow> system \<Rightarrow> system \<Rightarrow> bool" for rules s0 where
  Start: "reachable rules s0 s0"
| Next: "reachable rules s0 s \<Longrightarrow> step rules s s' \<Longrightarrow> reachable rules s0 s'"

inductive_cases stepE: "step rules s s'"

section \<open>The specification: lanes of jobs\<close>

text \<open>
  What the pipeline promises, without threads, counters and locks: every flow has a lane
  through one load balancer and one worker, and each stage is a list that jobs enter at the
  back and leave at the front, on to the next stage or, at a worker, to be dropped.
\<close>

record lanes =
  l_read :: "packet_job list"
  l_lb :: "nat \<Rightarrow> packet_job list"
  l_worker :: "nat \<Rightarrow> packet_job list"
  l_out :: "packet_job list"
  l_written :: "packet_job list"
  l_dropped :: "packet_job list"

definition route :: "nat \<Rightarrow> nat \<Rightarrow> five_tuple \<Rightarrow> nat" where
  "route l f k = unat (FiveTupleHash k) mod (l * f)"

inductive move :: "nat \<Rightarrow> nat \<Rightarrow> lanes \<Rightarrow> lanes \<Rightarrow> bool" for l f where
  M_stay: "move l f a a"
| M_read: "l_read a = j # js \<Longrightarrow> i = route l f (job_tuple j) div f \<Longrightarrow>
    move l f a (a\<lparr>l_read := js, l_lb := (l_lb a)(i := l_lb a i @ [j])\<rparr>)"
| M_dispatch: "l_lb a i = j # js \<Longrightarrow> w = route l f (job_tuple j) \<Longrightarrow>
    move l f a (a\<lparr>l_lb := (l_lb a)(i := js), l_worker := (l_worker a)(w := l_worker a w @ [j])\<rparr>)"
| M_drop: "l_worker a w = j # js \<Longrightarrow>
    move l f a (a\<lparr>l_worker := (l_worker a)(w := js), l_dropped := l_dropped a @ [j]\<rparr>)"
| M_emit: "l_worker a w = j # js \<Longrightarrow>
    move l f a (a\<lparr>l_worker := (l_worker a)(w := js), l_out := l_out a @ [j]\<rparr>)"
| M_write: "l_out a = j # js \<Longrightarrow> move l f a (a\<lparr>l_out := js, l_written := l_written a @ [j]\<rparr>)"

text \<open>Jobs are only where their tuple routes them.\<close>

definition routed :: "nat \<Rightarrow> nat \<Rightarrow> lanes \<Rightarrow> bool" where
  "routed l f a \<longleftrightarrow>
     (\<forall>i. \<forall>j \<in> set (l_lb a i). route l f (job_tuple j) div f = i) \<and>
     (\<forall>w. \<forall>j \<in> set (l_worker a w). route l f (job_tuple j) = w)"

lemma move_routed: "move l f a b \<Longrightarrow> routed l f a \<Longrightarrow> routed l f b"
  by (induction rule: move.induct) (auto simp: routed_def split: if_splits)

definition of_flow :: "five_tuple \<Rightarrow> packet_job list \<Rightarrow> packet_job list" where
  "of_flow k js = filter (\<lambda>j. job_tuple j = k) js"

lemma of_flow_simps [simp]:
  "of_flow k [] = []" "of_flow k (j # js) = (if job_tuple j = k then j # of_flow k js else of_flow k js)"
  "of_flow k (xs @ ys) = of_flow k xs @ of_flow k ys"
  by (simp_all add: of_flow_def)

lemma of_flow_other: "\<forall>j \<in> set js. job_tuple j \<noteq> k \<Longrightarrow> of_flow k js = []"
  by (auto simp: of_flow_def)

text \<open>The jobs of one flow along its lane, the oldest first.\<close>

definition lane :: "nat \<Rightarrow> nat \<Rightarrow> five_tuple \<Rightarrow> lanes \<Rightarrow> packet_job list" where
  "lane l f k a =
     of_flow k (l_written a) @ of_flow k (l_out a) @ of_flow k (l_worker a (route l f k)) @
     of_flow k (l_lb a (route l f k div f)) @ of_flow k (l_read a)"

text \<open>A move leaves a flow's lane as it is, or takes one job out, and that job is then dropped.\<close>

lemma move_lane:
  assumes "move l f a b" and "routed l f a"
  shows "lane l f k b = lane l f k a \<and> of_flow k (l_dropped b) = of_flow k (l_dropped a) \<or>
    (\<exists>xs j ys. lane l f k a = xs @ j # ys \<and> lane l f k b = xs @ ys \<and>
      of_flow k (l_dropped b) = of_flow k (l_dropped a) @ [j])"
  using assms
proof (induction rule: move.induct)
  case (M_dispatch a i j js w)
  then have "route l f (job_tuple j) div f = i" by (auto simp: routed_def)
  then show ?case using M_dispatch by (auto simp: lane_def)
next
  case (M_drop a w j js)
  then have w: "route l f (job_tuple j) = w" by (auto simp: routed_def)
  show ?case
  proof (cases "job_tuple j = k")
    case True
    then show ?thesis using M_drop w
      by (intro disjI2 exI [of _ "of_flow k (l_written a) @ of_flow k (l_out a)"] exI [of _ j]
          exI [of _ "of_flow k js @ of_flow k (l_lb a (route l f k div f)) @ of_flow k (l_read a)"])
        (simp add: lane_def)
  next
    case False
    then show ?thesis using M_drop by (auto simp: lane_def)
  qed
next
  case (M_emit a w j js)
  then have w: "route l f (job_tuple j) = w" by (auto simp: routed_def)
  then show ?case using M_emit by (auto simp: lane_def)
qed (auto simp: lane_def)

text \<open>Conservation and order of one flow, for the jobs the reader began with.\<close>

definition lane_ok :: "nat \<Rightarrow> nat \<Rightarrow> packet_job list \<Rightarrow> lanes \<Rightarrow> bool" where
  "lane_ok l f jobs a \<longleftrightarrow>
     (\<forall>k. subseq (lane l f k a) (of_flow k jobs) \<and>
          mset (lane l f k a) + mset (of_flow k (l_dropped a)) = mset (of_flow k jobs))"

lemma subseq_remove: "subseq (xs @ ys) (xs @ j # ys)"
  by (intro list_emb_append_mono) auto

lemma move_lane_ok:
  assumes "move l f a b" and "routed l f a" and "lane_ok l f jobs a"
  shows "lane_ok l f jobs b"
  unfolding lane_ok_def
proof
  fix k
  have ok: "subseq (lane l f k a) (of_flow k jobs)"
    "mset (lane l f k a) + mset (of_flow k (l_dropped a)) = mset (of_flow k jobs)"
    using assms(3) by (auto simp: lane_ok_def)
  from move_lane [OF assms(1,2), of k]
  show "subseq (lane l f k b) (of_flow k jobs) \<and>
      mset (lane l f k b) + mset (of_flow k (l_dropped b)) = mset (of_flow k jobs)"
  proof (elim disjE exE conjE)
    fix xs j ys
    assume e: "lane l f k a = xs @ j # ys" "lane l f k b = xs @ ys"
      "of_flow k (l_dropped b) = of_flow k (l_dropped a) @ [j]"
    have "subseq (lane l f k b) (lane l f k a)" unfolding e(1,2) by (rule subseq_remove)
    then have "subseq (lane l f k b) (of_flow k jobs)" using ok(1) by (rule subseq_order.trans)
    then show ?thesis using e ok(2) by simp
  qed (use ok in simp)
qed

section \<open>The state as lanes\<close>

definition opt_list :: "'a option \<Rightarrow> 'a list" where
  "opt_list x = (case x of None \<Rightarrow> [] | Some y \<Rightarrow> [y])"

lemma opt_list_simps [simp]: "opt_list None = []" "opt_list (Some x) = [x]"
  by (simp_all add: opt_list_def)

definition lb_jobs :: "load_balancer \<Rightarrow> packet_job list" where
  "lb_jobs lb = opt_list (in_hand lb) @ queue (lb_input lb)"

definition worker_jobs :: "system \<Rightarrow> nat \<Rightarrow> packet_job list" where
  "worker_jobs s w = opt_list (holding s ! w) @ queue (input_queue (workers s ! w))"

definition lanes_of :: "system \<Rightarrow> lanes" where
  "lanes_of s =
     \<lparr>l_read = to_read s,
      l_lb = (\<lambda>i. if i < length (lbs (tier s)) then lb_jobs (lbs (tier s) ! i) else []),
      l_worker = (\<lambda>w. if w < length (workers s) then worker_jobs s w else []),
      l_out = queue (outq s), l_written = written s, l_dropped = dropped s\<rparr>"

definition topology :: "nat \<Rightarrow> nat \<Rightarrow> system \<Rightarrow> bool" where
  "topology l f s \<longleftrightarrow>
     0 < l \<and> 0 < f \<and> f < 2 ^ 31 \<and> length (lbs (tier s)) = l \<and> fps_per_lb (tier s) = int f \<and>
     length (workers s) = l * f \<and> length (holding s) = l * f \<and> length (lb_alive s) = l \<and>
     length (fp_alive s) = l * f \<and>
     (\<forall>i < l. num_fps (lbs (tier s) ! i) = f \<and> fp_queues (lbs (tier s) ! i) = [i * f..<i * f + f]) \<and>
     0 < max_size (outq s) \<and> (\<forall>i < l. 0 < max_size (lb_input (lbs (tier s) ! i))) \<and>
     (\<forall>w < l * f. 0 < max_size (input_queue (workers s ! w)))"

text \<open>A queue is closed only after everybody who pushes to it has gone.\<close>

definition shut_order :: "system \<Rightarrow> bool" where
  "shut_order s \<longleftrightarrow>
     (\<not> engine_running s \<longrightarrow> to_read s = []) \<and>
     (\<forall>i < length (lbs (tier s)). \<not> lb_running (lbs (tier s) ! i) \<longrightarrow> \<not> engine_running s) \<and>
     (\<forall>i < length (lbs (tier s)). is_shutdown (lb_input (lbs (tier s) ! i)) \<longrightarrow> \<not> lb_running (lbs (tier s) ! i)) \<and>
     (\<forall>i < length (lbs (tier s)). \<not> lb_alive s ! i \<longrightarrow>
        \<not> lb_running (lbs (tier s) ! i) \<and> in_hand (lbs (tier s) ! i) = None) \<and>
     (\<forall>w < length (workers s). \<not> fp_running (workers s ! w) \<longrightarrow>
        (\<forall>i < length (lb_alive s). \<not> lb_alive s ! i)) \<and>
     (\<forall>w < length (workers s). is_shutdown (input_queue (workers s ! w)) \<longrightarrow> \<not> fp_running (workers s ! w)) \<and>
     (\<forall>w < length (workers s). \<not> fp_alive s ! w \<longrightarrow>
        \<not> fp_running (workers s ! w) \<and> holding s ! w = None) \<and>
     (is_shutdown (outq s) \<longrightarrow> \<not> engine_running s \<and> (\<forall>w < length (fp_alive s). \<not> fp_alive s ! w)) \<and>
     (\<not> writer_alive s \<longrightarrow> \<not> engine_running s)"

definition healthy :: "system \<Rightarrow> bool" where
  "healthy s \<longleftrightarrow>
     (\<forall>job \<in> set (to_read s). job_ok job) \<and>
     (\<forall>lb \<in> set (lbs (tier s)). \<forall>job \<in> set (lb_jobs lb). job_ok job) \<and>
     (\<forall>fp \<in> set (workers s). tracker_inv (conn_tracker fp) \<and> (\<forall>job \<in> set (queue (input_queue fp)). job_ok job))"

lemma route_div:
  "0 < f \<Longrightarrow> 0 < l \<Longrightarrow> route l f k div f = (unat (FiveTupleHash k) div f) mod l"
  unfolding route_def by (metis div_mult_mod_eq add.commute mod_mult2_eq mult.commute div_mult_self4
      mod_div_trivial add_cancel_right_right gr_implies_not0)

lemma route_bound: "0 < f \<Longrightarrow> 0 < l \<Longrightarrow> route l f k < l * f"
  by (simp add: route_def)

lemma route_div_bound: "0 < f \<Longrightarrow> 0 < l \<Longrightarrow> route l f k div f < l"
  by (simp add: route_div)

lemma route_mod: "0 < f \<Longrightarrow> 0 < l \<Longrightarrow> (route l f k div f) * f + unat (FiveTupleHash k) mod f = route l f k"
  using div_mod_split [of f l "unat (FiveTupleHash k)"] by (simp add: route_div) (simp add: route_def)

lemma lb_for_job:
  assumes "topology l f s"
  shows "getLBForPacket (tier s) k = Inr (route l f k div f)"
proof -
  have "unat (word_of_int (int f) :: u64) = f" using assms by (simp add: topology_def unat_of_nat)
  then show ?thesis
    using assms route_div [of f l k] by (simp add: getLBForPacket_def Let_def topology_def)
qed

lemma target_queue:
  assumes "topology l f s" and "i < l" and "route l f k div f = i"
  shows "selectFP (lbs (tier s) ! i) k = Inr (unat (FiveTupleHash k) mod f)"
    and "fp_queues (lbs (tier s) ! i) ! (unat (FiveTupleHash k) mod f) = route l f k"
proof -
  have t: "0 < f" "0 < l" "num_fps (lbs (tier s) ! i) = f" "fp_queues (lbs (tier s) ! i) = [i * f..<i * f + f]"
    using assms(1,2) by (auto simp: topology_def)
  show "selectFP (lbs (tier s) ! i) k = Inr (unat (FiveTupleHash k) mod f)"
    using t by (simp add: selectFP_def)
  have "unat (FiveTupleHash k) mod f < f" using t(1) by simp
  then show "fp_queues (lbs (tier s) ! i) ! (unat (FiveTupleHash k) mod f) = route l f k"
    using t(4) route_mod [OF t(1,2), of k] assms(3) by simp
qed

section \<open>Each step in closed form\<close>

definition enqueue :: "'a \<Rightarrow> 'a tsq \<Rightarrow> 'a tsq" where
  "enqueue j q = q\<lparr>queue := queue q @ [j]\<rparr>"

lemma enqueue_simps [simp]:
  "queue (enqueue j q) = queue q @ [j]" "is_shutdown (enqueue j q) = is_shutdown q"
  "max_size (enqueue j q) = max_size q"
  by (simp_all add: enqueue_def)

lemma push_open:
  "\<not> is_shutdown q \<Longrightarrow> push j q = (if length (queue q) < max_size q then Some (enqueue j q) else None)"
  by (simp add: push_def enqueue_def)

lemma update_lb_simps [simp]:
  "to_read (update_lb i lb s) = to_read s" "workers (update_lb i lb s) = workers s"
  "holding (update_lb i lb s) = holding s" "outq (update_lb i lb s) = outq s"
  "written (update_lb i lb s) = written s" "dropped (update_lb i lb s) = dropped s"
  "engine_running (update_lb i lb s) = engine_running s" "lb_alive (update_lb i lb s) = lb_alive s"
  "fp_alive (update_lb i lb s) = fp_alive s" "writer_alive (update_lb i lb s) = writer_alive s"
  "lbs (tier (update_lb i lb s)) = (lbs (tier s))[i := lb]" "fps_per_lb (tier (update_lb i lb s)) = fps_per_lb (tier s)"
  "sys_stats (update_lb i lb s) = sys_stats s"
  by (simp_all add: update_lb_def)

lemma update_worker_simps [simp]:
  "to_read (update_worker w fp s) = to_read s" "tier (update_worker w fp s) = tier s"
  "holding (update_worker w fp s) = holding s" "outq (update_worker w fp s) = outq s"
  "written (update_worker w fp s) = written s" "dropped (update_worker w fp s) = dropped s"
  "engine_running (update_worker w fp s) = engine_running s" "lb_alive (update_worker w fp s) = lb_alive s"
  "fp_alive (update_worker w fp s) = fp_alive s" "writer_alive (update_worker w fp s) = writer_alive s"
  "workers (update_worker w fp s) = (workers s)[w := fp]" "sys_stats (update_worker w fp s) = sys_stats s"
  by (simp_all add: update_worker_def)

lemma reader_step_eq:
  assumes "topology l f s" and "shut_order s" and "to_read s = j # js"
  defines "i \<equiv> route l f (job_tuple j) div f"
  shows "reader_step s =
    Inr (if length (queue (lb_input (lbs (tier s) ! i))) < max_size (lb_input (lbs (tier s) ! i))
         then Some (update_lb i ((lbs (tier s) ! i)\<lparr>lb_input := enqueue j (lb_input (lbs (tier s) ! i))\<rparr>)
                (s\<lparr>to_read := js\<rparr>))
         else None)"
proof -
  have "i < length (lbs (tier s))"
    using assms(1) route_div_bound [of f l "job_tuple j"] by (simp add: topology_def i_def)
  then have "\<not> is_shutdown (lb_input (lbs (tier s) ! i))"
    using assms(2,3) by (auto simp: shut_order_def)
  then show ?thesis
    using assms(3) lb_for_job [OF assms(1), of "job_tuple j"]
    by (simp add: reader_step_def push_open i_def)
qed

lemma map2_set_queue:
  "w < length ws \<Longrightarrow>
   map2 (\<lambda>fp q. fp\<lparr>input_queue := q\<rparr>) ws ((map input_queue ws)[w := q']) =
     ws[w := (ws ! w)\<lparr>input_queue := q'\<rparr>]"
  by (rule nth_equalityI) (auto simp: nth_list_update)

lemma lb_push_step_eq:
  assumes "topology l f s" and "shut_order s" and "routed l f (lanes_of s)" and "i < l"
    and "in_hand (lbs (tier s) ! i) = Some j"
  defines "w \<equiv> route l f (job_tuple j)"
  shows "\<exists>lb. in_hand lb = None \<and> lb_input lb = lb_input (lbs (tier s) ! i) \<and> lb_running lb = lb_running (lbs (tier s) ! i) \<and>
    num_fps lb = num_fps (lbs (tier s) ! i) \<and> fp_queues lb = fp_queues (lbs (tier s) ! i) \<and>
    lb_push_step i s =
      Inr (if length (queue (input_queue (workers s ! w))) < max_size (input_queue (workers s ! w))
           then Some (update_lb i lb (update_worker w
             ((workers s ! w)\<lparr>input_queue := enqueue j (input_queue (workers s ! w))\<rparr>) s))
           else None)"
proof -
  let ?lb = "lbs (tier s) ! i"
  have i: "i < length (lbs (tier s))" using assms(1,4) by (simp add: topology_def)
  have ri: "route l f (job_tuple j) div f = i"
    using assms(3,5) i by (auto simp: routed_def lanes_of_def lb_jobs_def dest!: spec [of _ i])
  have w: "w < length (workers s)" using assms(1) route_bound [of f l "job_tuple j"] by (simp add: topology_def w_def)
  have "lb_alive s ! i" using assms(2,5) i by (auto simp: shut_order_def)
  then have open_q: "\<not> is_shutdown (input_queue (workers s ! w))"
    using assms(1,2,4) w by (auto simp: shut_order_def topology_def)
  let ?n = "unat (FiveTupleHash (job_tuple j)) mod f"
  let ?lb' = "?lb\<lparr>in_hand := None, per_fp_counts := (per_fp_counts ?lb)[?n := per_fp_counts ?lb ! ?n + 1],
    packets_dispatched := packets_dispatched ?lb + 1\<rparr>"
  show ?thesis
    using i w open_q assms(5) target_queue [OF assms(1,4) ri] map2_set_queue [OF w]
    by (intro exI [of _ ?lb'])
       (simp add: lb_push_step_def lb_give_def push_open Let_def w_def update_lb_def update_worker_def)
qed

text \<open>The worker's round: an idle one, a drop, or a job that is held for the output queue.\<close>

definition same_queue_as :: "fast_path \<Rightarrow> packet_job list \<Rightarrow> fast_path \<Rightarrow> bool" where
  "same_queue_as fp js fp' \<longleftrightarrow> input_queue fp' = (input_queue fp)\<lparr>queue := js\<rparr> \<and> fp_running fp' = fp_running fp \<and> tracker_inv (conn_tracker fp')"

lemma worker_step_cases:
  assumes "topology l f s" and "healthy s" and "w < l * f" and "fp_alive s ! w" and "holding s ! w = None"
  obtains
    (idle) fp' where "queue (input_queue (workers s ! w)) = []" "same_queue_as (workers s ! w) [] fp'"
      "worker_step rules ns t1 t2 w s = Inr (Some (update_worker w fp' s))"
  | (drop) j js fp' where "queue (input_queue (workers s ! w)) = j # js" "same_queue_as (workers s ! w) js fp'"
      "worker_step rules ns t1 t2 w s = Inr (Some ((update_worker w fp' s)
         \<lparr>sys_stats := (sys_stats s)\<lparr>dropped_packets := dropped_packets (sys_stats s) + 1\<rparr>,
          dropped := dropped s @ [j]\<rparr>))"
  | (forward) j js fp' where "queue (input_queue (workers s ! w)) = j # js" "same_queue_as (workers s ! w) js fp'"
      "worker_step rules ns t1 t2 w s = Inr (Some ((update_worker w fp' s)
         \<lparr>sys_stats := (sys_stats s)\<lparr>forwarded_packets := forwarded_packets (sys_stats s) + 1\<rparr>,
          holding := (holding s)[w := Some j]\<rparr>))"
proof -
  have w: "w < length (workers s)" using assms(1,3) by (simp add: topology_def)
  let ?fp = "workers s ! w"
  have fp: "tracker_inv (conn_tracker ?fp)" "\<forall>job \<in> set (queue (input_queue ?fp)). job_ok job"
    using assms(2) w by (auto simp: healthy_def)
  show thesis
  proof (cases "queue (input_queue ?fp)")
    case Nil
    have p: "popWithTimeout (input_queue ?fp) = (None, input_queue ?fp)" using tsq.get_empty [OF Nil] .
    let ?fp' = "set_tracker (snd \<circ> cleanupStale 300 t1) ?fp"
    have "(input_queue ?fp)\<lparr>queue := []\<rparr> = input_queue ?fp" using Nil by simp
    then have "same_queue_as ?fp [] ?fp'"
      using fp(1) by (simp add: set_tracker_def same_queue_as_def inv_cleanup)
    then show thesis
      by (rule idle [OF Nil]) (use w assms(4,5) in \<open>simp add: worker_step_def p run_body_def\<close>)
  next
    case (Cons j js)
    let ?q = "(input_queue ?fp)\<lparr>queue := js\<rparr>"
    have p: "popWithTimeout (input_queue ?fp) = (Some j, ?q)" using Cons by (simp add: popWithTimeout_eq take_front_def)
    have ok: "tracker_inv (conn_tracker (?fp\<lparr>input_queue := ?q\<rparr>))" "\<forall>job. Some j = Some job \<longrightarrow> job_ok job"
      using fp Cons by simp_all
    obtain out fp' where b: "run_body ns t1 t2 rules (Some j) (?fp\<lparr>input_queue := ?q\<rparr>) = Inr (out, fp')"
        "tracker_inv (conn_tracker fp')" "map_option fst out = Some j"
        "\<forall>job action. out = Some (job, action) \<longrightarrow> action \<in> {FORWARD, DROP}" "input_queue fp' = ?q"
        "fp_running fp' = fp_running ?fp"
      using run_body_result [OF ok, of ns t1 t2 rules] by auto
    then obtain action where out: "out = Some (j, action)" "action = FORWARD \<or> action = DROP"
      by (cases out) auto
    have sq: "same_queue_as ?fp js fp'" using b(2,5,6) by (simp add: same_queue_as_def)
    from out(2) show thesis
    proof
      assume "action = DROP"
      then show thesis
        using drop [OF Cons sq] w assms(4,5) b(1) out(1)
        by (simp add: worker_step_def p handleOutput_def)
    next
      assume "action = FORWARD"
      then show thesis
        using forward [OF Cons sq] w assms(4,5) b(1) out(1)
        by (simp add: worker_step_def p handleOutput_def)
    qed
  qed
qed

section \<open>The steps implement the moves\<close>

lemma lanes_of_update_worker:
  assumes "w < length (workers s)"
  shows "lanes_of (update_worker w fp s) =
    (lanes_of s)\<lparr>l_worker := (l_worker (lanes_of s))(w := opt_list (holding s ! w) @ queue (input_queue fp))\<rparr>"
  using assms by (auto simp: lanes_of_def worker_jobs_def fun_eq_iff nth_list_update)

lemma lanes_of_update_lb:
  assumes "i < length (lbs (tier s))"
  shows "lanes_of (update_lb i lb s) = (lanes_of s)\<lparr>l_lb := (l_lb (lanes_of s))(i := lb_jobs lb)\<rparr>"
  using assms by (auto simp: lanes_of_def worker_jobs_def fun_eq_iff nth_list_update)

lemma lanes_of_simps [simp]:
  "l_read (lanes_of s) = to_read s" "l_out (lanes_of s) = queue (outq s)"
  "l_written (lanes_of s) = written s" "l_dropped (lanes_of s) = dropped s"
  "i < length (lbs (tier s)) \<Longrightarrow> l_lb (lanes_of s) i = lb_jobs (lbs (tier s) ! i)"
  "w < length (workers s) \<Longrightarrow> l_worker (lanes_of s) w = opt_list (holding s ! w) @ queue (input_queue (workers s ! w))"
  by (simp_all add: lanes_of_def worker_jobs_def)

lemma lanes_of_other [simp]:
  "lanes_of (s\<lparr>sys_stats := st\<rparr>) = lanes_of s" "lanes_of (s\<lparr>engine_running := b\<rparr>) = lanes_of s"
  "lanes_of (s\<lparr>lb_alive := bs\<rparr>) = lanes_of s" "lanes_of (s\<lparr>fp_alive := bs\<rparr>) = lanes_of s"
  "lanes_of (s\<lparr>writer_alive := b\<rparr>) = lanes_of s"
  "lanes_of (s\<lparr>to_read := js\<rparr>) = (lanes_of s)\<lparr>l_read := js\<rparr>"
  "lanes_of (s\<lparr>outq := q\<rparr>) = (lanes_of s)\<lparr>l_out := queue q\<rparr>"
  "lanes_of (s\<lparr>dropped := ds\<rparr>) = (lanes_of s)\<lparr>l_dropped := ds\<rparr>"
  "lanes_of (s\<lparr>written := ws\<rparr>) = (lanes_of s)\<lparr>l_written := ws\<rparr>"
  by (simp_all add: lanes_of_def worker_jobs_def cong: if_cong)

lemma lanes_of_holding:
  assumes "w < length (workers s)" and "length (holding s) = length (workers s)"
  shows "lanes_of (s\<lparr>holding := (holding s)[w := h]\<rparr>) =
    (lanes_of s)\<lparr>l_worker := (l_worker (lanes_of s))(w := opt_list h @ queue (input_queue (workers s ! w)))\<rparr>"
  using assms by (auto simp: lanes_of_def worker_jobs_def fun_eq_iff nth_list_update)

lemma lanes_upd_same: "l_lb a i = x \<Longrightarrow> a\<lparr>l_lb := (l_lb a)(i := x)\<rparr> = a"
  "l_worker a w = y \<Longrightarrow> a\<lparr>l_worker := (l_worker a)(w := y)\<rparr> = a"
  by auto

lemma lb_take_jobs: "in_hand lb = None \<Longrightarrow> lb_jobs (lb_take lb) = lb_jobs lb"
  by (cases "queue (lb_input lb)")
     (simp_all add: lb_take_def lb_jobs_def popWithTimeout_eq take_front_def)

lemma sim_read:
  assumes "topology l f s" and "shut_order s" and "reader_step s = Inr (Some s')"
  shows "move l f (lanes_of s) (lanes_of s')"
proof -
  obtain j js where r: "to_read s = j # js"
    using assms(3) by (auto simp: reader_step_def split: list.splits)
  let ?i = "route l f (job_tuple j) div f"
  have i: "?i < length (lbs (tier s))"
    using assms(1) route_div_bound [of f l "job_tuple j"] by (simp add: topology_def)
  have s': "s' = update_lb ?i ((lbs (tier s) ! ?i)\<lparr>lb_input := enqueue j (lb_input (lbs (tier s) ! ?i))\<rparr>) (s\<lparr>to_read := js\<rparr>)"
    using reader_step_eq [OF assms(1,2) r] assms(3) by (simp split: if_splits)
  have "lanes_of s' = (lanes_of s)\<lparr>l_read := js, l_lb := (l_lb (lanes_of s))(?i := l_lb (lanes_of s) ?i @ [j])\<rparr>"
    using i by (simp add: s' lanes_of_update_lb lb_jobs_def)
  then show ?thesis using move.M_read [of "lanes_of s" j js ?i l f] r by simp
qed

lemma sim_lb_push:
  assumes "topology l f s" and "shut_order s" and "routed l f (lanes_of s)" and "lb_push_step i s = Inr (Some s')"
  shows "move l f (lanes_of s) (lanes_of s')"
proof -
  have i: "i < length (lbs (tier s))" "i < l" and h: "in_hand (lbs (tier s) ! i) \<noteq> None"
    using assms(1,4) by (auto simp: lb_push_step_def topology_def split: if_splits)
  obtain j where j: "in_hand (lbs (tier s) ! i) = Some j" using h by auto
  let ?w = "route l f (job_tuple j)"
  have w: "?w < length (workers s)" using assms(1) route_bound [of f l "job_tuple j"] by (simp add: topology_def)
  obtain lb where lb: "in_hand lb = None" "lb_input lb = lb_input (lbs (tier s) ! i)"
      "s' = update_lb i lb (update_worker ?w
        ((workers s ! ?w)\<lparr>input_queue := enqueue j (input_queue (workers s ! ?w))\<rparr>) s)"
    using lb_push_step_eq [OF assms(1-3) i(2) j] assms(4) by (auto split: if_splits)
  have "lanes_of s' = (lanes_of s)\<lparr>l_lb := (l_lb (lanes_of s))(i := queue (lb_input (lbs (tier s) ! i))),
      l_worker := (l_worker (lanes_of s))(?w := l_worker (lanes_of s) ?w @ [j])\<rparr>"
    using i w lb by (simp add: lanes_of_update_lb lanes_of_update_worker lb_jobs_def)
  moreover have "l_lb (lanes_of s) i = j # queue (lb_input (lbs (tier s) ! i))"
    using i j by (simp add: lb_jobs_def)
  ultimately show ?thesis using move.M_dispatch [of "lanes_of s" i j _ ?w l f] by simp
qed

lemma sim_lb_pop:
  assumes "lb_pop_step i s = Some s'"
  shows "lanes_of s' = lanes_of s"
proof -
  have i: "i < length (lbs (tier s))" "in_hand (lbs (tier s) ! i) = None"
    "s' = update_lb i (lb_take (lbs (tier s) ! i)) s"
    using assms by (auto simp: lb_pop_step_def split: if_splits)
  show ?thesis
    unfolding i(3) lanes_of_update_lb [OF i(1)] lb_take_jobs [OF i(2)]
    using i(1) by (intro lanes_upd_same) simp
qed

lemma sim_work:
  assumes "topology l f s" and "healthy s" and "worker_step rules ns t1 t2 w s = Inr (Some s')"
  shows "move l f (lanes_of s) (lanes_of s')"
proof -
  have w: "w < length (workers s)" "w < l * f" "fp_alive s ! w" "holding s ! w = None"
    and h: "length (holding s) = length (workers s)"
    using assms(1,3) by (auto simp: worker_step_def topology_def split: if_splits)
  note upd = lanes_of_update_worker [OF w(1)] same_queue_as_def w(4)
  from assms(1,2) w(2,3,4) show ?thesis
  proof (cases rule: worker_step_cases [where rules = rules and ns = ns and ?t1.0 = t1 and ?t2.0 = t2])
    case (idle fp')
    then have "lanes_of s' = lanes_of s"
      using assms(3) w by (simp add: upd lanes_upd_same)
    then show ?thesis by (simp add: M_stay)
  next
    case (drop j js fp')
    then have "lanes_of s' = (lanes_of s)\<lparr>l_worker := (l_worker (lanes_of s))(w := js),
        l_dropped := l_dropped (lanes_of s) @ [j]\<rparr>"
      using assms(3) by (auto simp: upd)
    then show ?thesis using M_drop [of "lanes_of s" w j js] drop(1) w by simp
  next
    case (forward j js fp')
    have "lanes_of s' = (lanes_of s)\<lparr>l_worker := (l_worker (lanes_of s))(w := j # js)\<rparr>"
      using assms(3) forward w h
        lanes_of_holding [of w "(update_worker w fp' s)\<lparr>sys_stats := (sys_stats s)
          \<lparr>forwarded_packets := forwarded_packets (sys_stats s) + 1\<rparr>\<rparr>" "Some j"]
      by (auto simp: upd)
    then have "lanes_of s' = lanes_of s" using forward(1) w by (simp add: lanes_upd_same)
    then show ?thesis by (simp add: M_stay)
  qed
qed

lemma emit_step_eq:
  assumes "topology l f s" and "shut_order s" and "w < l * f" and "holding s ! w = Some j"
  shows "emit_step w s =
    (if length (queue (outq s)) < max_size (outq s)
     then Some (s\<lparr>outq := enqueue j (outq s), holding := (holding s)[w := None]\<rparr>) else None)"
proof -
  have w: "w < length (workers s)" "w < length (holding s)" "w < length (fp_alive s)"
    using assms(1,3) by (auto simp: topology_def)
  then have "\<not> is_shutdown (outq s)" using assms(2,4) by (auto simp: shut_order_def)
  then show ?thesis using w assms(4) by (simp add: emit_step_def push_open)
qed

lemma sim_emit:
  assumes "topology l f s" and "shut_order s" and "emit_step w s = Some s'"
  shows "move l f (lanes_of s) (lanes_of s')"
proof -
  have w: "w < l * f" "w < length (workers s)" and h: "length (holding s) = length (workers s)"
    using assms(1,3) by (auto simp: emit_step_def topology_def split: if_splits)
  obtain j where j: "holding s ! w = Some j"
    using assms(3) by (auto simp: emit_step_def split: if_splits option.splits)
  have s': "s' = s\<lparr>outq := enqueue j (outq s), holding := (holding s)[w := None]\<rparr>"
    using emit_step_eq [OF assms(1,2) w(1) j] assms(3) by (simp split: if_splits)
  have "lanes_of s' = (lanes_of s)\<lparr>l_worker := (l_worker (lanes_of s))(w := queue (input_queue (workers s ! w))),
      l_out := l_out (lanes_of s) @ [j]\<rparr>"
    using lanes_of_holding [of w "s\<lparr>outq := enqueue j (outq s)\<rparr>" None] w h by (simp add: s')
  then show ?thesis using M_emit [of "lanes_of s" w j] w j by simp
qed

lemma sim_write:
  assumes "writer_step s = Some s'"
  shows "move l f (lanes_of s) (lanes_of s')"
proof (cases "queue (outq s)")
  case Nil
  then have "s' = s\<lparr>outq := outq s\<rparr>" using assms by (simp add: writer_step_def tsq.get_empty split: if_splits)
  then show ?thesis by (simp add: M_stay)
next
  case (Cons j js)
  then have "s' = s\<lparr>outq := (outq s)\<lparr>queue := js\<rparr>, written := written s @ [j]\<rparr>"
    using assms by (simp add: writer_step_def popWithTimeout_eq take_front_def split: if_splits)
  then show ?thesis using M_write [of "lanes_of s" j js] Cons by simp
qed

section \<open>What every step keeps\<close>

lemma nth_update: "xs[i := x] ! j = (if i = j \<and> j < length xs then x else xs ! j)"
  by (cases "i < length xs") (auto simp: nth_list_update list_update_beyond)

lemma topology_update_lb [keeps]:
  "topology l f s \<Longrightarrow> num_fps lb = num_fps (lbs (tier s) ! i) \<Longrightarrow> fp_queues lb = fp_queues (lbs (tier s) ! i) \<Longrightarrow>
   max_size (lb_input lb) = max_size (lb_input (lbs (tier s) ! i)) \<Longrightarrow> topology l f (update_lb i lb s)"
  by (simp add: topology_def nth_update)

lemma topology_update_worker [keeps]:
  "topology l f s \<Longrightarrow> max_size (input_queue fp) = max_size (input_queue (workers s ! w)) \<Longrightarrow>
   topology l f (update_worker w fp s)"
  by (simp add: topology_def nth_update)

lemma topology_other [simp]:
  "topology l f (s\<lparr>to_read := js\<rparr>) = topology l f s"
  "topology l f (s\<lparr>written := js\<rparr>) = topology l f s" "topology l f (s\<lparr>dropped := js\<rparr>) = topology l f s"
  "topology l f (s\<lparr>sys_stats := st\<rparr>) = topology l f s" "topology l f (s\<lparr>engine_running := b\<rparr>) = topology l f s"
  "topology l f (s\<lparr>writer_alive := b\<rparr>) = topology l f s"
  "topology l f (s\<lparr>holding := (holding s')[w := h]\<rparr>) = topology l f (s\<lparr>holding := holding s'\<rparr>)"
  "topology l f (s\<lparr>lb_alive := (lb_alive s')[i := b]\<rparr>) = topology l f (s\<lparr>lb_alive := lb_alive s'\<rparr>)"
  "topology l f (s\<lparr>fp_alive := (fp_alive s')[i := b]\<rparr>) = topology l f (s\<lparr>fp_alive := fp_alive s'\<rparr>)"
  by (simp_all add: topology_def)

lemma shut_order_update_lb [keeps]:
  assumes "shut_order s" and "is_shutdown (lb_input lb) = is_shutdown (lb_input (lbs (tier s) ! i))"
    and "lb_running lb = lb_running (lbs (tier s) ! i)" and "in_hand lb = None \<or> lb_alive s ! i"
  shows "shut_order (update_lb i lb s)"
proof -
  have "is_shutdown (lb_input ((lbs (tier s))[i := lb] ! v)) = is_shutdown (lb_input (lbs (tier s) ! v))"
    "lb_running ((lbs (tier s))[i := lb] ! v) = lb_running (lbs (tier s) ! v)" for v
    using assms(2,3) by (simp_all add: nth_update)
  moreover have "in_hand ((lbs (tier s))[i := lb] ! v) = None"
    if "in_hand (lbs (tier s) ! v) = None" "\<not> lb_alive s ! v" for v
    using that assms(4) by (auto simp: nth_update)
  ultimately show ?thesis using assms(1) by (simp add: shut_order_def)
qed

lemma shut_order_update_worker [keeps]:
  assumes "shut_order s" and "is_shutdown (input_queue fp) = is_shutdown (input_queue (workers s ! w))"
    and "fp_running fp = fp_running (workers s ! w)"
  shows "shut_order (update_worker w fp s)"
proof -
  have "is_shutdown (input_queue ((workers s)[w := fp] ! v)) = is_shutdown (input_queue (workers s ! v))"
    "fp_running ((workers s)[w := fp] ! v) = fp_running (workers s ! v)" for v
    using assms(2,3) by (simp_all add: nth_update)
  then show ?thesis using assms(1) by (simp add: shut_order_def)
qed

lemma shut_order_other [simp]:
  "shut_order (s\<lparr>written := js\<rparr>) = shut_order s" "shut_order (s\<lparr>dropped := js\<rparr>) = shut_order s"
  "shut_order (s\<lparr>sys_stats := st\<rparr>) = shut_order s"
  by (simp_all add: shut_order_def)

lemma healthy_update_lb [keeps]:
  "healthy s \<Longrightarrow> \<forall>job \<in> set (lb_jobs lb). job_ok job \<Longrightarrow> healthy (update_lb i lb s)"
  using set_update_subset_insert [of "lbs (tier s)" i lb] by (auto simp: healthy_def)

lemma healthy_update_worker [keeps]:
  "healthy s \<Longrightarrow> tracker_inv (conn_tracker fp) \<Longrightarrow> \<forall>job \<in> set (queue (input_queue fp)). job_ok job \<Longrightarrow>
   healthy (update_worker w fp s)"
  using set_update_subset_insert [of "workers s" w fp] by (auto simp: healthy_def)

lemma healthy_other [simp]:
  "healthy (s\<lparr>outq := q\<rparr>) = healthy s" "healthy (s\<lparr>written := js\<rparr>) = healthy s"
  "healthy (s\<lparr>dropped := js\<rparr>) = healthy s" "healthy (s\<lparr>sys_stats := st\<rparr>) = healthy s"
  "healthy (s\<lparr>engine_running := b\<rparr>) = healthy s" "healthy (s\<lparr>writer_alive := b\<rparr>) = healthy s"
  "healthy (s\<lparr>holding := hs\<rparr>) = healthy s" "healthy (s\<lparr>lb_alive := bs\<rparr>) = healthy s"
  "healthy (s\<lparr>fp_alive := bs\<rparr>) = healthy s"
  by (simp_all add: healthy_def)

definition sound_state :: "nat \<Rightarrow> nat \<Rightarrow> system \<Rightarrow> bool" where
  "sound_state l f s \<longleftrightarrow> topology l f s \<and> shut_order s \<and> healthy s \<and> routed l f (lanes_of s)"

text \<open>The first three parts, step by step; the fourth follows from the simulation.\<close>

definition kept :: "nat \<Rightarrow> nat \<Rightarrow> system \<Rightarrow> bool" where
  "kept l f s \<longleftrightarrow> topology l f s \<and> shut_order s \<and> healthy s"

lemma keep_read:
  assumes "topology l f s" and "shut_order s" and "healthy s" and "reader_step s = Inr (Some s')"
  shows "kept l f s'"
proof -
  obtain j js where r: "to_read s = j # js"
    using assms(4) by (auto simp: reader_step_def split: list.splits)
  let ?i = "route l f (job_tuple j) div f"
  let ?lb = "lbs (tier s) ! ?i"
  let ?t = "s\<lparr>to_read := js\<rparr>"
  have i: "?i < length (lbs (tier s))"
    using assms(1) route_div_bound [of f l "job_tuple j"] by (simp add: topology_def)
  have s': "s' = update_lb ?i (?lb\<lparr>lb_input := enqueue j (lb_input ?lb)\<rparr>) ?t"
    using reader_step_eq [OF assms(1,2) r] assms(4) by (simp split: if_splits)
  have "shut_order ?t" using assms(2) r by (auto simp: shut_order_def)
  moreover have "healthy ?t" "\<forall>job \<in> set (lb_jobs ?lb). job_ok job" "job_ok j"
    using assms(3) r i by (auto simp: healthy_def)
  ultimately show ?thesis
    using assms(1,2) i unfolding kept_def s'
    by (intro conjI keeps)
       (auto simp: lb_jobs_def shut_order_def)
qed

lemma keep_lb_pop:
  assumes "topology l f s" and "shut_order s" and "healthy s" and "lb_pop_step i s = Some s'"
  shows "kept l f s'"
proof -
  let ?lb = "lbs (tier s) ! i"
  have i: "i < length (lbs (tier s))" "lb_alive s ! i" "in_hand ?lb = None" "s' = update_lb i (lb_take ?lb) s"
    using assms(4) by (auto simp: lb_pop_step_def split: if_splits)
  have "num_fps (lb_take ?lb) = num_fps ?lb" "max_size (lb_input (lb_take ?lb)) = max_size (lb_input ?lb)" "fp_queues (lb_take ?lb) = fp_queues ?lb"
    "is_shutdown (lb_input (lb_take ?lb)) = is_shutdown (lb_input ?lb)" "lb_running (lb_take ?lb) = lb_running ?lb"
    by (auto simp: lb_take_def popWithTimeout_eq take_front_def split: list.splits)
  moreover have "\<forall>job \<in> set (lb_jobs ?lb). job_ok job" using assms(3) i(1) by (auto simp: healthy_def)
  ultimately show ?thesis
    using assms(1-3) i lb_take_jobs [OF i(3)] unfolding kept_def i(4)
    by (intro conjI keeps) auto
qed

lemma keep_lb_push:
  assumes "topology l f s" and "shut_order s" and "healthy s" and "routed l f (lanes_of s)"
    and "lb_push_step i s = Inr (Some s')"
  shows "kept l f s'"
proof -
  let ?lb = "lbs (tier s) ! i"
  have i: "i < length (lbs (tier s))" "i < l" and h: "in_hand ?lb \<noteq> None"
    using assms(1,5) by (auto simp: lb_push_step_def topology_def split: if_splits)
  obtain j where j: "in_hand ?lb = Some j" using h by auto
  let ?w = "route l f (job_tuple j)"
  let ?fp = "(workers s ! ?w)\<lparr>input_queue := enqueue j (input_queue (workers s ! ?w))\<rparr>"
  have w: "?w < length (workers s)" using assms(1) route_bound [of f l "job_tuple j"] by (simp add: topology_def)
  obtain lb where lb: "in_hand lb = None" "lb_input lb = lb_input ?lb" "num_fps lb = num_fps ?lb"
      "fp_queues lb = fp_queues ?lb" "lb_running lb = lb_running ?lb" "s' = update_lb i lb (update_worker ?w ?fp s)"
    using lb_push_step_eq [OF assms(1,2,4) i(2) j] assms(5) by (auto split: if_splits)
  have ok: "\<forall>job \<in> set (lb_jobs ?lb). job_ok job" using assms(3) i(1) by (auto simp: healthy_def)
  have fp: "tracker_inv (conn_tracker (workers s ! ?w))"
    "\<forall>job \<in> set (queue (input_queue (workers s ! ?w))). job_ok job"
    using assms(3) w by (auto simp: healthy_def)
  show ?thesis
    using assms(1-3) lb(1-5) ok fp j unfolding kept_def lb(6)
    by (intro conjI keeps) (auto simp: lb_jobs_def)
qed

lemma keep_work:
  assumes "topology l f s" and "shut_order s" and "healthy s"
    and "worker_step rules ns t1 t2 w s = Inr (Some s')"
  shows "kept l f s'"
proof -
  have w: "w < length (workers s)" "w < l * f" "w < length (holding s)" "fp_alive s ! w" "holding s ! w = None"
    using assms(1,4) by (auto simp: worker_step_def topology_def split: if_splits)
  have jobs: "\<forall>job \<in> set (queue (input_queue (workers s ! w))). job_ok job"
    using assms(3) w(1) by (auto simp: healthy_def)
  have upd: "kept l f (update_worker w fp' s)"
    if "same_queue_as (workers s ! w) js fp'" and "set js \<subseteq> set (queue (input_queue (workers s ! w)))" for fp' js
    using assms(1-3) that jobs unfolding kept_def same_queue_as_def
    by (intro conjI keeps) auto
  from assms(1,3) w(2,4,5) show ?thesis
  proof (cases rule: worker_step_cases [where rules = rules and ns = ns and ?t1.0 = t1 and ?t2.0 = t2])
    case (idle fp')
    then show ?thesis using upd [OF idle(2)] assms(4) by simp
  next
    case (drop j js fp')
    then show ?thesis using upd [OF drop(2)] assms(4) by (auto simp: kept_def)
  next
    case (forward j js fp')
    then have u: "kept l f (update_worker w fp' s)" using upd [OF forward(2)] by auto
    let ?u = "(update_worker w fp' s)\<lparr>sys_stats := (sys_stats s)
      \<lparr>forwarded_packets := forwarded_packets (sys_stats s) + 1\<rparr>\<rparr>"
    have "s' = ?u\<lparr>holding := (holding s)[w := Some j]\<rparr>" using forward(3) assms(4) by simp
    moreover have "shut_order (?u\<lparr>holding := (holding s)[w := Some j]\<rparr>)"
      using u w(4) by (auto simp: kept_def shut_order_def nth_update)
    moreover have "topology l f (?u\<lparr>holding := (holding s)[w := Some j]\<rparr>)"
      using u by (simp add: kept_def topology_def)
    ultimately show ?thesis using u by (simp add: kept_def)
  qed
qed

lemma keep_emit:
  assumes "topology l f s" and "shut_order s" and "healthy s" and "emit_step w s = Some s'"
  shows "kept l f s'"
proof -
  have w: "w < l * f" "w < length (workers s)"
    using assms(1,4) by (auto simp: emit_step_def topology_def split: if_splits)
  obtain j where j: "holding s ! w = Some j"
    using assms(4) by (auto simp: emit_step_def split: if_splits option.splits)
  have s': "s' = s\<lparr>outq := enqueue j (outq s), holding := (holding s)[w := None]\<rparr>"
    using emit_step_eq [OF assms(1,2) w(1) j] assms(4) by (simp split: if_splits)
  have "shut_order (s\<lparr>outq := enqueue j (outq s)\<rparr>)" using assms(2) by (auto simp: shut_order_def)
  then have "shut_order s'" unfolding s' by (simp add: shut_order_def nth_update)
  moreover have "topology l f s'" using assms(1) unfolding s' by (simp add: topology_def)
  ultimately show ?thesis using assms(3) by (simp add: kept_def s')
qed

lemma keep_write:
  assumes "topology l f s" and "shut_order s" and "healthy s" and "writer_step s = Some s'"
  shows "kept l f s'"
proof -
  obtain q ws where s': "s' = s\<lparr>outq := q, written := ws\<rparr>" 
    and q: "is_shutdown q = is_shutdown (outq s)" "max_size q = max_size (outq s)"
  proof (cases "queue (outq s)")
    case Nil
    then have "s' = s\<lparr>outq := outq s, written := written s\<rparr>"
      using assms(4) by (simp add: writer_step_def tsq.get_empty split: if_splits)
    then show thesis by (rule that) simp_all
  next
    case (Cons j js)
    then have "s' = s\<lparr>outq := (outq s)\<lparr>queue := js\<rparr>, written := written s @ [j]\<rparr>"
      using assms(4) by (simp add: writer_step_def popWithTimeout_eq take_front_def split: if_splits)
    then show thesis by (rule that) simp_all
  qed
  have "shut_order (s\<lparr>outq := q\<rparr>)" using assms(2) q by (auto simp: shut_order_def)
  moreover have "topology l f (s\<lparr>outq := q\<rparr>)" using assms(1) q by (auto simp: topology_def)
  ultimately show ?thesis using assms(3) by (simp add: kept_def s')
qed

text \<open>Clearing a flag, shutting a queue down and leaving a loop move no job.\<close>

lemma lanes_of_lb_stop:
  "i < length (lbs (tier s)) \<Longrightarrow> lanes_of (update_lb i (lb_stop (lbs (tier s) ! i)) s) = lanes_of s"
  by (simp add: lanes_of_update_lb lb_jobs_def lanes_upd_same lb_stop_def shutdown_def)

lemma lanes_of_fp_stop:
  "w < length (workers s) \<Longrightarrow> lanes_of (update_worker w (fp_stop (workers s ! w)) s) = lanes_of s"
  by (simp add: lanes_of_update_worker lanes_upd_same fp_stop_def shutdown_def)

lemma keep_stop: "kept l f s \<Longrightarrow> to_read s = [] \<Longrightarrow> kept l f (s\<lparr>engine_running := False\<rparr>)"
  by (simp add: kept_def shut_order_def)

lemma keep_lb_stop:
  assumes "kept l f s" and "\<not> engine_running s" and "i < length (lbs (tier s))"
  shows "kept l f (update_lb i (lb_stop (lbs (tier s) ! i)) s)"
proof -
  let ?s = "update_lb i (lb_stop (lbs (tier s) ! i)) s"
  have "topology l f ?s" using assms(1) by (intro topology_update_lb) (simp_all add: kept_def lb_stop_def shutdown_def)
  moreover have "shut_order ?s"
    using assms by (simp add: kept_def shut_order_def nth_update lb_stop_def shutdown_def)
  moreover have "healthy ?s"
    using assms(1,3) by (intro healthy_update_lb) (auto simp: kept_def healthy_def lb_jobs_def lb_stop_def shutdown_def)
  ultimately show ?thesis by (simp add: kept_def)
qed

lemma keep_fp_stop:
  assumes "kept l f s" and "\<forall>i < length (lb_alive s). \<not> lb_alive s ! i" and "w < length (workers s)"
  shows "kept l f (update_worker w (fp_stop (workers s ! w)) s)"
proof -
  let ?s = "update_worker w (fp_stop (workers s ! w)) s"
  have "topology l f ?s" using assms(1) by (intro topology_update_worker) (simp_all add: kept_def fp_stop_def shutdown_def)
  moreover have "shut_order ?s"
    using assms by (simp add: kept_def shut_order_def nth_update fp_stop_def shutdown_def)
  moreover have "healthy ?s"
    using assms(1,3) by (intro healthy_update_worker) (auto simp: kept_def healthy_def fp_stop_def shutdown_def)
  ultimately show ?thesis by (simp add: kept_def)
qed

lemma keep_lb_exit:
  "kept l f s \<Longrightarrow> \<not> lb_running (lbs (tier s) ! i) \<Longrightarrow> in_hand (lbs (tier s) ! i) = None \<Longrightarrow>
   kept l f (s\<lparr>lb_alive := (lb_alive s)[i := False]\<rparr>)"
  by (simp add: kept_def shut_order_def topology_def nth_update)

lemma keep_fp_exit:
  "kept l f s \<Longrightarrow> \<not> fp_running (workers s ! w) \<Longrightarrow> holding s ! w = None \<Longrightarrow>
   kept l f (s\<lparr>fp_alive := (fp_alive s)[w := False]\<rparr>)"
  by (simp add: kept_def shut_order_def topology_def nth_update)

lemma keep_out_shutdown:
  "kept l f s \<Longrightarrow> \<not> engine_running s \<Longrightarrow> \<forall>w < length (fp_alive s). \<not> fp_alive s ! w \<Longrightarrow>
   kept l f (s\<lparr>outq := shutdown (outq s)\<rparr>)"
  by (simp add: kept_def shut_order_def topology_def shutdown_def)

lemma keep_writer_exit: "kept l f s \<Longrightarrow> \<not> engine_running s \<Longrightarrow> kept l f (s\<lparr>writer_alive := False\<rparr>)"
  by (simp add: kept_def shut_order_def)

lemma step_sound:
  assumes "sound_state l f s" and "step rules s s'"
  shows "move l f (lanes_of s) (lanes_of s') \<and> sound_state l f s'"
proof -
  have t: "topology l f s" and o: "shut_order s" and h: "healthy s" and r: "routed l f (lanes_of s)" and k: "kept l f s"
    using assms(1) by (auto simp: sound_state_def kept_def)
  have "move l f (lanes_of s) (lanes_of s') \<and> kept l f s'"
    using assms(2)
  proof (cases rule: step.cases)
    case Read
    then show ?thesis using sim_read [OF t o] keep_read [OF t o h] by blast
  next
    case (Lb_pop i)
    then show ?thesis using sim_lb_pop [of i s s'] keep_lb_pop [OF t o h] by (metis M_stay)
  next
    case (Lb_push i)
    then show ?thesis using sim_lb_push [OF t o r] keep_lb_push [OF t o h r] by blast
  next
    case (Work ns t1 t2 w)
    then show ?thesis using sim_work [OF t h] keep_work [OF t o h] by blast
  next
    case (Emit w)
    then show ?thesis using sim_emit [OF t o] keep_emit [OF t o h] by blast
  next
    case Write
    then show ?thesis using sim_write keep_write [OF t o h] by blast
  next
    case Stop
    then show ?thesis using keep_stop [OF k] by (simp add: M_stay)
  next
    case (Lb_stop i)
    then show ?thesis using keep_lb_stop [OF k] by (simp add: lanes_of_lb_stop M_stay)
  next
    case (Lb_exit i)
    then show ?thesis using keep_lb_exit [OF k] by (simp add: M_stay)
  next
    case (Fp_stop w)
    then show ?thesis using keep_fp_stop [OF k] by (simp add: lanes_of_fp_stop M_stay)
  next
    case (Fp_exit w)
    then show ?thesis using keep_fp_exit [OF k] by (simp add: M_stay)
  next
    case Out_shutdown
    have "lanes_of s' = lanes_of s" using Out_shutdown(1) by (simp add: shutdown_def)
    moreover have "kept l f s'" using Out_shutdown keep_out_shutdown [OF k] by simp
    ultimately show ?thesis using M_stay [of l f "lanes_of s"] by simp
  next
    case Writer_exit
    then show ?thesis using keep_writer_exit [OF k] by (simp add: M_stay)
  qed
  then show ?thesis using move_routed [OF _ r] by (auto simp: sound_state_def kept_def)
qed

lemma start_sound:
  assumes "0 < l" and "0 < f" and "f < 2 ^ 31" and "\<forall>job \<in> set jobs. job_ok job"
  shows "sound_state l f (start_system l f jobs)"
proof -
  let ?s = "start_system l f jobs"
  have lb: "in_hand (lbs (tier ?s) ! i) = None" "lb_input (lbs (tier ?s) ! i) = new_queue 10000"
    "num_fps (lbs (tier ?s) ! i) = f" "fp_queues (lbs (tier ?s) ! i) = [i * f..<i * f + f]"
    "lb_running (lbs (tier ?s) ! i)" if "i < l" for i
    using that by (simp_all add: start_lb [OF assms(2)] new_load_balancer_def lb_start_def)
  have fp: "input_queue (workers ?s ! w) = new_queue 10000" "tracker_inv (conn_tracker (workers ?s ! w))"
    "fp_running (workers ?s ! w)" if "w < l * f" for w
    using that by (simp_all add: start_fp new_fast_path_def fp_start_def tracker_inv_new)
  have "topology l f ?s"
    using assms(1-3) by (simp add: topology_def lb fp new_queue_def)
  moreover have "shut_order ?s"
    by (simp add: shut_order_def lb fp new_queue_def)
  moreover have "healthy ?s"
    using assms(4) by (auto simp: healthy_def lb fp new_queue_def lb_jobs_def in_set_conv_nth)
  moreover have "routed l f (lanes_of ?s)"
    by (auto simp: routed_def lanes_of_def lb fp lb_jobs_def worker_jobs_def new_queue_def)
  ultimately show ?thesis by (simp add: sound_state_def)
qed

lemma start_lane_ok:
  assumes "0 < l" and "0 < f"
  shows "lane_ok l f jobs (lanes_of (start_system l f jobs))"
proof -
  let ?s = "start_system l f jobs"
  have "l_lb (lanes_of ?s) i = []" for i
    using start_empty [OF nth_mem, of i l f jobs] by (simp add: lanes_of_def lb_jobs_def new_queue_def)
  moreover have "l_worker (lanes_of ?s) w = []" for w
    using start_idle [OF nth_mem, of w l f jobs] by (simp add: lanes_of_def worker_jobs_def new_queue_def)
  ultimately show ?thesis by (simp add: lane_ok_def lane_def lanes_of_def new_queue_def)
qed

lemma reachable_sound:
  assumes "reachable rules s0 s" and "sound_state l f s0" and "lane_ok l f jobs (lanes_of s0)"
  shows "sound_state l f s \<and> lane_ok l f jobs (lanes_of s)"
  using assms
proof (induction rule: reachable.induct)
  case (Next s s')
  then have s: "sound_state l f s" "lane_ok l f jobs (lanes_of s)" by auto
  then have "routed l f (lanes_of s)" by (simp add: sound_state_def)
  then show ?case using step_sound [OF s(1) Next(2)] move_lane_ok s(2) by blast
qed simp

lemma from_start:
  assumes "0 < l" and "0 < f" and "f < 2 ^ 31" and "\<forall>job \<in> set jobs. job_ok job"
    and "reachable rules (start_system l f jobs) s"
  shows "sound_state l f s" and "lane_ok l f jobs (lanes_of s)"
  using reachable_sound [OF assms(5) start_sound [OF assms(1-4)] start_lane_ok [OF assms(1,2)]] by auto

end
