(* ===== verification/Pipeline_Runs.thy ===== *)
theory Pipeline_Runs
  imports Pipeline
begin

text \<open>
  Runs of the threads of \<open>Pipeline\<close>: no job is lost, no thread faults, the threads do not
  deadlock and do not move jobs forever, and what \<open>stop\<close> does to the jobs that are under way.
\<close>

section \<open>Nothing is lost, nothing faults, and the engine drains\<close>

definition in_flight :: "system \<Rightarrow> packet_job list" where
  "in_flight s =
     to_read s @ concat (map lb_jobs (lbs (tier s))) @
     concat (map (worker_jobs s) [0..<length (workers s)]) @ queue (outq s)"

text \<open>The jobs of all lanes, as a multiset.\<close>

definition all_jobs :: "nat \<Rightarrow> nat \<Rightarrow> lanes \<Rightarrow> packet_job multiset" where
  "all_jobs l f a =
     mset (l_read a) + (\<Sum>i<l. mset (l_lb a i)) + (\<Sum>w<l * f. mset (l_worker a w)) +
     mset (l_out a) + mset (l_written a) + mset (l_dropped a)"

lemma sum_upd:
  fixes g :: "nat \<Rightarrow> 'a list"
  shows "i < n \<Longrightarrow> (\<Sum>x<n. mset ((g(i := ys)) x)) + mset (g i) = (\<Sum>x<n. mset (g x)) + mset ys"
proof -
  assume i: "i < n"
  have "(\<Sum>x \<in> {..<n} - {i}. mset ((g(i := ys)) x)) = (\<Sum>x \<in> {..<n} - {i}. mset (g x))"
    by (rule sum.cong) auto
  then show ?thesis
    using i sum.remove [of "{..<n}" i "\<lambda>x. mset ((g(i := ys)) x)"] sum.remove [of "{..<n}" i "\<lambda>x. mset (g x)"]
    by simp
qed

lemma sum_upd_add:
  fixes g :: "nat \<Rightarrow> 'a list"
  assumes "i < n"
  shows "(\<Sum>x<n. mset ((g(i := g i @ [j])) x)) = add_mset j (\<Sum>x<n. mset (g x))"
  using sum_upd [OF assms, of g "g i @ [j]"] by simp

lemma sum_upd_take:
  fixes g :: "nat \<Rightarrow> 'a list"
  assumes "i < n" and "g i = j # js"
  shows "(\<Sum>x<n. mset (g x)) = add_mset j (\<Sum>x<n. mset ((g(i := js)) x))"
  using sum_upd [OF assms(1), of g js] assms(2) by simp

lemma routed_worker:
  "routed l f a \<Longrightarrow> l_worker a w = j # js \<Longrightarrow> 0 < l \<Longrightarrow> 0 < f \<Longrightarrow> w < l * f"
  using route_bound [of f l "job_tuple j"] by (auto simp: routed_def dest!: spec [of _ w])

lemma move_all_jobs:
  assumes "move l f a b" and "routed l f a" and "0 < l" and "0 < f"
  shows "all_jobs l f b = all_jobs l f a"
  using assms
proof (induction rule: move.induct)
  case (M_read a j js i)
  then show ?case
    using route_div_bound [of f l "job_tuple j"] by (simp add: all_jobs_def sum_upd_add del: fun_upd_apply)
next
  case (M_dispatch a i j js w)
  then have "route l f (job_tuple j) div f = i" by (auto simp: routed_def)
  then have "i < l" "w < l * f"
    using route_div_bound [of f l "job_tuple j"] route_bound [of f l "job_tuple j"] M_dispatch by auto
  then show ?case
    using sum_upd_take [of i l "l_lb a" j js] M_dispatch
    by (simp add: all_jobs_def sum_upd_add del: fun_upd_apply)
next
  case (M_drop a w j js)
  then have "w < l * f" using routed_worker by blast
  then show ?case
    using sum_upd_take [of w "l * f" "l_worker a" j js] M_drop by (simp add: all_jobs_def del: fun_upd_apply)
next
  case (M_emit a w j js)
  then have "w < l * f" using routed_worker by blast
  then show ?case
    using sum_upd_take [of w "l * f" "l_worker a" j js] M_emit by (simp add: all_jobs_def del: fun_upd_apply)
qed (simp_all add: all_jobs_def)

lemma all_jobs_lanes_of:
  assumes "topology l f s"
  shows "all_jobs l f (lanes_of s) = mset (written s) + mset (dropped s) + mset (in_flight s)"
proof -
  have len: "length (lbs (tier s)) = l" "length (workers s) = l * f" using assms by (auto simp: topology_def)
  have "map lb_jobs (lbs (tier s)) = map (\<lambda>i. lb_jobs (lbs (tier s) ! i)) [0..<l]"
    by (rule nth_equalityI) (simp_all add: len)
  then have "mset (concat (map lb_jobs (lbs (tier s)))) = (\<Sum>i<l. mset (lb_jobs (lbs (tier s) ! i)))"
    by (simp add: mset_concat o_def interv_sum_list_conv_sum_set_nat atLeast0LessThan)
  moreover have "mset (concat (map (worker_jobs s) [0..<l * f])) = (\<Sum>w<l * f. mset (worker_jobs s w))"
    by (simp add: mset_concat o_def interv_sum_list_conv_sum_set_nat atLeast0LessThan)
  moreover have "(\<Sum>i<l. mset (l_lb (lanes_of s) i)) = (\<Sum>i<l. mset (lb_jobs (lbs (tier s) ! i)))"
    "(\<Sum>w<l * f. mset (l_worker (lanes_of s) w)) = (\<Sum>w<l * f. mset (worker_jobs s w))"
    by (auto intro!: sum.cong simp: len worker_jobs_def)
  ultimately show ?thesis by (simp add: all_jobs_def in_flight_def len)
qed

lemma conservation:
  assumes "0 < l" and "0 < f" and "f < 2 ^ 31" and "\<forall>job \<in> set jobs. job_ok job"
    and "reachable rules (start_system l f jobs) s"
  shows "mset (written s) + mset (dropped s) + mset (in_flight s) = mset jobs"
proof -
  let ?s0 = "start_system l f jobs"
  have "sound_state l f s \<and> all_jobs l f (lanes_of s) = all_jobs l f (lanes_of ?s0)"
    using assms(5)
  proof (induction rule: reachable.induct)
    case Start
    then show ?case using start_sound [OF assms(1-4)] by simp
  next
    case (Next s s')
    then have "sound_state l f s" "routed l f (lanes_of s)" by (auto simp: sound_state_def)
    then show ?case using step_sound [of l f s rules s'] Next move_all_jobs assms(1,2) by metis
  qed
  moreover have "all_jobs l f (lanes_of ?s0) = mset jobs"
  proof -
    have "concat (map lb_jobs (lbs (tier ?s0))) = []"
      using start_empty [of _ l f jobs] by (auto simp: lb_jobs_def new_queue_def)
    moreover have "concat (map (worker_jobs ?s0) [0..<length (workers ?s0)]) = []"
      using start_idle [OF nth_mem, of _ l f jobs] by (auto simp: worker_jobs_def new_queue_def)
    moreover have "queue (outq ?s0) = []" by (simp add: new_queue_def)
    moreover have "topology l f ?s0" using start_sound [OF assms(1-4)] by (simp add: sound_state_def)
    ultimately show ?thesis by (simp add: all_jobs_lanes_of in_flight_def)
  qed
  ultimately show ?thesis using all_jobs_lanes_of [of l f s] by (simp add: sound_state_def)
qed

lemma no_step_faults:
  assumes "sound_state l f s"
  shows "\<exists>r. reader_step s = Inr r" and "\<exists>r. lb_push_step i s = Inr r"
    and "\<exists>r. worker_step rules ns t1 t2 w s = Inr r"
proof -
  have t: "topology l f s" and o: "shut_order s" and h: "healthy s" and r: "routed l f (lanes_of s)"
    using assms by (auto simp: sound_state_def)
  show "\<exists>r. reader_step s = Inr r"
    using reader_step_eq [OF t o] by (cases "to_read s") (auto simp: reader_step_def)
  show "\<exists>r. lb_push_step i s = Inr r"
  proof (cases "i < length (lbs (tier s)) \<and> in_hand (lbs (tier s) ! i) \<noteq> None")
    case True
    then obtain j where "in_hand (lbs (tier s) ! i) = Some j" "i < l" using t by (auto simp: topology_def)
    then show ?thesis using lb_push_step_eq [OF t o r] by blast
  next
    case False
    then show ?thesis unfolding lb_push_step_def by auto
  qed
  show "\<exists>r. worker_step rules ns t1 t2 w s = Inr r"
  proof (cases "w < length (workers s) \<and> fp_alive s ! w \<and> holding s ! w = None")
    case True
    then have "w < l * f" "fp_alive s ! w" "holding s ! w = None" using t by (auto simp: topology_def)
    from t h this show ?thesis
      by (cases rule: worker_step_cases [where rules = rules and ns = ns and ?t1.0 = t1 and ?t2.0 = t2]) auto
  next
    case False
    then show ?thesis unfolding worker_step_def by auto
  qed
qed

text \<open>The steps a job has still to take, added up: each stage of the pipeline weighs one less.\<close>

definition lb_work :: "load_balancer \<Rightarrow> nat" where
  "lb_work lb = 5 * length (queue (lb_input lb)) + 4 * length (opt_list (in_hand lb))"

definition fp_work :: "fast_path \<Rightarrow> nat" where
  "fp_work fp = 3 * length (queue (input_queue fp))"

definition held_work :: "packet_job option \<Rightarrow> nat" where
  "held_work h = 2 * length (opt_list h)"

definition work :: "system \<Rightarrow> nat" where
  "work s = 6 * length (to_read s) + sum_list (map lb_work (lbs (tier s))) +
     sum_list (map fp_work (workers s)) + sum_list (map held_work (holding s)) + length (queue (outq s))"

lemma sum_map_update:
  fixes g :: "'a \<Rightarrow> nat"
  shows "i < length xs \<Longrightarrow> sum_list (map g (xs[i := x])) + g (xs ! i) = sum_list (map g xs) + g x"
  by (induction xs arbitrary: i) (auto split: nat.split)

lemma work_update_lb:
  "i < length (lbs (tier s)) \<Longrightarrow> work (update_lb i lb s) + lb_work (lbs (tier s) ! i) = work s + lb_work lb"
  using sum_map_update [of i "lbs (tier s)" lb_work lb] by (simp add: work_def)

lemma work_update_worker:
  "w < length (workers s) \<Longrightarrow> work (update_worker w fp s) + fp_work (workers s ! w) = work s + fp_work fp"
  using sum_map_update [of w "workers s" fp_work fp] by (simp add: work_def)

lemma work_holding:
  "w < length (holding s) \<Longrightarrow>
   work (s\<lparr>holding := (holding s)[w := h]\<rparr>) + held_work (holding s ! w) = work s + held_work h"
  using sum_map_update [of w "holding s" held_work h] by (simp add: work_def)

lemma work_other [simp]:
  "work (s\<lparr>sys_stats := st\<rparr>) = work s" "work (s\<lparr>dropped := js\<rparr>) = work s" "work (s\<lparr>written := js\<rparr>) = work s"
  by (simp_all add: work_def)

lemma work_none: "work s = 0 \<Longrightarrow> length (holding s) = length (workers s) \<Longrightarrow> in_flight s = []"
  by (auto simp: work_def in_flight_def lb_work_def fp_work_def held_work_def lb_jobs_def worker_jobs_def
      opt_list_def split: option.splits)

text \<open>Where the jobs are that the threads have yet to deal with.\<close>

definition places ::
  "system \<Rightarrow> packet_job list \<times> (packet_job option \<times> packet_job list) list \<times> packet_job list list \<times>
     packet_job option list \<times> packet_job list" where
  "places s =
     (to_read s, map (\<lambda>lb. (in_hand lb, queue (lb_input lb))) (lbs (tier s)),
      map (\<lambda>fp. queue (input_queue fp)) (workers s), holding s, queue (outq s))"

lemma work_places: "places s' = places s \<Longrightarrow> work s' = work s"
proof -
  assume p: "places s' = places s"
  have lb: "map lb_work (lbs (tier s)) =
      map (\<lambda>(h, q). 5 * length q + 4 * length (opt_list h)) (map (\<lambda>lb. (in_hand lb, queue (lb_input lb))) (lbs (tier s)))" for s
    by (simp add: lb_work_def)
  have fp: "map fp_work (workers s) = map (\<lambda>q. 3 * length q) (map (\<lambda>fp. queue (input_queue fp)) (workers s))" for s
    by (simp add: fp_work_def)
  show ?thesis using p by (simp only: work_def lb fp places_def prod.inject)
qed

lemma work_take:
  "in_hand lb = None \<Longrightarrow> queue (lb_input lb) = [] \<and> lb_take lb = lb \<or> lb_work (lb_take lb) < lb_work lb"
  by (cases "queue (lb_input lb)") (simp_all add: lb_take_def popWithTimeout_eq take_front_def lb_work_def)

lemma step_work_read:
  assumes "topology l f s" and "shut_order s" and "reader_step s = Inr (Some s')"
  shows "work s' < work s"
proof -
  obtain j js where r: "to_read s = j # js" using assms(3) by (auto simp: reader_step_def split: list.splits)
  let ?i = "route l f (job_tuple j) div f"
  let ?lb = "(lbs (tier s) ! ?i)\<lparr>lb_input := enqueue j (lb_input (lbs (tier s) ! ?i))\<rparr>"
  let ?t = "s\<lparr>to_read := js\<rparr>"
  have i: "?i < length (lbs (tier s))"
    using assms(1) route_div_bound [of f l "job_tuple j"] by (auto simp: topology_def)
  have "s' = update_lb ?i ?lb ?t"
    using reader_step_eq [OF assms(1,2) r] assms(3) by (simp split: if_splits)
  moreover have "work ?t + 6 = work s" using r by (simp add: work_def)
  ultimately show ?thesis using work_update_lb [of ?i ?t ?lb] i by (simp add: lb_work_def)
qed

lemma step_work_dispatch:
  assumes "topology l f s" and "shut_order s" and "routed l f (lanes_of s)" and "lb_push_step i s = Inr (Some s')"
  shows "work s' < work s"
proof -
  obtain j where j: "in_hand (lbs (tier s) ! i) = Some j" "i < length (lbs (tier s))"
    using assms(4) by (auto simp: lb_push_step_def split: if_splits)
  then have i: "i < l" using assms(1) by (simp add: topology_def)
  let ?w = "route l f (job_tuple j)"
  let ?fp = "(workers s ! ?w)\<lparr>input_queue := enqueue j (input_queue (workers s ! ?w))\<rparr>"
  have w: "?w < length (workers s)" using assms(1) route_bound [of f l "job_tuple j"] by (simp add: topology_def)
  obtain lb where lb: "in_hand lb = None" "lb_input lb = lb_input (lbs (tier s) ! i)"
      "s' = update_lb i lb (update_worker ?w ?fp s)"
    using lb_push_step_eq [OF assms(1-3) i j(1)] assms(4) by (auto split: if_splits)
  have "work (update_worker ?w ?fp s) = work s + 3"
    using work_update_worker [OF w, of ?fp] by (simp add: fp_work_def)
  then show ?thesis
    using work_update_lb [of i "update_worker ?w ?fp s" lb] j lb by (simp add: lb_work_def)
qed

lemma places_update:
  "i < length (lbs (tier s)) \<Longrightarrow> in_hand lb = in_hand (lbs (tier s) ! i) \<Longrightarrow>
   queue (lb_input lb) = queue (lb_input (lbs (tier s) ! i)) \<Longrightarrow> places (update_lb i lb s) = places s"
  "w < length (workers s) \<Longrightarrow> queue (input_queue fp) = queue (input_queue (workers s ! w)) \<Longrightarrow>
   places (update_worker w fp s) = places s"
  by (auto simp: places_def map_update list_update_same_conv)

lemma step_work_work:
  assumes "topology l f s" and "healthy s" and "worker_step rules ns t1 t2 w s = Inr (Some s')"
  shows "places s' = places s \<or> work s' < work s"
proof -
  have w: "w < length (workers s)" "w < length (holding s)" "w < l * f" "fp_alive s ! w" "holding s ! w = None"
    using assms(1,3) by (auto simp: worker_step_def topology_def split: if_splits)
  from assms(1,2) w(3-5) show ?thesis
  proof (cases rule: worker_step_cases [where rules = rules and ns = ns and ?t1.0 = t1 and ?t2.0 = t2])
    case (idle fp')
    then show ?thesis using assms(3) w(1) places_update(2) [OF w(1), of fp'] by (simp add: same_queue_as_def)
  next
    case (drop i rest fp')
    then show ?thesis
      using assms(3) work_update_worker [OF w(1), of fp'] by (simp add: fp_work_def same_queue_as_def)
  next
    case (forward i rest fp')
    let ?s = "(update_worker w fp' s)\<lparr>sys_stats := (sys_stats s)
      \<lparr>forwarded_packets := forwarded_packets (sys_stats s) + 1\<rparr>\<rparr>"
    have "work ?s + 3 = work s"
      using work_update_worker [OF w(1), of fp'] forward by (simp add: fp_work_def same_queue_as_def)
    then show ?thesis
      using assms(3) forward(3) work_holding [of w ?s "Some i"] w(2,5) by (simp add: held_work_def)
  qed
qed

lemma step_work_emit:
  assumes "topology l f s" and "shut_order s" and "emit_step w s = Some s'"
  shows "work s' < work s"
proof -
  have w: "w < l * f" "w < length (holding s)"
    using assms(1,3) by (auto simp: emit_step_def topology_def split: if_splits)
  obtain j where j: "holding s ! w = Some j" using assms(3) by (auto simp: emit_step_def split: if_splits option.splits)
  let ?t = "s\<lparr>outq := enqueue j (outq s)\<rparr>"
  have "s' = ?t\<lparr>holding := (holding ?t)[w := None]\<rparr>"
    using emit_step_eq [OF assms(1,2) w(1) j] assms(3) by (simp split: if_splits)
  moreover have "work ?t = work s + 1" by (simp add: work_def)
  ultimately show ?thesis using work_holding [of w ?t None] w(2) j by (simp add: held_work_def)
qed

text \<open>A step that moves a job is work done, and no other step makes work.\<close>

lemma step_work:
  assumes "sound_state l f s" and "step rules s s'"
  shows "places s' = places s \<or> work s' < work s"
proof -
  have t: "topology l f s" and o: "shut_order s" and h: "healthy s" and r: "routed l f (lanes_of s)"
    using assms(1) by (auto simp: sound_state_def)
  from assms(2) show ?thesis
  proof (cases rule: step.cases)
    case (Lb_pop i)
    then have i: "i < length (lbs (tier s))" "in_hand (lbs (tier s) ! i) = None"
      "s' = update_lb i (lb_take (lbs (tier s) ! i)) s"
      by (auto simp: lb_pop_step_def split: if_splits)
    show ?thesis
      using work_take [OF i(2)] work_update_lb [OF i(1), of "lb_take (lbs (tier s) ! i)"] places_update(1) [OF i(1)]
      by (auto simp: i(3))
  next
    case (Write)
    then show ?thesis
      by (cases "queue (outq s)") (auto simp: writer_step_def popWithTimeout_eq take_front_def places_def work_def
          split: if_splits)
  next
    case (Lb_stop i)
    then show ?thesis by (simp add: places_update(1) lb_stop_def)
  next
    case (Fp_stop w)
    then show ?thesis by (simp add: places_update(2) fp_stop_def)
  qed (use step_work_read [OF t o] step_work_dispatch [OF t o r] step_work_work [OF t h] step_work_emit [OF t o]
       in \<open>auto simp: places_def\<close>)
qed

text \<open>Runs in which \<open>n\<close> steps moved a job; all others were waking up, waiting or stopping.\<close>

inductive moving_run :: "rule_manager option \<Rightarrow> system \<Rightarrow> nat \<Rightarrow> system \<Rightarrow> bool" for rules s0 where
  Begin: "moving_run rules s0 0 s0"
| Moves: "moving_run rules s0 n s \<Longrightarrow> step rules s s' \<Longrightarrow> places s' \<noteq> places s \<Longrightarrow> moving_run rules s0 (Suc n) s'"
| Idles: "moving_run rules s0 n s \<Longrightarrow> step rules s s' \<Longrightarrow> places s' = places s \<Longrightarrow> moving_run rules s0 n s'"

lemma moving_run_work:
  assumes "moving_run rules s0 n s" and "sound_state l f s0"
  shows "sound_state l f s \<and> n + work s \<le> work s0"
  using assms
proof (induction rule: moving_run.induct)
  case (Moves n s s')
  then show ?case using step_work [of l f s rules s'] step_sound [of l f s rules s'] by auto
next
  case (Idles n s s')
  then show ?case using work_places [of s' s] step_sound [of l f s rules s'] by auto
qed simp

lemma start_work: "work (start_system l f jobs) = 6 * length jobs"
proof -
  have "map lb_work (lbs (tier (start_system l f jobs))) = map (\<lambda>_. 0) (lbs (tier (start_system l f jobs)))"
    using start_empty [of _ l f jobs] by (auto simp: lb_work_def new_queue_def)
  moreover have "map fp_work (workers (start_system l f jobs)) = map (\<lambda>_. 0) (workers (start_system l f jobs))"
    using start_idle [of _ l f jobs] by (auto simp: fp_work_def new_queue_def)
  ultimately show ?thesis by (simp add: work_def held_work_def new_queue_def)
qed

text \<open>A step for which a worker reads the clock, if one does, at moments in \<open>W\<close> only. The other threads
  leave the flow tables alone.\<close>

definition step_within :: "time_point set \<Rightarrow> rule_manager option \<Rightarrow> system \<Rightarrow> system \<Rightarrow> bool" where
  "step_within W rules s s' \<longleftrightarrow> step rules s s' \<and>
     (map conn_tracker (workers s') = map conn_tracker (workers s) \<or>
      (\<exists>ns t1 t2 w. {t1, t2} \<subseteq> W \<and> worker_step rules ns t1 t2 w s = Inr (Some s')))"

lemma step_withinI:
  "step rules s s' \<Longrightarrow> map conn_tracker (workers s') = map conn_tracker (workers s) \<Longrightarrow> step_within W rules s s'"
  "worker_step rules ns t1 t2 w s = Inr (Some s') \<Longrightarrow> {t1, t2} \<subseteq> W \<Longrightarrow> step_within W rules s s'"
  by (auto simp: step_within_def intro: step.Work)

lemma map_update_same: "n < length xs \<Longrightarrow> g y = g (xs ! n) \<Longrightarrow> map g (xs[n := y]) = map g xs"
  by (metis list_update_id map_update)

lemma progressI:
  "step_within {t} rules s s' \<Longrightarrow> engine_running s' \<Longrightarrow> work s' < work s \<Longrightarrow>
   \<exists>s'. step_within {t} rules s s' \<and> engine_running s' \<and> work s' < work s"
  by blast

lemma progress_write:
  assumes "shut_order s" and "engine_running s" and "queue (outq s) = j # js"
  shows "\<exists>s'. step_within {t} rules s s' \<and> engine_running s' \<and> work s' < work s"
proof -
  let ?s = "s\<lparr>outq := (outq s)\<lparr>queue := js\<rparr>, written := written s @ [j]\<rparr>"
  have "writer_step s = Some ?s"
    using assms by (auto simp: writer_step_def popWithTimeout_eq take_front_def shut_order_def)
  then have "step_within {t} rules s ?s" by (intro step_withinI(1) step.Write) simp_all
  moreover have "work ?s < work s" "engine_running ?s" using assms by (simp_all add: work_def)
  ultimately show ?thesis by blast
qed

lemma progress_emit:
  assumes "topology l f s" and "shut_order s" and "engine_running s" and "queue (outq s) = []"
    and "w < l * f" and "holding s ! w = Some j"
  shows "\<exists>s'. step_within {t} rules s s' \<and> engine_running s' \<and> work s' < work s"
proof -
  let ?t = "s\<lparr>outq := enqueue j (outq s)\<rparr>"
  let ?s = "?t\<lparr>holding := (holding s)[w := None]\<rparr>"
  have w: "w < length (holding s)" using assms(1,5) by (simp add: topology_def)
  have "emit_step w s = Some ?s"
    using emit_step_eq [OF assms(1,2,5,6)] assms(1,4) by (simp add: topology_def)
  then have "step_within {t} rules s ?s" by (intro step_withinI(1) step.Emit) simp_all
  moreover have "work ?s < work s"
    using work_holding [of w ?t None] w assms(4,6) by (simp add: work_def held_work_def)
  ultimately show ?thesis using assms(3) by (intro exI [of _ ?s]) simp
qed

lemma progress_work:
  assumes "topology l f s" and "healthy s" and "shut_order s" and "engine_running s"
    and "w < l * f" and "holding s ! w = None" and "queue (input_queue (workers s ! w)) = j # js"
  shows "\<exists>s'. step_within {t} rules s s' \<and> engine_running s' \<and> work s' < work s"
proof -
  have w: "w < length (workers s)" "w < length (holding s)" using assms(1,5) by (auto simp: topology_def)
  have "fp_alive s ! w"
  proof (rule ccontr)
    assume "\<not> fp_alive s ! w"
    then have "\<forall>i < length (lb_alive s). \<not> lb_alive s ! i" using assms(3) w by (auto simp: shut_order_def)
    moreover have "0 < length (lb_alive s)" "length (lb_alive s) = length (lbs (tier s))"
      using assms(1) by (auto simp: topology_def)
    ultimately show False using assms(3,4) by (auto simp: shut_order_def)
  qed
  from assms(1,2,5) this assms(6) show ?thesis
  proof (cases rule: worker_step_cases [where rules = rules and ns = "[]" and ?t1.0 = t and ?t2.0 = t])
    case (idle fp')
    then show ?thesis using assms(7) by simp
  next
    case (drop i rest fp')
    then have "work (update_worker w fp' s) < work s"
      using work_update_worker [OF w(1), of fp'] by (simp add: fp_work_def same_queue_as_def)
    then show ?thesis
      using assms(4) by (intro progressI [OF step_withinI(2) [OF drop(3)]]) simp_all
  next
    case (forward i rest fp')
    let ?s = "(update_worker w fp' s)\<lparr>sys_stats := (sys_stats s)
      \<lparr>forwarded_packets := forwarded_packets (sys_stats s) + 1\<rparr>\<rparr>"
    have "work ?s + 3 = work s"
      using work_update_worker [OF w(1), of fp'] forward by (simp add: fp_work_def same_queue_as_def)
    then have "work (?s\<lparr>holding := (holding s)[w := Some i]\<rparr>) < work s"
      using work_holding [of w ?s "Some i"] w(2) assms(6) by (simp add: held_work_def)
    then show ?thesis
      using assms(4) by (intro progressI [OF step_withinI(2) [OF forward(3)]]) simp_all
  qed
qed

lemma progress_dispatch:
  assumes "topology l f s" and "shut_order s" and "routed l f (lanes_of s)" and "engine_running s"
    and "\<forall>w < l * f. queue (input_queue (workers s ! w)) = []" and "i < l"
    and "in_hand (lbs (tier s) ! i) = Some j"
  shows "\<exists>s'. step_within {t} rules s s' \<and> engine_running s' \<and> work s' < work s"
proof -
  let ?w = "route l f (job_tuple j)"
  let ?fp = "(workers s ! ?w)\<lparr>input_queue := enqueue j (input_queue (workers s ! ?w))\<rparr>"
  have w: "?w < l * f" "?w < length (workers s)" "i < length (lbs (tier s))"
    using assms(1,6) route_bound [of f l "job_tuple j"] by (auto simp: topology_def)
  obtain lb where lb: "in_hand lb = None" "lb_input lb = lb_input (lbs (tier s) ! i)"
      "lb_push_step i s = Inr (Some (update_lb i lb (update_worker ?w ?fp s)))"
    using lb_push_step_eq [OF assms(1-3,6,7)] assms(1,5) w(1) by (auto simp: topology_def)
  have "work (update_worker ?w ?fp s) = work s + 3"
    using work_update_worker [OF w(2), of ?fp] by (simp add: fp_work_def)
  then have "work (update_lb i lb (update_worker ?w ?fp s)) < work s"
    using work_update_lb [of i "update_worker ?w ?fp s" lb] w(3) lb assms(7) by (simp add: lb_work_def)
  then show ?thesis
    using assms(4) w(2)
    by (intro progressI [OF step_withinI(1) [OF step.Lb_push [OF lb(3)]]]) (simp_all add: map_update_same)
qed

lemma progress_take:
  assumes "topology l f s" and "shut_order s" and "engine_running s" and "i < l"
    and "in_hand (lbs (tier s) ! i) = None" and "queue (lb_input (lbs (tier s) ! i)) = j # js"
  shows "\<exists>s'. step_within {t} rules s s' \<and> engine_running s' \<and> work s' < work s"
proof -
  let ?lb = "lbs (tier s) ! i"
  have i: "i < length (lbs (tier s))" using assms(1,4) by (simp add: topology_def)
  have "lb_alive s ! i" using assms(2,3) i by (auto simp: shut_order_def)
  then have "lb_pop_step i s = Some (update_lb i (lb_take ?lb) s)" using i assms(5) by (simp add: lb_pop_step_def)
  moreover have "lb_work (lb_take ?lb) < lb_work ?lb"
    using assms(5,6) by (simp add: lb_take_def popWithTimeout_eq take_front_def lb_work_def)
  ultimately show ?thesis
    using work_update_lb [OF i, of "lb_take ?lb"] assms(3)
    by (intro exI [of _ "update_lb i (lb_take ?lb) s"]) (auto intro!: step_withinI(1) intro: step.Lb_pop)
qed

lemma progress_read:
  assumes "topology l f s" and "shut_order s" and "engine_running s" and "to_read s = j # js"
    and "\<forall>i < l. queue (lb_input (lbs (tier s) ! i)) = []"
  shows "\<exists>s'. step_within {t} rules s s' \<and> engine_running s' \<and> work s' < work s"
proof -
  let ?i = "route l f (job_tuple j) div f"
  let ?lb = "(lbs (tier s) ! ?i)\<lparr>lb_input := enqueue j (lb_input (lbs (tier s) ! ?i))\<rparr>"
  let ?t = "s\<lparr>to_read := js\<rparr>"
  have i: "?i < l" "?i < length (lbs (tier s))"
    using assms(1) route_div_bound [of f l "job_tuple j"] by (auto simp: topology_def)
  have "reader_step s = Inr (Some (update_lb ?i ?lb ?t))"
    using reader_step_eq [OF assms(1,2,4)] assms(1,5) i(1) by (auto simp: topology_def)
  then have "step_within {t} rules s (update_lb ?i ?lb ?t)" by (intro step_withinI(1) step.Read) simp_all
  moreover have "work (update_lb ?i ?lb ?t) < work s"
    using work_update_lb [of ?i ?t ?lb] i(2) assms(4) by (simp add: work_def lb_work_def)
  ultimately show ?thesis using assms(3) by (intro exI [of _ "update_lb ?i ?lb ?t"]) simp
qed

lemma progress_at:
  assumes "sound_state l f s" and "engine_running s" and "work s \<noteq> 0"
  shows "\<exists>s'. step_within {t} rules s s' \<and> engine_running s' \<and> work s' < work s"
proof -
  have t: "topology l f s" and o: "shut_order s" and h: "healthy s" and r: "routed l f (lanes_of s)"
    using assms(1) by (auto simp: sound_state_def)
  have len: "length (holding s) = l * f" "length (workers s) = l * f" "length (lbs (tier s)) = l"
    using t by (auto simp: topology_def)
  show ?thesis
  proof (rule ccontr)
    assume no: "\<not> ?thesis"
    have out: "queue (outq s) = []"
      using progress_write [OF o assms(2)] no by (cases "queue (outq s)") auto
    have held: "\<forall>w < l * f. holding s ! w = None"
      using progress_emit [OF t o assms(2) out] no by (metis not_None_eq)
    have fps: "\<forall>w < l * f. queue (input_queue (workers s ! w)) = []"
      using progress_work [OF t h o assms(2)] held no by (metis neq_Nil_conv)
    have hands: "\<forall>i < l. in_hand (lbs (tier s) ! i) = None"
      using progress_dispatch [OF t o r assms(2) fps] no by (metis not_None_eq)
    have inputs: "\<forall>i < l. queue (lb_input (lbs (tier s) ! i)) = []"
      using progress_take [OF t o assms(2)] hands no by (metis neq_Nil_conv)
    have "to_read s = []"
      using progress_read [OF t o assms(2) _ inputs] no by (cases "to_read s") auto
    then have "work s = 0"
      using out held fps hands inputs len
      by (auto simp: work_def lb_work_def fp_work_def held_work_def in_set_conv_nth sum_list_eq_0_iff)
    then show False using assms(3) by simp
  qed
qed

lemma progress:
  assumes "sound_state l f s" and "engine_running s" and "work s \<noteq> 0"
  shows "\<exists>s'. step rules s s' \<and> engine_running s' \<and> work s' < work s"
  using progress_at [OF assms] by (auto simp: step_within_def)

lemma reachable_trans: "reachable rules s1 s2 \<Longrightarrow> reachable rules s0 s1 \<Longrightarrow> reachable rules s0 s2"
  by (induction rule: reachable.induct) (auto intro: reachable.Next)

lemma drain_at:
  assumes "sound_state l f s" and "engine_running s"
  shows "\<exists>s'. rtranclp (step_within {t} rules) s s' \<and> sound_state l f s' \<and> engine_running s' \<and> in_flight s' = []"
  using assms
proof (induction "work s" arbitrary: s rule: less_induct)
  case less
  show ?case
  proof (cases "work s = 0")
    case True
    then have "in_flight s = []"
      using less.prems(1) by (intro work_none) (auto simp: sound_state_def topology_def)
    then show ?thesis using less.prems by blast
  next
    case False
    then obtain s1 where s1: "step_within {t} rules s s1" "engine_running s1" "work s1 < work s"
      using progress_at [OF less.prems] by blast
    have "sound_state l f s1"
      using step_sound [OF less.prems(1)] s1(1) unfolding step_within_def by blast
    then obtain s' where "rtranclp (step_within {t} rules) s1 s'" "sound_state l f s'" "engine_running s'" "in_flight s' = []"
      using less.hyps [OF s1(3) _ s1(2)] by blast
    then show ?thesis using s1(1) converse_rtranclp_into_rtranclp by metis
  qed
qed

lemma within_reachable: "rtranclp (step_within W rules) s0 s \<Longrightarrow> reachable rules s0 s"
  by (induction rule: rtranclp_induct) (auto simp: step_within_def intro: reachable.intros)

lemma drain:
  assumes "sound_state l f s" and "engine_running s"
  shows "\<exists>s'. reachable rules s s' \<and> sound_state l f s' \<and> engine_running s' \<and> in_flight s' = []"
  using drain_at [OF assms] within_reachable by metis

text \<open>A load balancer that has left its loop: nothing moves the jobs in its queue any more.\<close>

definition left_behind :: "nat \<Rightarrow> packet_job list \<Rightarrow> system \<Rightarrow> bool" where
  "left_behind i js s \<longleftrightarrow>
     to_read s = [] \<and> i < length (lbs (tier s)) \<and> i < length (lb_alive s) \<and> \<not> lb_alive s ! i \<and>
     in_hand (lbs (tier s) ! i) = None \<and> queue (lb_input (lbs (tier s) ! i)) = js"

lemma worker_step_frame:
  assumes "worker_step rules ns t1 t2 w s = Inr (Some s')"
  shows "to_read s' = to_read s \<and> tier s' = tier s \<and> lb_alive s' = lb_alive s"
proof -
  obtain jo q where p: "popWithTimeout (input_queue (workers s ! w)) = (jo, q)" by fastforce
  obtain out fp where r: "run_body ns t1 t2 rules jo ((workers s ! w)\<lparr>input_queue := q\<rparr>) = Inr (out, fp)"
    using assms by (auto simp: worker_step_def p split: if_splits)
  show ?thesis
    using assms by (cases out) (auto simp: worker_step_def p r handleOutput_def Let_def split: if_splits)
qed

lemma lb_push_step_frame:
  "lb_push_step i s = Inr (Some s') \<Longrightarrow>
   to_read s' = to_read s \<and> lb_alive s' = lb_alive s \<and> in_hand (lbs (tier s) ! i) \<noteq> None \<and>
   (\<exists>lb. lbs (tier s') = (lbs (tier s))[i := lb])"
  unfolding lb_push_step_def by (auto split: if_splits option.splits) blast

lemma left_behind_step:
  assumes "step rules s s'" and "left_behind i js s"
  shows "left_behind i js s'"
  using assms
  by (auto elim!: stepE simp: left_behind_def nth_update lb_stop_def shutdown_def reader_step_def lb_pop_step_def
      emit_step_def writer_step_def dest!: lb_push_step_frame worker_step_frame
      split: if_splits option.splits prod.splits)

lemma left_behind_forever: "reachable rules s s' \<Longrightarrow> left_behind i js s \<Longrightarrow> left_behind i js s'"
  by (induction rule: reachable.induct) (auto intro: left_behind_step)

lemma mset_in_concat: "xs \<in> set xss \<Longrightarrow> mset xs \<subseteq># mset (concat xss)"
  by (induction xss) (auto intro: subset_mset.add_increasing)

section \<open>The steps of \<open>stop\<close>\<close>

text \<open>Nothing is under way and the engine's flag is cleared: every thread can leave.\<close>

definition stopping :: "system \<Rightarrow> bool" where
  "stopping s \<longleftrightarrow>
     \<not> engine_running s \<and> in_flight s = [] \<and> length (lb_alive s) = length (lbs (tier s)) \<and>
     length (fp_alive s) = length (workers s) \<and> length (holding s) = length (workers s)"

definition results :: "system \<Rightarrow> packet_job list \<times> packet_job list \<times> dpi_stats \<times> tracker list" where
  "results s = (written s, dropped s, sys_stats s, map conn_tracker (workers s))"

lemma stopping_idle:
  assumes "stopping s"
  shows "i < length (lbs (tier s)) \<Longrightarrow> in_hand (lbs (tier s) ! i) = None"
    and "w < length (workers s) \<Longrightarrow> holding s ! w = None"
proof -
  have e: "\<forall>lb \<in> set (lbs (tier s)). lb_jobs lb = []" "\<forall>w < length (workers s). worker_jobs s w = []"
    using assms by (auto simp: stopping_def in_flight_def)
  show "in_hand (lbs (tier s) ! i) = None" if "i < length (lbs (tier s))"
    using e(1) nth_mem [OF that] by (auto simp: lb_jobs_def opt_list_def split: option.splits)
  show "holding s ! w = None" if "w < length (workers s)"
    using e(2) that by (auto simp: worker_jobs_def opt_list_def split: option.splits)
qed

lemma two_steps: "step rules s s1 \<Longrightarrow> step rules s1 s2 \<Longrightarrow> reachable rules s s2"
  by (rule reachable.Next [OF reachable.Next [OF reachable.Start]])

lemma lb_leaves:
  assumes "stopping s" and "i < length (lbs (tier s))"
  shows "\<exists>s'. reachable rules s s' \<and> stopping s' \<and> results s' = results s \<and> lb_alive s' = (lb_alive s)[i := False]"
proof -
  let ?lb = "lb_stop (lbs (tier s) ! i)"
  let ?s1 = "update_lb i ?lb s"
  let ?s2 = "?s1\<lparr>lb_alive := (lb_alive ?s1)[i := False]\<rparr>"
  have lb: "\<not> lb_running ?lb" "in_hand ?lb = None" "lb_jobs ?lb = lb_jobs (lbs (tier s) ! i)"
    using stopping_idle(1) [OF assms] by (simp_all add: lb_stop_def lb_jobs_def)
  have "step rules s ?s1" using assms by (intro step.Lb_stop) (simp_all add: stopping_def)
  moreover have "step rules ?s1 ?s2" using assms(2) lb by (intro step.Lb_exit) simp_all
  ultimately have "reachable rules s ?s2" by (rule two_steps)
  moreover have "map lb_jobs ((lbs (tier s))[i := ?lb]) = map lb_jobs (lbs (tier s))"
    using assms(2) lb(3) by (simp add: map_update list_update_same_conv)
  then have "in_flight ?s2 = in_flight s" by (simp add: in_flight_def worker_jobs_def [abs_def])
  then have "stopping ?s2" using assms(1) by (simp add: stopping_def)
  ultimately show ?thesis by (intro exI [of _ ?s2]) (simp add: results_def)
qed

lemma fp_leaves:
  assumes "stopping s" and "w < length (workers s)" and "\<forall>i < length (lb_alive s). \<not> lb_alive s ! i"
  shows "\<exists>s'. reachable rules s s' \<and> stopping s' \<and> results s' = results s \<and> lb_alive s' = lb_alive s \<and>
    fp_alive s' = (fp_alive s)[w := False]"
proof -
  let ?fp = "fp_stop (workers s ! w)"
  let ?s1 = "update_worker w ?fp s"
  let ?s2 = "?s1\<lparr>fp_alive := (fp_alive ?s1)[w := False]\<rparr>"
  have fp: "\<not> fp_running ?fp" "queue (input_queue ?fp) = queue (input_queue (workers s ! w))"
    by (simp_all add: fp_stop_def)
  have h: "holding s ! w = None" using stopping_idle(2) [OF assms(1,2)] .
  have "step rules s ?s1" using assms by (intro step.Fp_stop) simp_all
  moreover have "step rules ?s1 ?s2" using assms(2) fp h by (intro step.Fp_exit) simp_all
  ultimately have "reachable rules s ?s2" by (rule two_steps)
  moreover have "worker_jobs ?s1 v = worker_jobs s v" for v
    using fp(2) assms(2) by (auto simp: worker_jobs_def nth_update)
  then have "in_flight ?s2 = in_flight s" by (simp add: in_flight_def worker_jobs_def [abs_def])
  then have "stopping ?s2" using assms(1) by (simp add: stopping_def)
  ultimately show ?thesis by (intro exI [of _ ?s2]) (simp add: results_def map_update_same assms(2) fp_stop_def)
qed

lemma all_lbs_leave:
  assumes "stopping s" and "n \<le> length (lb_alive s)"
  shows "\<exists>s'. reachable rules s s' \<and> stopping s' \<and> results s' = results s \<and>
    length (lb_alive s') = length (lb_alive s) \<and> (\<forall>i < n. \<not> lb_alive s' ! i)"
  using assms(2)
proof (induction n)
  case 0
  then show ?case using assms(1) reachable.Start by blast
next
  case (Suc n)
  then obtain s1 where s1: "reachable rules s s1" "stopping s1" "results s1 = results s"
      "length (lb_alive s1) = length (lb_alive s)" "\<forall>i < n. \<not> lb_alive s1 ! i"
    by auto
  then have n: "n < length (lbs (tier s1))" using Suc.prems by (simp add: stopping_def)
  obtain s2 where s2: "reachable rules s1 s2" "stopping s2" "results s2 = results s1"
      "lb_alive s2 = (lb_alive s1)[n := False]"
    using lb_leaves [OF s1(2) n] by blast
  have "\<forall>i < Suc n. \<not> lb_alive s2 ! i"
    using s1(4,5) s2(4) Suc.prems by (simp add: less_Suc_eq nth_update)
  then show ?case using reachable_trans [OF s2(1) s1(1)] s1 s2 by auto
qed

lemma all_fps_leave:
  assumes "stopping s" and "\<forall>i < length (lb_alive s). \<not> lb_alive s ! i" and "n \<le> length (fp_alive s)"
  shows "\<exists>s'. reachable rules s s' \<and> stopping s' \<and> results s' = results s \<and> lb_alive s' = lb_alive s \<and>
    length (fp_alive s') = length (fp_alive s) \<and> (\<forall>w < n. \<not> fp_alive s' ! w)"
  using assms(3)
proof (induction n)
  case 0
  then show ?case using assms(1) reachable.Start by blast
next
  case (Suc n)
  then obtain s1 where s1: "reachable rules s s1" "stopping s1" "results s1 = results s" "lb_alive s1 = lb_alive s"
      "length (fp_alive s1) = length (fp_alive s)" "\<forall>w < n. \<not> fp_alive s1 ! w"
    by auto
  then have n: "n < length (workers s1)" using Suc.prems by (simp add: stopping_def)
  obtain s2 where s2: "reachable rules s1 s2" "stopping s2" "results s2 = results s1" "lb_alive s2 = lb_alive s1"
      "fp_alive s2 = (fp_alive s1)[n := False]"
    using fp_leaves [OF s1(2) n] s1(4) assms(2) by auto
  have "\<forall>w < Suc n. \<not> fp_alive s2 ! w"
    using s1(5,6) s2(5) Suc.prems by (simp add: less_Suc_eq nth_update)
  then show ?case using reachable_trans [OF s2(1) s1(1)] s1 s2 by auto
qed

text \<open>From a state with nothing under way, \<open>stop\<close> gets all threads to leave.\<close>

lemma stop_completes:
  assumes "in_flight s = []" and "length (lb_alive s) = length (lbs (tier s))"
    and "length (fp_alive s) = length (workers s)" and "length (holding s) = length (workers s)"
  shows "\<exists>s'. reachable rules s s' \<and> results s' = results s \<and> in_flight s' = [] \<and> \<not> engine_running s' \<and>
    (\<forall>i < length (lb_alive s'). \<not> lb_alive s' ! i) \<and> (\<forall>w < length (fp_alive s'). \<not> fp_alive s' ! w) \<and>
    is_shutdown (outq s') \<and> \<not> writer_alive s'"
proof -
  let ?s0 = "s\<lparr>engine_running := False\<rparr>"
  have "to_read s = []" using assms(1) by (simp add: in_flight_def)
  then have r0: "reachable rules s ?s0" using reachable.Next [OF reachable.Start step.Stop] by blast
  have "in_flight ?s0 = []" using assms(1) by (simp add: in_flight_def worker_jobs_def [abs_def])
  then have "stopping ?s0" using assms(2-4) by (simp add: stopping_def)
  then obtain s1 where s1: "reachable rules ?s0 s1" "stopping s1" "results s1 = results ?s0"
      "\<forall>i < length (lb_alive s1). \<not> lb_alive s1 ! i"
    using all_lbs_leave [of ?s0 "length (lb_alive ?s0)" rules] by auto
  obtain s2 where s2: "reachable rules s1 s2" "stopping s2" "results s2 = results s1" "lb_alive s2 = lb_alive s1"
      "\<forall>w < length (fp_alive s2). \<not> fp_alive s2 ! w"
    using all_fps_leave [OF s1(2,4) order.refl, of rules] by metis
  let ?s3 = "s2\<lparr>outq := shutdown (outq s2)\<rparr>"
  let ?s4 = "?s3\<lparr>writer_alive := False\<rparr>"
  have e: "\<not> engine_running s2" "in_flight s2 = []" "queue (outq s2) = []"
    using s2(2) by (simp_all add: stopping_def in_flight_def)
  have "step rules s2 ?s3" using e s2(5) by (intro step.Out_shutdown) simp_all
  moreover have "step rules ?s3 ?s4" using e by (intro step.Writer_exit) simp_all
  ultimately have "reachable rules s2 ?s4" by (rule two_steps)
  then have "reachable rules s ?s4"
    using reachable_trans [OF _ reachable_trans [OF s2(1) reachable_trans [OF s1(1) r0]]] by blast
  moreover have "in_flight ?s4 = []" using e by (simp add: in_flight_def worker_jobs_def [abs_def])
  moreover have "results ?s4 = results s" using s1(3) s2(3) by (simp add: results_def)
  ultimately show ?thesis using e(1) s1(4) s2(4,5) by (intro exI [of _ ?s4]) simp
qed

section \<open>Properties\<close>

text \<open>C6: refinement. From the start, with any rules, jobs and clock, every step of any thread is a
  move of the specification: the queues, the job a load balancer holds and the job a worker
  holds make up lanes in which jobs keep their order and the only thing that takes a job out
  is a verdict.\<close>

theorem pipeline_refines_lanes:
  assumes "0 < l" and "0 < f" and "f < 2 ^ 31" and "\<forall>job \<in> set jobs. job_ok job"
    and "reachable rules (start_system l f jobs) s" and "step rules s s'"
  shows "move l f (lanes_of s) (lanes_of s')"
  using step_sound [OF from_start(1) [OF assms(1-5)] assms(6)] by simp

lemma start_moves:
  "\<exists>s'. step rules (start_system 1 2 [job_of (flow 1) SYN []]) s'"
proof -
  let ?s = "start_system 1 2 [job_of (flow 1) SYN []]"
  have "sound_state 1 2 ?s" using job_of_ok by (intro start_sound) auto
  moreover have "engine_running ?s" "work ?s \<noteq> 0" by (simp_all add: start_system_def work_def)
  ultimately show ?thesis using progress [of 1 2 ?s] by blast
qed

theorem pipeline_refines_lanes_witness:
  "\<exists>s'. move 1 2 (lanes_of (start_system 1 2 [job_of (flow 1) SYN []])) (lanes_of s')"
proof -
  obtain s' where "step None (start_system 1 2 [job_of (flow 1) SYN []]) s'" using start_moves by blast
  with pipeline_refines_lanes [of 1 2 "[job_of (flow 1) SYN []]" None _ s', OF _ _ _ _ reachable.Start]
    job_of_ok show ?thesis by auto
qed

text \<open>C5: conservation and order. In every reachable state each job that was read is written, dropped
  by a verdict or still in one known place, none is duplicated and none is invented; and the
  jobs of one tuple stand in capture order all along their lane, so they are written in the
  order in which they were read, with only dropped ones missing.\<close>

theorem pipeline_conserves:
  assumes "0 < l" and "0 < f" and "f < 2 ^ 31" and "\<forall>job \<in> set jobs. job_ok job"
    and "reachable rules (start_system l f jobs) s"
  shows "mset (written s) + mset (dropped s) + mset (in_flight s) = mset jobs \<and>
    (\<forall>k. subseq (of_flow k (written s @ queue (outq s) @ worker_jobs s (route l f k) @
        lb_jobs (lbs (tier s) ! (route l f k div f)) @ to_read s)) (of_flow k jobs))"
proof (intro conjI allI)
  show "mset (written s) + mset (dropped s) + mset (in_flight s) = mset jobs"
    using assms by (rule conservation)
  fix k
  have t: "topology l f s" using from_start(1) [OF assms] by (simp add: sound_state_def)
  have "lane l f k (lanes_of s) = of_flow k (written s @ queue (outq s) @ worker_jobs s (route l f k) @
      lb_jobs (lbs (tier s) ! (route l f k div f)) @ to_read s)"
    using t route_bound [of f l k] route_div_bound [of f l k] by (simp add: lane_def topology_def worker_jobs_def)
  moreover have "subseq (lane l f k (lanes_of s)) (of_flow k jobs)"
    using from_start(2) [OF assms] by (simp add: lane_ok_def)
  ultimately show "subseq (of_flow k (written s @ queue (outq s) @ worker_jobs s (route l f k) @
      lb_jobs (lbs (tier s) ! (route l f k div f)) @ to_read s)) (of_flow k jobs)" by simp
qed

theorem pipeline_conserves_witness:
  "mset (in_flight (start_system 1 2 [job_of (flow 1) SYN [], job_of (flow 2) SYN []])) =
     {#job_of (flow 1) SYN [], job_of (flow 2) SYN []#}"
  using pipeline_conserves [of 1 2 "[job_of (flow 1) SYN [], job_of (flow 2) SYN []]" None, OF _ _ _ _ reachable.Start]
    job_of_ok by (simp add: start_system_def)

text \<open>C11: no thread faults. In every reachable state the reader's routing, a load balancer's dispatch and
  a worker's round, whatever numbers and times its calls get, return a value: no division by
  zero, no read outside a buffer, no null pointer.\<close>

theorem pipeline_never_faults:
  assumes "0 < l" and "0 < f" and "f < 2 ^ 31" and "\<forall>job \<in> set jobs. job_ok job"
    and "reachable rules (start_system l f jobs) s"
  shows "(\<exists>r. reader_step s = Inr r) \<and> (\<exists>r. lb_push_step i s = Inr r) \<and>
    (\<exists>r. worker_step rules ns t1 t2 w s = Inr r)"
  using no_step_faults [OF from_start(1) [OF assms]] by blast

theorem pipeline_never_faults_witness:
  "\<exists>r. reader_step (start_system 2 2 [job_of (flow 1) SYN []]) = Inr r"
  using pipeline_never_faults [of 2 2 "[job_of (flow 1) SYN []]" None, OF _ _ _ _ reachable.Start] job_of_ok
  by auto

text \<open>No deadlock. While the engine runs, the threads can always bring what is under way to an end: from
  every reachable state a schedule leads to one where all queues and hands are empty and
  every job that was read has been written or dropped.\<close>

theorem pipeline_drains:
  assumes "0 < l" and "0 < f" and "f < 2 ^ 31" and "\<forall>job \<in> set jobs. job_ok job"
    and "reachable rules (start_system l f jobs) s" and "engine_running s"
  shows "\<exists>s'. reachable rules s s' \<and> engine_running s' \<and> in_flight s' = [] \<and>
    mset (written s') + mset (dropped s') = mset jobs"
proof -
  obtain s' where s': "reachable rules s s'" "engine_running s'" "in_flight s' = []"
    using drain [OF from_start(1) [OF assms(1-5)] assms(6)] by blast
  then have "mset (written s') + mset (dropped s') + mset (in_flight s') = mset jobs"
    using conservation [OF assms(1-4) reachable_trans [OF s'(1) assms(5)]] by simp
  then show ?thesis using s' by auto
qed

theorem pipeline_drains_witness:
  "\<exists>s'. reachable None (start_system 2 2 [job_of (flow 1) SYN []]) s' \<and> in_flight s' = [] \<and>
     mset (written s') + mset (dropped s') = {#job_of (flow 1) SYN []#}"
  using pipeline_drains [of 2 2 "[job_of (flow 1) SYN []]" None, OF _ _ _ _ reachable.Start] job_of_ok
  by (auto simp: start_system_def)

text \<open>C12: the threads come to rest. In every run, however long and in whatever order the threads take
  their turns, at most six steps per job of the capture move a job; every other step is a
  thread that wakes up, finds nothing to do or stops. So there is no livelock: together with
  \<open>pipeline_drains\<close>, threads that keep getting turns finish the work.\<close>

theorem pipeline_comes_to_rest:
  assumes "0 < l" and "0 < f" and "f < 2 ^ 31" and "\<forall>job \<in> set jobs. job_ok job"
    and "moving_run rules (start_system l f jobs) n s"
  shows "n \<le> 6 * length jobs \<and> (n = 6 * length jobs \<longrightarrow> in_flight s = []) \<and>
    (engine_running s \<and> in_flight s \<noteq> [] \<longrightarrow> (\<exists>s'. moving_run rules (start_system l f jobs) (Suc n) s'))"
proof -
  have w: "sound_state l f s" "n + work s \<le> 6 * length jobs"
    using moving_run_work [OF assms(5) start_sound [OF assms(1-4)]] by (auto simp: start_work)
  have none: "in_flight s = []" if "work s = 0"
    using that w(1) by (intro work_none) (auto simp: sound_state_def topology_def)
  have "\<exists>s'. moving_run rules (start_system l f jobs) (Suc n) s'" if run: "engine_running s" "in_flight s \<noteq> []"
  proof -
    have "work s \<noteq> 0" using none run(2) by blast
    then obtain s' where s': "step rules s s'" "work s' < work s"
      using progress [OF w(1) run(1)] by blast
    then have "places s' \<noteq> places s" using work_places [of s' s] by auto
    then show ?thesis using moving_run.Moves [OF assms(5) s'(1)] by blast
  qed
  then show ?thesis using w(2) none by auto
qed

theorem pipeline_comes_to_rest_witness:
  "\<exists>s'. moving_run None (start_system 1 1 [job_of (flow 1) SYN []]) 1 s'"
proof -
  let ?s = "start_system 1 1 [job_of (flow 1) SYN []]"
  have "in_flight ?s \<noteq> []" by (simp add: in_flight_def)
  then show ?thesis
    using pipeline_comes_to_rest [of 1 1 "[job_of (flow 1) SYN []]" None 0 ?s] job_of_ok by (simp add: moving_run.Begin)
qed

text \<open>What \<open>stop\<close> loses. A load balancer leaves its loop when its flag is cleared, whatever is in
  its queue: the jobs still there are never given to a worker, written or counted as dropped.\<close>

theorem stop_strands_jobs:
  assumes "0 < l" and "0 < f" and "f < 2 ^ 31" and "\<forall>job \<in> set jobs. job_ok job"
    and "reachable rules (start_system l f jobs) s" and "i < l" and "\<not> lb_alive s ! i"
    and "reachable rules s s'"
  shows "queue (lb_input (lbs (tier s') ! i)) = queue (lb_input (lbs (tier s) ! i)) \<and>
    mset (written s') + mset (dropped s') + mset (queue (lb_input (lbs (tier s) ! i))) \<subseteq># mset jobs"
proof -
  have st: "topology l f s" "shut_order s" using from_start(1) [OF assms(1-5)] by (auto simp: sound_state_def)
  have i: "i < length (lbs (tier s))" "i < length (lb_alive s)" using st(1) assms(6) by (auto simp: topology_def)
  have off: "\<not> lb_running (lbs (tier s) ! i)" "in_hand (lbs (tier s) ! i) = None"
    using st(2) i(1) assms(7) unfolding shut_order_def by blast+
  have "to_read s = []" using st(2) i(1) off(1) unfolding shut_order_def by blast
  then have "left_behind i (queue (lb_input (lbs (tier s) ! i))) s"
    using i off(2) assms(7) by (simp add: left_behind_def)
  then have left: "left_behind i (queue (lb_input (lbs (tier s) ! i))) s'"
    by (rule left_behind_forever [OF assms(8)])
  then have q: "queue (lb_input (lbs (tier s') ! i)) = queue (lb_input (lbs (tier s) ! i))"
    and n: "i < length (lbs (tier s'))"
    and h: "lb_jobs (lbs (tier s') ! i) = queue (lb_input (lbs (tier s) ! i))"
    by (simp_all add: left_behind_def lb_jobs_def)
  have "lb_jobs (lbs (tier s') ! i) \<in> set (map lb_jobs (lbs (tier s')))" using n by simp
  then have "mset (lb_jobs (lbs (tier s') ! i)) \<subseteq># mset (concat (map lb_jobs (lbs (tier s'))))"
    by (rule mset_in_concat)
  then have "mset (queue (lb_input (lbs (tier s) ! i))) \<subseteq># mset (in_flight s')"
    unfolding in_flight_def h mset_append by (simp add: subset_mset.add_increasing subset_mset.add_increasing2)
  then show ?thesis
    using q conservation [OF assms(1-4) reachable_trans [OF assms(8,5)]] by (metis subset_mset.add_left_mono)
qed

text \<open>One job that is read and still queued when \<open>stop\<close> runs.\<close>

lemma stop_trace:
  fixes j :: packet_job
  assumes "job_ok j"
  shows "\<exists>s. reachable rules (start_system 1 1 [j]) s \<and> \<not> lb_alive s ! 0 \<and> queue (lb_input (lbs (tier s) ! 0)) = [j]"
proof -
  let ?s0 = "start_system 1 1 [j]"
  let ?lb = "(lbs (tier ?s0) ! 0)\<lparr>lb_input := enqueue j (lb_input (lbs (tier ?s0) ! 0))\<rparr>"
  let ?s1 = "update_lb 0 ?lb (?s0\<lparr>to_read := []\<rparr>)"
  let ?s2 = "?s1\<lparr>engine_running := False\<rparr>"
  let ?s3 = "update_lb 0 (lb_stop (lbs (tier ?s2) ! 0)) ?s2"
  let ?s4 = "?s3\<lparr>lb_alive := (lb_alive ?s3)[0 := False]\<rparr>"
  have "sound_state 1 1 ?s0" using assms by (intro start_sound) auto
  then have t: "topology 1 1 ?s0" "shut_order ?s0" by (simp_all add: sound_state_def)
  have lb: "length (lbs (tier ?s0)) = 1" "lb_input (lbs (tier ?s0) ! 0) = new_queue 10000"
    "in_hand (lbs (tier ?s0) ! 0) = None" "to_read ?s0 = [j]" "length (lb_alive ?s0) = 1"
    using start_lb [of 1 0 1] by (simp_all add: new_load_balancer_def lb_start_def)
  note lb = lb lb [unfolded One_nat_def]
  have "route 1 1 (job_tuple j) = 0" by (simp add: route_def)
  then have "reader_step ?s0 = Inr (Some ?s1)"
    using reader_step_eq [OF t lb(4)] lb by (simp add: new_queue_def)
  then have 1: "step rules ?s0 ?s1" by (rule step.Read)
  have 2: "step rules ?s1 ?s2" by (rule step.Stop) simp
  have 3: "step rules ?s2 ?s3" by (rule step.Lb_stop) (simp_all add: lb)
  have 4: "step rules ?s3 ?s4" by (rule step.Lb_exit) (simp_all add: lb lb_stop_def shutdown_def)
  have "reachable rules ?s0 ?s4"
    by (rule reachable.Next [OF reachable.Next [OF reachable.Next [OF reachable.Next [OF reachable.Start 1] 2] 3] 4])
  moreover have "\<not> lb_alive ?s4 ! 0" "queue (lb_input (lbs (tier ?s4) ! 0)) = [j]"
    by (simp_all add: lb lb_stop_def shutdown_def new_queue_def)
  ultimately show ?thesis by blast
qed

theorem stop_strands_jobs_witness:
  "\<exists>s. reachable None (start_system 1 1 [job_of (flow 1) SYN []]) s \<and>
    (\<forall>s'. reachable None s s' \<longrightarrow> written s' = [] \<and> dropped s' = [])"
proof -
  let ?j = "job_of (flow 1) SYN []"
  obtain s where s: "reachable None (start_system 1 1 [?j]) s" "\<not> lb_alive s ! 0"
      "queue (lb_input (lbs (tier s) ! 0)) = [?j]"
    using stop_trace job_of_ok by blast
  have "written s' = [] \<and> dropped s' = []" if "reachable None s s'" for s'
  proof -
    have "mset (written s') + mset (dropped s') + {#?j#} \<subseteq># {#?j#}"
      using stop_strands_jobs [of 1 1 "[?j]" None s 0 s'] s that job_of_ok by simp
    then show ?thesis using mset_subset_eqD by (auto dest!: size_mset_mono)
  qed
  then show ?thesis using s(1) by blast
qed

end
