(* ===== verification/Pipeline_Verdicts.thy ===== *)
theory Pipeline_Verdicts
  imports Pipeline_Runs
begin

text \<open>
  What holds in every state of every run of the pipeline (\<open>src/dpi_engine.cpp\<close>,
  \<open>src/fast_path.cpp\<close>), beyond the lanes of \<open>Pipeline\<close>: what the verdicts mean for the jobs that
  come out, the engine's counters, and how much memory the queues and tables can take. Each
  is an instance of \<open>run_invariant\<close>.
\<close>

section \<open>Invariants of runs\<close>

locale run_invariant =
  fixes inv :: "rule_manager option \<Rightarrow> system \<Rightarrow> bool"
  assumes at_start: "inv rules (start_system l f jobs)"
    and at_step: "sound_state l f s \<Longrightarrow> inv rules s \<Longrightarrow> step rules s s' \<Longrightarrow> inv rules s'"
begin

lemma along_run:
  assumes "reachable rules s0 s" and "sound_state l f s0" and "inv rules s0"
  shows "sound_state l f s \<and> inv rules s"
  using assms
proof (induction rule: reachable.induct)
  case (Next s s')
  then show ?case using step_sound at_step by blast
qed simp

lemma in_every_run:
  assumes "0 < l" and "0 < f" and "f < 2 ^ 31" and "\<forall>job \<in> set jobs. job_ok job"
    and "reachable rules (start_system l f jobs) s"
  shows "inv rules s"
  using along_run [OF assms(5) start_sound [OF assms(1-4)] at_start] by blast

end

section \<open>Verdicts along the pipeline\<close>

lemma worker_step_effect:
  assumes "worker_step rules ns t1 t2 w s = Inr (Some s')"
  shows "\<exists>jo q out fp. popWithTimeout (input_queue (workers s ! w)) = (jo, q) \<and>
    run_body ns t1 t2 rules jo ((workers s ! w)\<lparr>input_queue := q\<rparr>) = Inr (out, fp) \<and>
    w < length (workers s) \<and> workers s' = (workers s)[w := fp] \<and> written s' = written s \<and> outq s' = outq s \<and>
    (case out of None \<Rightarrow> holding s' = holding s \<and> dropped s' = dropped s
     | Some (j, a) \<Rightarrow>
         if a = DROP then holding s' = holding s \<and> dropped s' = dropped s @ [j]
         else holding s' = (holding s)[w := Some j] \<and> dropped s' = dropped s)"
proof -
  obtain jo q where p: "popWithTimeout (input_queue (workers s ! w)) = (jo, q)" by fastforce
  obtain out fp where r: "run_body ns t1 t2 rules jo ((workers s ! w)\<lparr>input_queue := q\<rparr>) = Inr (out, fp)"
    using assms by (auto simp: worker_step_def p split: if_splits)
  show ?thesis
    using assms p r
    by (cases out) (auto simp: worker_step_def handleOutput_def Let_def split: if_splits)
qed

text \<open>What a worker's queue gives it is a job that is fit to be handled.\<close>

lemma popped_ok:
  assumes "healthy s" and "w < length (workers s)" and "popWithTimeout (input_queue (workers s ! w)) = (jo, q)"
  shows "tracker_inv (conn_tracker ((workers s ! w)\<lparr>input_queue := q\<rparr>)) \<and> (\<forall>job. jo = Some job \<longrightarrow> job_ok job)"
proof -
  have fp: "tracker_inv (conn_tracker (workers s ! w))" "\<forall>job \<in> set (queue (input_queue (workers s ! w))). job_ok job"
    using assms(1,2) by (auto simp: healthy_def)
  then show ?thesis
    using assms(3) by (cases "queue (input_queue (workers s ! w))") (auto simp: popWithTimeout_eq take_front_def)
qed

definition clean :: "(packet_job \<Rightarrow> bool) \<Rightarrow> system \<Rightarrow> bool" where
  "clean P s \<longleftrightarrow>
     (\<forall>j. j \<in> set (written s) \<or> j \<in> set (queue (outq s)) \<or> Some j \<in> set (holding s) \<longrightarrow> P j)"

lemma clean_work:
  assumes "sound_state l f s" and "clean P s" and "worker_step rules ns t1 t2 w s = Inr (Some s')"
    and "\<And>j. permits rules j \<Longrightarrow> P j"
  shows "clean P s'"
proof -
  obtain jo q out fp where e: "popWithTimeout (input_queue (workers s ! w)) = (jo, q)"
      "run_body ns t1 t2 rules jo ((workers s ! w)\<lparr>input_queue := q\<rparr>) = Inr (out, fp)" "w < length (workers s)"
      "written s' = written s" "outq s' = outq s"
      "case out of None \<Rightarrow> holding s' = holding s \<and> dropped s' = dropped s
       | Some (j, a) \<Rightarrow>
           if a = DROP then holding s' = holding s \<and> dropped s' = dropped s @ [j]
           else holding s' = (holding s)[w := Some j] \<and> dropped s' = dropped s"
    using worker_step_effect [OF assms(3)] by blast
  have ok: "tracker_inv (conn_tracker ((workers s ! w)\<lparr>input_queue := q\<rparr>))" "\<forall>job. jo = Some job \<longrightarrow> job_ok job"
    using popped_ok [OF _ e(3,1)] assms(1) by (auto simp: sound_state_def)
  show ?thesis
  proof (cases "\<exists>j a. out = Some (j, a) \<and> a \<noteq> DROP")
    case True
    then obtain j a where o: "out = Some (j, a)" "a \<noteq> DROP" by blast
    then obtain job where job: "jo = Some job" using e(2) by (cases jo) (auto simp: run_body_def)
    then have "job_ok job" using ok(2) by simp
    then have "P j"
      using run_body_permits [OF ok(1) _ e(2) [unfolded job o(1)] o(2)] assms(4) by blast
    moreover have "holding s' = (holding s)[w := Some j]" using e(6) o by simp
    ultimately show ?thesis
      using assms(2) e(4,5) set_update_subset_insert [of "holding s" w "Some j"] by (auto simp: clean_def)
  next
    case False
    then have "holding s' = holding s" using e(6) by (cases out) auto
    then show ?thesis using assms(2) e(4,5) by (simp add: clean_def)
  qed
qed

lemma clean_emit:
  assumes "clean P s" and "emit_step w s = Some s'"
  shows "clean P s'"
proof -
  obtain j q where e: "w < length (holding s)" "holding s ! w = Some j" "push j (outq s) = Some q"
      "s' = s\<lparr>outq := q, holding := (holding s)[w := None]\<rparr>"
    using assms(2) by (auto simp: emit_step_def split: if_splits option.splits)
  have "Some j \<in> set (holding s)" using nth_mem [OF e(1)] e(2) by simp
  then show ?thesis
    using assms(1) e(3,4) set_update_subset_insert [of "holding s" w None]
    by (auto simp: clean_def push_def split: if_splits)
qed

lemma clean_step:
  assumes "sound_state l f s" and "clean P s" and "step rules s s'" and "\<And>j. permits rules j \<Longrightarrow> P j"
  shows "clean P s'"
  using assms(3)
proof (cases rule: step.cases)
  case Read
  then show ?thesis using assms(2)
    by (auto simp: clean_def reader_step_def split: list.splits option.splits)
next
  case (Lb_pop i)
  then show ?thesis using assms(2) by (auto simp: clean_def lb_pop_step_def split: if_splits)
next
  case (Lb_push i)
  then show ?thesis using assms(2) by (auto simp: clean_def lb_push_step_def split: if_splits option.splits)
next
  case (Work ns t1 t2 w)
  then show ?thesis using clean_work [OF assms(1,2) _ assms(4)] by blast
next
  case (Emit w)
  then show ?thesis using clean_emit [OF assms(2)] by blast
next
  case Write
  then show ?thesis using assms(2)
    by (auto simp: clean_def writer_step_def popWithTimeout_eq take_front_def split: if_splits list.splits)
qed (use assms(2) in \<open>auto simp: clean_def shutdown_def\<close>)

text \<open>Whatever is dropped or blocked, there is something against: \<open>P\<close>.\<close>

definition justified :: "(five_tuple \<Rightarrow> bool) \<Rightarrow> system \<Rightarrow> bool" where
  "justified P s \<longleftrightarrow>
     (\<forall>j \<in> set (dropped s). P (job_tuple j)) \<and>
     (\<forall>fp \<in> set (workers s). accounted P (conn_tracker fp))"

lemma justified_work:
  assumes "sound_state l f s" and "justified P s" and "worker_step rules ns t1 t2 w s = Inr (Some s')"
    and "\<And>k. may_block rules k \<Longrightarrow> P k"
  shows "justified P s'"
proof -
  obtain jo q out fp where e: "popWithTimeout (input_queue (workers s ! w)) = (jo, q)"
      "run_body ns t1 t2 rules jo ((workers s ! w)\<lparr>input_queue := q\<rparr>) = Inr (out, fp)" "w < length (workers s)"
      "workers s' = (workers s)[w := fp]"
      "case out of None \<Rightarrow> holding s' = holding s \<and> dropped s' = dropped s
       | Some (j, a) \<Rightarrow>
           if a = DROP then holding s' = holding s \<and> dropped s' = dropped s @ [j]
           else holding s' = (holding s)[w := Some j] \<and> dropped s' = dropped s"
    using worker_step_effect [OF assms(3)] by blast
  have ok: "tracker_inv (conn_tracker ((workers s ! w)\<lparr>input_queue := q\<rparr>))" "\<forall>job. jo = Some job \<longrightarrow> job_ok job"
    using popped_ok [OF _ e(3,1)] assms(1) by (auto simp: sound_state_def)
  have "accounted P (conn_tracker ((workers s ! w)\<lparr>input_queue := q\<rparr>))"
    using assms(2) e(3) by (simp add: justified_def)
  then have u: "accounted P (conn_tracker fp)" "\<forall>j. out = Some (j, DROP) \<longrightarrow> P (job_tuple j)"
    using run_body_accounted [where P = P, OF ok _ assms(4) e(2)] by auto
  have "\<forall>j \<in> set (dropped s'). P (job_tuple j)"
    using assms(2) e(5) u(2) by (cases out) (auto simp: justified_def split: if_splits)
  then show ?thesis
    using assms(2) u(1) e(4) set_update_subset_insert [of "workers s" w fp] by (auto simp: justified_def)
qed

lemma justified_lb_push:
  assumes "justified P s" and "lb_push_step i s = Inr (Some s')"
  shows "justified P s'"
proof -
  obtain lb qs where e: "dropped s' = dropped s"
      "workers s' = map2 (\<lambda>fp q. fp\<lparr>input_queue := q\<rparr>) (workers s) qs"
    using assms(2) by (auto simp: lb_push_step_def split: if_splits option.splits)
  have "accounted P (conn_tracker fp)" if "fp \<in> set (workers s')" for fp
    using that assms(1) unfolding e(2) justified_def by (auto dest: set_zip_leftD)
  then show ?thesis using assms(1) e(1) by (simp add: justified_def)
qed

lemma justified_step:
  assumes "sound_state l f s" and "justified P s" and "step rules s s'" and "\<And>k. may_block rules k \<Longrightarrow> P k"
  shows "justified P s'"
  using assms(3)
proof (cases rule: step.cases)
  case Read
  then show ?thesis using assms(2)
    by (auto simp: justified_def reader_step_def split: list.splits option.splits)
next
  case (Lb_pop i)
  then show ?thesis using assms(2) by (auto simp: justified_def lb_pop_step_def split: if_splits)
next
  case (Lb_push i)
  then show ?thesis using justified_lb_push [OF assms(2)] by blast
next
  case (Work ns t1 t2 w)
  then show ?thesis using justified_work [OF assms(1,2) _ assms(4)] by blast
next
  case (Emit w)
  then show ?thesis using assms(2) by (auto simp: justified_def emit_step_def split: if_splits option.splits)
next
  case Write
  then show ?thesis using assms(2)
    by (auto simp: justified_def writer_step_def split: if_splits prod.splits option.splits)
next
  case (Fp_stop w)
  have "accounted P (conn_tracker (fp_stop (workers s ! w)))"
    using assms(2) Fp_stop(3) by (simp add: justified_def fp_stop_def)
  then show ?thesis
    using assms(2) Fp_stop(1) set_update_subset_insert [of "workers s" w] by (auto simp: justified_def)
qed (use assms(2) in \<open>auto simp: justified_def\<close>)

lemma start_justified: "justified P (start_system l f jobs)"
  using start_idle [of _ l f jobs] by (fastforce simp: justified_def accounted_def new_tracker_def)

interpretation clean_run: run_invariant "\<lambda>rules. clean (permits rules)"
proof unfold_locales
  show "clean (permits rules) (start_system l f jobs)" for rules l f jobs
    by (simp add: clean_def new_queue_def)
qed (rule clean_step)

interpretation justified_run: run_invariant "\<lambda>rules. justified (may_block rules)"
  using start_justified justified_step by unfold_locales

lemma written_permitted:
  assumes "0 < l" and "0 < f" and "f < 2 ^ 31" and "\<forall>job \<in> set jobs. job_ok job"
    and "reachable rules (start_system l f jobs) s" and "j \<in> set (written s)"
  shows "permits rules j"
  using clean_run.in_every_run [OF assms(1-5)] assms(6) by (simp add: clean_def)

lemma written_flow:
  assumes "0 < l" and "0 < f" and "f < 2 ^ 31" and "\<forall>job \<in> set jobs. job_ok job"
    and "reachable rules (start_system l f jobs) s"
  shows "subseq (of_flow k (written s)) (of_flow k jobs)"
proof -
  have "subseq (of_flow k (written s)) (lane l f k (lanes_of s))"
    by (simp add: lane_def prefix_imp_subseq)
  also have "subseq \<dots> (of_flow k jobs)"
    using from_start(2) [OF assms] by (simp add: lane_ok_def)
  finally show ?thesis .
qed

lemma dropped_justified:
  assumes "0 < l" and "0 < f" and "f < 2 ^ 31" and "\<forall>job \<in> set jobs. job_ok job"
    and "reachable rules (start_system l f jobs) s" and "j \<in> set (dropped s)"
  shows "may_block rules (job_tuple j)"
  using justified_run.in_every_run [OF assms(1-5)] assms(6) by (simp add: justified_def)

text \<open>With rules on addresses and ports only, the pipeline is a filter.\<close>

lemma subseq_filter_same:
  assumes "subseq xs ys" and "mset xs = filter_mset P (mset ys)"
  shows "xs = filter P ys"
proof -
  have "\<forall>x \<in> set xs. P x" using assms(2) by (metis mem_Collect_eq set_mset_filter set_mset_mset)
  then have "filter P xs = xs" by simp
  then have "subseq xs (filter P ys)" using subseq_filter [OF assms(1), of P] by simp
  moreover have "length xs = length (filter P ys)" using assms(2) by (metis mset_filter size_mset)
  ultimately show ?thesis by (rule subseq_same_length)
qed

lemma filtered_run:
  assumes "0 < l" and "0 < f" and "f < 2 ^ 31" and "\<forall>job \<in> set jobs. job_ok job"
    and "reachable rules (start_system l f jobs) s" and "addresses_only rules" and "in_flight s = []"
  shows "mset (written s) = filter_mset (permits rules) (mset jobs)"
    and "mset (dropped s) = filter_mset (\<lambda>j. \<not> permits rules j) (mset jobs)"
    and "of_flow k (written s) = filter (permits rules) (of_flow k jobs)"
proof -
  have m: "mset jobs = mset (written s) + mset (dropped s)" using conservation [OF assms(1-5)] assms(7) by simp
  have w: "\<forall>j \<in># mset (written s). permits rules j" using written_permitted [OF assms(1-5)] by simp
  have d: "\<forall>j \<in># mset (dropped s). \<not> permits rules j"
    using dropped_justified [OF assms(1-5)] may_block_addresses [OF assms(6)] by simp
  have keep: "filter_mset P M = M" if "\<forall>x \<in># M. P x" for P and M :: "packet_job multiset"
    using that by (simp add: filter_mset_eq_conv)
  have none: "filter_mset P M = {#}" if "\<forall>x \<in># M. \<not> P x" for P and M :: "packet_job multiset"
    using that by (induction M) auto
  show wm: "mset (written s) = filter_mset (permits rules) (mset jobs)"
    unfolding m using keep [OF w] none [of _ "permits rules"] d by simp
  show "mset (dropped s) = filter_mset (\<lambda>j. \<not> permits rules j) (mset jobs)"
    unfolding m using keep [OF d] none [of _ "\<lambda>j. \<not> permits rules j"] w by simp
  have "mset (of_flow k (written s)) = filter_mset (permits rules) (mset (of_flow k jobs))"
    by (simp add: of_flow_def wm filter_filter_mset conj_commute)
  then show "of_flow k (written s) = filter (permits rules) (of_flow k jobs)"
    by (rule subseq_filter_same [OF written_flow [OF assms(1-5)]])
qed

section \<open>The counters of the engine\<close>

definition counted :: "system \<Rightarrow> bool" where
  "counted s \<longleftrightarrow>
     sys_stats s = initial_stats
       \<lparr>forwarded_packets := word_of_nat (length (written s @ queue (outq s) @ concat (map opt_list (holding s)))),
        dropped_packets := word_of_nat (length (dropped s))\<rparr>"

lemma held_update:
  "w < length hs \<Longrightarrow>
   length (concat (map opt_list (hs[w := x]))) + length (opt_list (hs ! w)) =
     length (concat (map opt_list hs)) + length (opt_list x)"
  by (induction hs arbitrary: w) (auto split: nat.split simp: less_Suc_eq_0_disj)

lemma dpi_stats_eq:
  "initial_stats\<lparr>forwarded_packets := a, dropped_packets := b\<rparr> =
   initial_stats\<lparr>forwarded_packets := c, dropped_packets := d\<rparr> \<longleftrightarrow> a = c \<and> b = d"
  by (auto dest: arg_cong [where f = forwarded_packets] arg_cong [where f = dropped_packets])

lemma counted_work:
  assumes "sound_state l f s" and "counted s" and "worker_step rules ns t1 t2 w s = Inr (Some s')"
  shows "counted s'"
proof -
  have t: "topology l f s" and h: "healthy s" using assms(1) by (auto simp: sound_state_def)
  have w: "w < l * f" "fp_alive s ! w" "holding s ! w = None"
    using assms(3) t by (auto simp: worker_step_def topology_def split: if_splits)
  have held: "w < length (holding s)" using t w(1) by (simp add: topology_def)
  from t h w show ?thesis
  proof (cases rule: worker_step_cases [where rules = rules and ns = ns and ?t1.0 = t1 and ?t2.0 = t2])
    case (forward j js fp')
    have "length (concat (map opt_list ((holding s)[w := Some j]))) = length (concat (map opt_list (holding s))) + 1"
      using held_update [OF held, of "Some j"] w(3) by simp
    then show ?thesis using assms(2,3) forward(3) by (auto simp: counted_def)
  qed (use assms(2,3) in \<open>auto simp: counted_def\<close>)
qed

lemma counted_emit:
  assumes "sound_state l f s" and "counted s" and "emit_step w s = Some s'"
  shows "counted s'"
proof -
  obtain j q where e: "w < length (holding s)" "holding s ! w = Some j" "push j (outq s) = Some q"
      "s' = s\<lparr>outq := q, holding := (holding s)[w := None]\<rparr>"
    using assms(3) by (auto simp: emit_step_def split: if_splits option.splits)
  have "\<not> is_shutdown (outq s)"
    using assms(1) e(1,2) by (auto simp: sound_state_def shut_order_def topology_def)
  then have "queue q = queue (outq s) @ [j]" using tsq.put_result [OF e(3)] by simp
  moreover have "length (concat (map opt_list (holding s))) = length (concat (map opt_list ((holding s)[w := None]))) + 1"
    using held_update [OF e(1), of None] e(2) by simp
  ultimately show ?thesis using assms(2) e(4) by (simp add: counted_def)
qed

interpretation counted_run: run_invariant "\<lambda>_. counted"
proof unfold_locales
  show "counted (start_system l f jobs)" for l f jobs
    by (simp add: counted_def initial_stats_def new_queue_def)
next
  fix l f s rules s'
  assume s: "sound_state l f s" "counted s" and "step rules s s'"
  from this(3) show "counted s'"
  proof (cases rule: step.cases)
    case (Lb_push i)
    then show ?thesis using s(2) by (auto simp: counted_def lb_push_step_def split: if_splits option.splits)
  next
    case (Work ns t1 t2 w)
    then show ?thesis using counted_work [OF s] by blast
  next
    case (Emit w)
    then show ?thesis using counted_emit [OF s] by blast
  next
    case Write
    then show ?thesis using s(2)
      by (auto simp: counted_def writer_step_def popWithTimeout_eq take_front_def split: if_splits list.splits)
  qed (use s(2) in \<open>auto simp: counted_def reader_step_def lb_pop_step_def split: list.splits option.splits if_splits\<close>)
qed

lemma counters:
  assumes "0 < l" and "0 < f" and "f < 2 ^ 31" and "\<forall>job \<in> set jobs. job_ok job"
    and "reachable rules (start_system l f jobs) s"
  shows "forwarded_packets (sys_stats s) =
      word_of_nat (length (written s) + length (queue (outq s)) + length (concat (map opt_list (holding s))))"
    and "dropped_packets (sys_stats s) = word_of_nat (length (dropped s))"
  using counted_run.in_every_run [OF assms] by (simp_all add: counted_def ac_simps)

lemma counters_add_up:
  assumes "0 < l" and "0 < f" and "f < 2 ^ 31" and "\<forall>job \<in> set jobs. job_ok job"
    and "reachable rules (start_system l f jobs) s" and "in_flight s = []"
  shows "forwarded_packets (sys_stats s) + dropped_packets (sys_stats s) = word_of_nat (length jobs)"
proof -
  have n: "length (written s) + length (dropped s) + length (in_flight s) = length jobs"
    using arg_cong [OF conservation [OF assms(1-5)], of size] by simp
  have "length (holding s) = length (workers s)"
    using from_start(1) [OF assms(1-5)] by (simp add: sound_state_def topology_def)
  then have q: "concat (map opt_list (holding s)) = []" "queue (outq s) = []"
    using assms(6) by (auto simp: in_flight_def worker_jobs_def in_set_conv_nth)
  show ?thesis unfolding counters [OF assms(1-5)] q using n assms(6) by (simp flip: of_nat_add)
qed

section \<open>The memory of the pipeline\<close>

definition holds_at_most :: "nat \<Rightarrow> 'a tsq \<Rightarrow> bool" where
  "holds_at_most n q \<longleftrightarrow> max_size q = n \<and> length (queue q) \<le> n"

lemma holds_at_most_keeps:
  "holds_at_most n (new_queue n)" "holds_at_most n q \<Longrightarrow> holds_at_most n (shutdown q)"
  "holds_at_most n q \<Longrightarrow> push x q = Some q' \<Longrightarrow> holds_at_most n q'"
  "holds_at_most n q \<Longrightarrow> popWithTimeout q = (r, q') \<Longrightarrow> holds_at_most n q'"
  using tsq.put_within [of x q q'] tsq.put_bound [of x q q']
  by (auto simp: holds_at_most_def new_queue_def popWithTimeout_eq take_front_def split: list.splits)

text \<open>The bound of a table and its keys. Only \<open>getOrCreateConnection\<close> and \<open>cleanupStale\<close> change the keys.\<close>

definition shape :: "tracker \<Rightarrow> nat \<times> five_tuple list" where
  "shape t = (max_connections t, map fst (connections t))"

lemma modify_keys [simp]: "map fst (modify k g m) = map fst m"
  by (simp add: modify_def comp_def case_prod_beta)

lemma shape_ops [simp]:
  "shape (updateConnection now conn n out t) = shape t"
  "shape (classifyConnection conn app name t) = shape t"
  "shape (blockConnection conn t) = shape t"
  "shape (change_conn k g t) = shape t"
  by (simp_all add: shape_def updateConnection_def classifyConnection_def blockConnection_def change_conn_def
      split: option.split)

lemma max_connections_ops [simp]:
  "max_connections (snd (getOrCreateConnection ns now k t)) = max_connections t"
  "max_connections (snd (cleanupStale timeout now t)) = max_connections t"
  by (simp_all add: getOrCreateConnection_def evictOldest_def cleanupStale_def Let_def
      split: option.split list.split prod.split)

definition table_shape :: "fast_path \<Rightarrow> nat \<times> five_tuple list" where
  "table_shape fp = shape (conn_tracker fp)"

definition table_bound :: "fast_path \<Rightarrow> nat" where
  "table_bound fp = max_connections (conn_tracker fp)"

lemma table_shape_set [simp]: "table_shape (set_tracker g fp) = shape (g (conn_tracker fp))"
  by (simp add: table_shape_def set_tracker_def)

lemma table_shape_simps [simp]:
  "table_shape (fp\<lparr>sni_extractions := n\<rparr>) = table_shape fp"
  "table_shape (fp\<lparr>classification_hits := n\<rparr>) = table_shape fp"
  "table_shape (fp\<lparr>packets_processed := n\<rparr>) = table_shape fp"
  "table_shape (fp\<lparr>packets_forwarded := n\<rparr>) = table_shape fp"
  "table_shape (fp\<lparr>packets_dropped := n\<rparr>) = table_shape fp"
  "table_shape (fp\<lparr>input_queue := q\<rparr>) = table_shape fp"
  "table_shape (fp\<lparr>fp_running := b\<rparr>) = table_shape fp"
  "table_shape (fp\<lparr>conn_tracker := t\<rparr>) = shape t"
  "shape (conn_tracker fp) = table_shape fp"
  by (simp_all add: table_shape_def)

lemma table_bound_simps [simp]:
  "table_bound (fp\<lparr>input_queue := q\<rparr>) = table_bound fp" "table_bound (fp\<lparr>fp_running := b\<rparr>) = table_bound fp"
  by (simp_all add: table_bound_def)

lemma tryExtractSNI_shape:
  "tryExtractSNI job conn fp = Inr (b, fp') \<Longrightarrow> table_shape fp' = table_shape fp"
  unfolding tryExtractSNI_def Let_def
  by (simp split: if_split_asm)
    (elim exE conjE, rename_tac r, case_tac r; auto split: if_split_asm)

lemma tryExtractHTTPHost_shape:
  "tryExtractHTTPHost job conn fp = Inr (b, fp') \<Longrightarrow> table_shape fp' = table_shape fp"
  unfolding tryExtractHTTPHost_def Let_def
  by (simp split: if_split_asm)
    (elim exE conjE, rename_tac r, case_tac r; auto split: if_split_asm)

lemma inspectPayload_shape:
  assumes "inspectPayload job conn fp = Inr fp'"
  shows "table_shape fp' = table_shape fp"
proof (cases "payload_length job = 0 \<or> payload_offset job \<ge> length (job_data job)")
  case True
  then show ?thesis using assms by (simp add: inspectPayload_def)
next
  case False
  obtain b1 fp1 where 1: "tryExtractSNI job conn fp = Inr (b1, fp1)"
    using assms False by (auto simp: inspectPayload_def simp del: split_paired_Ex)
  show ?thesis
  proof (cases b1)
    case True
    then show ?thesis using assms False 1 tryExtractSNI_shape [OF 1] by (simp add: inspectPayload_def)
  next
    case b1: False
    obtain b2 fp2 where 2: "tryExtractHTTPHost job conn fp1 = Inr (b2, fp2)"
      using assms False 1 b1 by (auto simp: inspectPayload_def split: if_splits)
    have "table_shape fp2 = table_shape fp" using tryExtractSNI_shape [OF 1] tryExtractHTTPHost_shape [OF 2] by simp
    then show ?thesis
      using assms False 1 b1 2
      by (auto simp: inspectPayload_def split: if_splits option.splits)
  qed
qed

lemma checkRules_shape: "checkRules rules job conn fp = Inr (a, fp') \<Longrightarrow> table_shape fp' = table_shape fp"
  by (auto simp: checkRules_def split: option.splits)

lemma processPacket_shape:
  assumes "processPacket ns t1 t2 rules job fp = Inr (a, fp')"
  shows "table_shape fp' = shape (snd (getOrCreateConnection ns t1 (job_tuple job) (conn_tracker fp)))"
proof -
  obtain conn tr where g: "getOrCreateConnection ns t1 (job_tuple job) (conn_tracker fp) = (conn, tr)" by fastforce
  then show ?thesis
    using assms
    by (auto simp: processPacket_def Let_def split: option.splits if_splits
        dest!: inspectPayload_shape checkRules_shape)
qed

lemma run_body_shape:
  "run_body ns t1 t2 rules jo fp = Inr (out, fp') \<Longrightarrow>
   table_shape fp' = shape (case jo of None \<Rightarrow> snd (cleanupStale 300 t1 (conn_tracker fp))
     | Some job \<Rightarrow> snd (getOrCreateConnection ns t1 (job_tuple job) (conn_tracker fp)))"
  by (cases jo) (auto simp: run_body_def Let_def dest!: processPacket_shape)

lemma run_body_bound:
  assumes "run_body ns t1 t2 rules jo fp = Inr (out, fp')"
  shows "table_bound fp' = table_bound fp"
proof -
  have "table_bound fp' = fst (table_shape fp')" by (simp add: table_bound_def table_shape_def shape_def)
  then show ?thesis unfolding run_body_shape [OF assms] by (simp add: table_bound_def shape_def split: option.split)
qed

text \<open>Every queue within the bound it was made with, every table within its own.\<close>

definition worker_within :: "fast_path \<Rightarrow> bool" where
  "worker_within fp \<longleftrightarrow> holds_at_most 10000 (input_queue fp) \<and> table_bound fp = 100000"

definition within :: "system \<Rightarrow> bool" where
  "within s \<longleftrightarrow>
     (\<forall>lb \<in> set (lbs (tier s)). holds_at_most 10000 (lb_input lb)) \<and>
     (\<forall>fp \<in> set (workers s). worker_within fp) \<and> holds_at_most 10000 (outq s)"

lemma within_update:
  assumes "within s"
  shows "holds_at_most 10000 (lb_input lb) \<Longrightarrow> within (update_lb i lb s)"
    and "worker_within fp \<Longrightarrow> within (update_worker w fp s)"
  using assms set_update_subset_insert [of "lbs (tier s)" i lb] set_update_subset_insert [of "workers s" w fp]
  by (auto simp: within_def)

lemma within_parts:
  "within s \<Longrightarrow> i < length (lbs (tier s)) \<Longrightarrow> holds_at_most 10000 (lb_input (lbs (tier s) ! i))"
  "within s \<Longrightarrow> w < length (workers s) \<Longrightarrow> worker_within (workers s ! w)"
  by (auto simp: within_def)

lemma within_read:
  assumes "sound_state l f s" and "within s" and "reader_step s = Inr (Some s')"
  shows "within s'"
proof -
  have t: "topology l f s" and o: "shut_order s" using assms(1) by (auto simp: sound_state_def)
  obtain j js where r: "to_read s = j # js" using assms(3) by (auto simp: reader_step_def split: list.splits)
  let ?lb = "lbs (tier s) ! (route l f (job_tuple j) div f)"
  have i: "route l f (job_tuple j) div f < length (lbs (tier s))"
    using t route_div_bound [of f l] by (simp add: topology_def)
  have s': "length (queue (lb_input ?lb)) < max_size (lb_input ?lb)"
    "s' = update_lb (route l f (job_tuple j) div f) (?lb\<lparr>lb_input := enqueue j (lb_input ?lb)\<rparr>) (s\<lparr>to_read := js\<rparr>)"
    using assms(3) reader_step_eq [OF t o r] by (auto split: if_splits)
  have "within (s\<lparr>to_read := js\<rparr>)" using assms(2) by (simp add: within_def)
  then show ?thesis
    unfolding s'(2) using s'(1) within_parts(1) [OF assms(2) i] by (intro within_update(1)) (auto simp: holds_at_most_def)
qed

lemma within_dispatch:
  assumes "sound_state l f s" and "within s" and "lb_push_step i s = Inr (Some s')"
  shows "within s'"
proof -
  have t: "topology l f s" and o: "shut_order s" and r: "routed l f (lanes_of s)"
    using assms(1) by (auto simp: sound_state_def)
  obtain j where j: "in_hand (lbs (tier s) ! i) = Some j" "i < length (lbs (tier s))"
    using assms(3) by (auto simp: lb_push_step_def split: if_splits)
  then have i: "i < l" using t by (simp add: topology_def)
  let ?w = "route l f (job_tuple j)"
  have w: "?w < length (workers s)" using t route_bound [of f l] by (simp add: topology_def)
  obtain lb where lb: "lb_input lb = lb_input (lbs (tier s) ! i)"
    and s': "length (queue (input_queue (workers s ! ?w))) < max_size (input_queue (workers s ! ?w))"
      "s' = update_lb i lb (update_worker ?w
         ((workers s ! ?w)\<lparr>input_queue := enqueue j (input_queue (workers s ! ?w))\<rparr>) s)"
    using assms(3) lb_push_step_eq [OF t o r i j(1)] by (auto split: if_splits)
  show ?thesis
    unfolding s'(2) using s'(1) within_parts(1) [OF assms(2) j(2)] within_parts(2) [OF assms(2) w] lb
    by (intro within_update assms(2)) (auto simp: holds_at_most_def worker_within_def)
qed

lemma within_work:
  assumes "sound_state l f s" and "within s" and "worker_step rules ns t1 t2 w s = Inr (Some s')"
  shows "within s'"
proof -
  obtain jo q out fp where e: "popWithTimeout (input_queue (workers s ! w)) = (jo, q)"
      "run_body ns t1 t2 rules jo ((workers s ! w)\<lparr>input_queue := q\<rparr>) = Inr (out, fp)" "w < length (workers s)"
      "workers s' = (workers s)[w := fp]" "outq s' = outq s"
    using worker_step_effect [OF assms(3)] by blast
  have "tier s' = tier s" using worker_step_frame [OF assms(3)] by simp
  moreover have "healthy s" using assms(1) by (simp add: sound_state_def)
  then have "input_queue fp = q"
    using run_body_result [of "(workers s ! w)\<lparr>input_queue := q\<rparr>" jo ns t1 t2 rules] popped_ok [OF _ e(3,1)] e(2)
    by auto
  then have "worker_within fp"
    using run_body_bound [OF e(2)] within_parts(2) [OF assms(2) e(3)] holds_at_most_keeps(4) [OF _ e(1)]
    by (simp add: worker_within_def)
  ultimately show ?thesis
    using assms(2) e(4,5) set_update_subset_insert [of "workers s" w fp] by (auto simp: within_def)
qed

interpretation within_run: run_invariant "\<lambda>_. within"
proof unfold_locales
  show "within (start_system l f jobs)" for l f jobs
  proof -
    have "worker_within fp" if "fp \<in> set (workers (start_system l f jobs))" for fp
      using start_idle [OF that]
      by (auto simp: worker_within_def table_bound_def new_tracker_def holds_at_most_keeps(1))
    then show ?thesis
      using start_empty [of _ l f jobs] by (simp add: within_def holds_at_most_keeps(1))
  qed
next
  fix l f s rules s'
  assume s: "sound_state l f s" "within s" and "step rules s s'"
  from this(3) show "within s'"
  proof (cases rule: step.cases)
    case Read
    then show ?thesis using within_read [OF s] by blast
  next
    case (Lb_pop i)
    let ?lb = "lbs (tier s) ! i"
    have "i < length (lbs (tier s))" "s' = update_lb i (lb_take ?lb) s"
      using Lb_pop by (auto simp: lb_pop_step_def split: if_splits)
    then show ?thesis
      using within_parts(1) [OF s(2), of i] holds_at_most_keeps(4) [of 10000 "lb_input ?lb"]
      by (auto intro!: within_update(1) s(2) simp: lb_take_def Let_def split: prod.splits option.splits)
  next
    case (Lb_push i)
    then show ?thesis using within_dispatch [OF s] by blast
  next
    case (Work ns t1 t2 w)
    then show ?thesis using within_work [OF s] by blast
  next
    case (Emit w)
    then show ?thesis using s(2) holds_at_most_keeps(3) [of 10000 "outq s"]
      by (auto simp: within_def emit_step_def split: if_splits option.splits)
  next
    case Write
    then show ?thesis using s(2) holds_at_most_keeps(4) [of 10000 "outq s"]
      by (auto simp: within_def writer_step_def split: if_splits option.splits prod.splits)
  next
    case (Lb_stop i)
    then show ?thesis using within_parts(1) [OF s(2), of i]
      by (auto intro!: within_update(1) s(2) holds_at_most_keeps(2) simp: lb_stop_def)
  next
    case (Fp_stop w)
    have "worker_within (fp_stop (workers s ! w))"
      using within_parts(2) [OF s(2) Fp_stop(3)]
      by (simp add: worker_within_def fp_stop_def holds_at_most_keeps(2))
    then show ?thesis unfolding Fp_stop(1) by (intro within_update(2) s(2))
  qed (use s(2) in \<open>auto simp: within_def holds_at_most_keeps(2)\<close>)
qed

lemma length_concat_bound:
  "(\<And>x. x \<in> set xs \<Longrightarrow> length (g x) \<le> n) \<Longrightarrow> length (concat (map g xs)) \<le> length xs * n"
  by (induction xs) (auto intro: add_mono)

section \<open>Properties\<close>

lemma sample_run: "reachable rules (start_system 1 1 [job_of (flow 1) SYN []]) (start_system 1 1 [job_of (flow 1) SYN []])"
  by (rule reachable.Start)

text \<open>What is blocked by address or port never comes out. Whatever the threads do and whatever else
  is known of its flow, no packet whose source address or destination port a rule blocks is
  ever given to the output file.\<close>

theorem blocked_never_written:
  assumes "0 < l" and "0 < f" and "f < 2 ^ 31" and "\<forall>job \<in> set jobs. job_ok job"
    and "reachable (Some rm) (start_system l f jobs) s" and "j \<in> set (written s)"
  shows "\<not> isIPBlocked rm (src_ip (job_tuple j)) \<and> \<not> isPortBlocked rm (dst_port (job_tuple j))"
  using written_permitted [OF assms] by (simp add: permits_def)

lemma blocking_sample:
  "\<exists>s. reachable (Some (blockIP (src_ip (flow 2)) empty_rules))
        (start_system 2 2 [job_of (flow 1) SYN [], job_of (flow 2) SYN []]) s \<and> in_flight s = [] \<and>
      written s = [job_of (flow 1) SYN []]"
  (is "\<exists>s. reachable ?rules (start_system 2 2 ?jobs) s \<and> _")
proof -
  have ok: "\<forall>job \<in> set ?jobs. job_ok job" using job_of_ok by simp
  then have "sound_state 2 2 (start_system 2 2 ?jobs)" by (intro start_sound) auto
  then obtain s where s: "reachable ?rules (start_system 2 2 ?jobs) s" "in_flight s = []"
    using drain [of 2 2 "start_system 2 2 ?jobs"] by auto
  have "permits ?rules (job_of (flow 1) SYN [])" "\<not> permits ?rules (job_of (flow 2) SYN [])"
    by (simp_all add: permits_def isIPBlocked_def isPortBlocked_def blockIP_def empty_rules_def job_of_def flow_def)
  moreover have "addresses_only ?rules" by (simp add: addresses_only_def blockIP_def empty_rules_def)
  ultimately have "mset (written s) = {#job_of (flow 1) SYN []#}"
    using filtered_run(1) [OF _ _ _ ok s(1) _ s(2)] by simp
  then show ?thesis using s by auto
qed

theorem blocked_never_written_witness:
  "\<not> isIPBlocked (blockIP (src_ip (flow 2)) empty_rules) (src_ip (flow 1))"
proof -
  obtain s where s: "reachable (Some (blockIP (src_ip (flow 2)) empty_rules))
      (start_system 2 2 [job_of (flow 1) SYN [], job_of (flow 2) SYN []]) s"
      "written s = [job_of (flow 1) SYN []]"
    using blocking_sample by blast
  have "\<forall>job \<in> set [job_of (flow 1) SYN [], job_of (flow 2) SYN []]. job_ok job" using job_of_ok by simp
  then show ?thesis
    using blocked_never_written [OF _ _ _ _ s(1), of "job_of (flow 1) SYN []"] s(2) by (simp add: job_of_def)
qed

text \<open>No packet is dropped without a reason. Whatever is dropped in any run belongs to a tuple that
  the rules block for its address, its port, or some application or server name.\<close>

theorem drops_have_reasons:
  assumes "0 < l" and "0 < f" and "f < 2 ^ 31" and "\<forall>job \<in> set jobs. job_ok job"
    and "reachable rules (start_system l f jobs) s" and "j \<in> set (dropped s)"
  shows "\<exists>rm app sni. rules = Some rm \<and>
    shouldBlock rm (src_ip (job_tuple j)) (dst_port (job_tuple j)) app sni \<noteq> None"
  using dropped_justified [OF assms] by (simp add: may_block_def)

text \<open>C10: with rules on addresses and ports only (none at all included), the threads together are a
  filter. Once nothing is under way, what is written is exactly the jobs whose address and
  port no rule blocks, each once and those of a flow in the order of the capture, and all
  others were dropped.\<close>

theorem address_rules_filter:
  assumes "0 < l" and "0 < f" and "f < 2 ^ 31" and "\<forall>job \<in> set jobs. job_ok job"
    and "reachable rules (start_system l f jobs) s" and "addresses_only rules" and "in_flight s = []"
  shows "mset (written s) = filter_mset (permits rules) (mset jobs) \<and>
    mset (dropped s) = filter_mset (\<lambda>j. \<not> permits rules j) (mset jobs) \<and>
    (\<forall>k. of_flow k (written s) = filter (permits rules) (of_flow k jobs))"
  using filtered_run [OF assms] by blast

theorem address_rules_filter_witness:
  "\<exists>s. reachable (Some (blockIP (src_ip (flow 2)) empty_rules))
        (start_system 2 2 [job_of (flow 1) SYN [], job_of (flow 2) SYN []]) s \<and>
     mset (written s) = {#job_of (flow 1) SYN []#} \<and> mset (dropped s) = {#job_of (flow 2) SYN []#}"
proof -
  let ?jobs = "[job_of (flow 1) SYN [], job_of (flow 2) SYN []]"
  let ?rules = "Some (blockIP (src_ip (flow 2)) empty_rules)"
  obtain s where s: "reachable ?rules (start_system 2 2 ?jobs) s" "in_flight s = []"
    using blocking_sample by blast
  have "permits ?rules (job_of (flow 1) SYN [])" "\<not> permits ?rules (job_of (flow 2) SYN [])"
    by (simp_all add: permits_def isIPBlocked_def isPortBlocked_def blockIP_def empty_rules_def job_of_def flow_def)
  moreover have "addresses_only ?rules" by (simp add: addresses_only_def blockIP_def empty_rules_def)
  moreover have "\<forall>job \<in> set ?jobs. job_ok job" using job_of_ok by simp
  ultimately have "mset (written s) = {#job_of (flow 1) SYN []#} \<and> mset (dropped s) = {#job_of (flow 2) SYN []#}"
    using address_rules_filter [of 2 2 ?jobs ?rules s] s by simp
  then show ?thesis using s(1) by blast
qed

theorem drops_have_reasons_witness:
  "\<exists>rm app sni. Some (blockIP (src_ip (flow 2)) empty_rules) = Some rm \<and>
     shouldBlock rm (src_ip (flow 2)) (dst_port (flow 2)) app sni \<noteq> None"
proof -
  let ?jobs = "[job_of (flow 1) SYN [], job_of (flow 2) SYN []]"
  let ?rules = "Some (blockIP (src_ip (flow 2)) empty_rules)"
  have ok: "\<forall>job \<in> set ?jobs. job_ok job" using job_of_ok by simp
  obtain s where s: "reachable ?rules (start_system 2 2 ?jobs) s" "in_flight s = []"
      "written s = [job_of (flow 1) SYN []]"
    using blocking_sample by blast
  have "mset (dropped s) = {#job_of (flow 2) SYN []#}"
    using conservation [OF _ _ _ ok s(1)] s(2,3) by simp
  then have "job_of (flow 2) SYN [] \<in> set (dropped s)" by simp
  from drops_have_reasons [OF _ _ _ ok s(1) this] show ?thesis by (simp add: job_of_def)
qed

text \<open>C16: memory is bounded. However long the capture and however far one thread falls behind another,
  no queue ever holds more than its 10000 jobs and no worker's table more than its 100000
  flows, so what the engine holds does not grow with the capture.\<close>

theorem pipeline_memory_bounded:
  assumes "0 < l" and "0 < f" and "f < 2 ^ 31" and "\<forall>job \<in> set jobs. job_ok job"
    and "reachable rules (start_system l f jobs) s"
  shows "(\<forall>lb \<in> set (lbs (tier s)). length (queue (lb_input lb)) \<le> 10000) \<and>
    (\<forall>fp \<in> set (workers s). length (queue (input_queue fp)) \<le> 10000 \<and>
       length (connections (conn_tracker fp)) \<le> 100000) \<and>
    length (queue (outq s)) \<le> 10000 \<and>
    length (in_flight s) \<le> length (to_read s) + l * 10001 + l * f * 10001 + 10000"
proof -
  have t: "topology l f s" and h: "healthy s" and w: "within s"
    using from_start(1) [OF assms] within_run.in_every_run [OF assms] by (auto simp: sound_state_def)
  have lb: "length (queue (lb_input lb)) \<le> 10000" if "lb \<in> set (lbs (tier s))" for lb
    using w that by (auto simp: within_def holds_at_most_def)
  have fp: "length (queue (input_queue fp)) \<le> 10000 \<and> length (connections (conn_tracker fp)) \<le> 100000"
    if "fp \<in> set (workers s)" for fp
    using w h that
    by (fastforce simp: within_def worker_within_def table_bound_def holds_at_most_def healthy_def tracker_inv_def)
  have out: "length (queue (outq s)) \<le> 10000" using w by (simp add: within_def holds_at_most_def)
  have "length (concat (map lb_jobs (lbs (tier s)))) \<le> length (lbs (tier s)) * 10001"
    using lb by (intro length_concat_bound) (fastforce simp: lb_jobs_def opt_list_def le_Suc_eq split: option.split)
  moreover have "length (concat (map (worker_jobs s) [0..<length (workers s)])) \<le> length (workers s) * 10001"
  proof -
    have "length (worker_jobs s w) \<le> 10001" if "w \<in> set [0..<length (workers s)]" for w
      using fp [OF nth_mem, of w] that by (auto simp: worker_jobs_def opt_list_def split: option.split)
    then show ?thesis using length_concat_bound [of "[0..<length (workers s)]" "worker_jobs s" 10001] by simp
  qed
  ultimately show ?thesis using lb fp out t by (simp add: in_flight_def topology_def)
qed

theorem pipeline_memory_bounded_witness:
  "length (in_flight (start_system 1 1 [job_of (flow 1) SYN []])) \<le> 30003"
  using pipeline_memory_bounded [of 1 1 "[job_of (flow 1) SYN []]", OF _ _ _ _ sample_run] job_of_ok by simp

text \<open>The counters of the report. In every state the engine has counted as forwarded exactly the jobs
  that are written, queued for the output thread or in a worker's hand, and as dropped
  exactly those a verdict took out; when the run is over the two add up to the number of
  jobs, less those that \<open>stop\<close> left in a queue.\<close>

theorem engine_counters:
  assumes "0 < l" and "0 < f" and "f < 2 ^ 31" and "\<forall>job \<in> set jobs. job_ok job"
    and "reachable rules (start_system l f jobs) s"
  shows "forwarded_packets (sys_stats s) =
      word_of_nat (length (written s) + length (queue (outq s)) + length (concat (map opt_list (holding s)))) \<and>
    dropped_packets (sys_stats s) = word_of_nat (length (dropped s)) \<and>
    (in_flight s = [] \<longrightarrow> forwarded_packets (sys_stats s) + dropped_packets (sys_stats s) = word_of_nat (length jobs))"
  using counters [OF assms] counters_add_up [OF assms] by blast

theorem engine_counters_witness:
  "\<exists>s. reachable None (start_system 2 2 [job_of (flow 1) SYN [], job_of (flow 2) SYN []]) s \<and>
     forwarded_packets (sys_stats s) + dropped_packets (sys_stats s) = 2"
proof -
  let ?jobs = "[job_of (flow 1) SYN [], job_of (flow 2) SYN []]"
  have snd: "sound_state 2 2 (start_system 2 2 ?jobs)" using job_of_ok by (intro start_sound) auto
  obtain s where s: "reachable None (start_system 2 2 ?jobs) s" "in_flight s = []"
    using drain [OF snd] by auto
  have "\<forall>job \<in> set ?jobs. job_ok job" using job_of_ok by simp
  then have "forwarded_packets (sys_stats s) + dropped_packets (sys_stats s) = word_of_nat (length ?jobs)"
    by (intro mp [OF conjunct2 [OF conjunct2 [OF engine_counters [OF _ _ _ _ s(1)]]] s(2)]) simp_all
  then show ?thesis using s(1) by auto
qed

end
