(* ===== verification/Flow_Runs.thy ===== *)
theory Flow_Runs
  imports Pipeline_Verdicts
begin

text \<open>
  What the pipeline (\<open>src/dpi_engine.cpp\<close>, \<open>src/load_balancer.cpp\<close>, \<open>src/fast_path.cpp\<close>) does to one flow.
  The specification is a machine without threads: it takes the packets of the flow one by one
  in the order of the capture, applies \<open>flow_step\<close> to the flow's entry, and may lose the entry
  between two packets. Every run of the threads is a run of this machine for every flow at
  once, so what the application and domain rules do to a capture is shown on the machine.
\<close>

section \<open>The machine of one flow\<close>

record flow_view =
  fl_passed :: "packet_job list"
  fl_pending :: "packet_job list"
  fl_refused :: "packet_job list"
  fl_entry :: "connection option"

definition entry_or_new :: "five_tuple \<Rightarrow> time_point \<Rightarrow> connection option \<Rightarrow> connection" where
  "entry_or_new k t e = (case e of None \<Rightarrow> new_connection k t | Some c \<Rightarrow> c)"

text \<open>An entry is lost when it is stale or closed, or the table was full.\<close>

inductive flow_move :: "rule_manager option \<Rightarrow> five_tuple \<Rightarrow> flow_view \<Rightarrow> flow_view \<Rightarrow> bool" for rules k where
  Forget: "flow_move rules k v (v\<lparr>fl_entry := None\<rparr>)"
| Pass: "fl_pending v = j # js \<Longrightarrow> job_tuple j = k \<Longrightarrow>
    flow_step rules t2 j (entry_or_new k t1 (fl_entry v)) = (c, FORWARD) \<Longrightarrow>
    flow_move rules k v (v\<lparr>fl_passed := fl_passed v @ [j], fl_pending := js, fl_entry := Some c\<rparr>)"
| Refuse: "fl_pending v = j # js \<Longrightarrow> job_tuple j = k \<Longrightarrow>
    flow_step rules t2 j (entry_or_new k t1 (fl_entry v)) = (c, DROP) \<Longrightarrow>
    flow_move rules k v (v\<lparr>fl_refused := fl_refused v @ [j], fl_pending := js, fl_entry := Some c\<rparr>)"

definition fresh_flow :: "packet_job list \<Rightarrow> flow_view" where
  "fresh_flow js = \<lparr>fl_passed = [], fl_pending = js, fl_refused = [], fl_entry = None\<rparr>"

text \<open>The view of a flow in the state of the threads.\<close>

definition view_of :: "nat \<Rightarrow> nat \<Rightarrow> five_tuple \<Rightarrow> system \<Rightarrow> flow_view" where
  "view_of l f k s =
     (let w = route l f k
      in \<lparr>fl_passed = of_flow k (written s @ queue (outq s) @ opt_list (holding s ! w)),
          fl_pending = of_flow k (queue (input_queue (workers s ! w)) @ lb_jobs (lbs (tier s) ! (w div f)) @ to_read s),
          fl_refused = of_flow k (dropped s),
          fl_entry = conn_at (conn_tracker (workers s ! w)) k\<rparr>)"

section \<open>Every step of a thread is a move, or nothing, for every flow\<close>

lemma view_read:
  assumes "sound_state l f s" and "reader_step s = Inr (Some s')"
  shows "view_of l f k s' = view_of l f k s"
proof -
  have t: "topology l f s" "shut_order s" using assms(1) by (auto simp: sound_state_def)
  obtain j js where r: "to_read s = j # js"
    using assms(2) by (auto simp: reader_step_def split: list.splits)
  let ?i = "route l f (job_tuple j) div f"
  have i: "?i < length (lbs (tier s))"
    using t(1) route_div_bound [of f l "job_tuple j"] by (simp add: topology_def)
  have "s' = update_lb ?i ((lbs (tier s) ! ?i)\<lparr>lb_input := enqueue j (lb_input (lbs (tier s) ! ?i))\<rparr>) (s\<lparr>to_read := js\<rparr>)"
    using reader_step_eq [OF t r] assms(2) by (simp split: if_splits)
  then show ?thesis
    using i r by (cases "job_tuple j = k") (auto simp: view_of_def Let_def lb_jobs_def nth_list_update)
qed

lemma view_lb_pop:
  assumes "lb_pop_step i s = Some s'"
  shows "view_of l f k s' = view_of l f k s"
proof -
  have i: "i < length (lbs (tier s))" "in_hand (lbs (tier s) ! i) = None"
    "s' = update_lb i (lb_take (lbs (tier s) ! i)) s"
    using assms by (auto simp: lb_pop_step_def split: if_splits)
  show ?thesis
    using i(1) lb_take_jobs [OF i(2)] by (auto simp: i(3) view_of_def Let_def nth_list_update)
qed

lemma view_lb_push:
  assumes "sound_state l f s" and "lb_push_step i s = Inr (Some s')"
  shows "view_of l f k s' = view_of l f k s"
proof -
  have t: "topology l f s" "shut_order s" "routed l f (lanes_of s)" using assms(1) by (auto simp: sound_state_def)
  have i: "i < length (lbs (tier s))" "i < l" and h: "in_hand (lbs (tier s) ! i) \<noteq> None"
    using t(1) assms(2) by (auto simp: lb_push_step_def topology_def split: if_splits)
  obtain j where j: "in_hand (lbs (tier s) ! i) = Some j" using h by auto
  let ?w = "route l f (job_tuple j)"
  have w: "?w < length (workers s)" using t(1) route_bound [of f l "job_tuple j"] by (simp add: topology_def)
  have ri: "?w div f = i"
    using t(3) j i by (auto simp: routed_def lanes_of_def lb_jobs_def dest!: spec [of _ i])
  obtain lb where lb: "in_hand lb = None" "lb_input lb = lb_input (lbs (tier s) ! i)"
      "s' = update_lb i lb (update_worker ?w
        ((workers s ! ?w)\<lparr>input_queue := enqueue j (input_queue (workers s ! ?w))\<rparr>) s)"
    using lb_push_step_eq [OF t i(2) j] assms(2) by (auto split: if_splits)
  show ?thesis
    using i w j lb(1,2) ri
    by (cases "job_tuple j = k") (auto simp: lb(3) view_of_def Let_def lb_jobs_def nth_list_update)
qed

text \<open>Only jobs of its own flows are at a worker.\<close>

lemma own_jobs:
  assumes "sound_state l f s" and "w < length (workers s)" and "j \<in> set (worker_jobs s w)"
  shows "route l f (job_tuple j) = w"
  using assms by (auto simp: sound_state_def routed_def lanes_of_def)

lemma view_emit:
  assumes "sound_state l f s" and "emit_step w s = Some s'"
  shows "view_of l f k s' = view_of l f k s"
proof -
  have t: "topology l f s" "shut_order s" using assms(1) by (auto simp: sound_state_def)
  have w: "w < l * f" "w < length (workers s)" "w < length (holding s)"
    using t(1) assms(2) by (auto simp: emit_step_def topology_def split: if_splits)
  obtain j where j: "holding s ! w = Some j"
    using assms(2) by (auto simp: emit_step_def split: if_splits option.splits)
  have s': "s' = s\<lparr>outq := enqueue j (outq s), holding := (holding s)[w := None]\<rparr>"
    using emit_step_eq [OF t w(1) j] assms(2) by (simp split: if_splits)
  have "route l f (job_tuple j) = w" using own_jobs [OF assms(1) w(2)] j by (simp add: worker_jobs_def)
  then show ?thesis
    using j w(3) by (cases "job_tuple j = k") (auto simp: s' view_of_def Let_def nth_list_update)
qed

lemma view_write:
  assumes "writer_step s = Some s'"
  shows "view_of l f k s' = view_of l f k s"
  using assms
  by (auto simp: writer_step_def popWithTimeout_eq take_front_def view_of_def Let_def split: if_splits list.splits)

text \<open>The worker of the flow takes a packet of it, one of another flow, or cleans its table up.\<close>

lemma view_work:
  assumes "sound_state l f s" and "worker_step rules ns t1 t2 w s = Inr (Some s')"
  shows "view_of l f k s' = view_of l f k s \<or> flow_move rules k (view_of l f k s) (view_of l f k s')"
proof -
  let ?v = "view_of l f k s" and ?v' = "view_of l f k s'" and ?fp = "workers s ! w"
  obtain jo q out fp where e: "popWithTimeout (input_queue ?fp) = (jo, q)"
      "run_body ns t1 t2 rules jo (?fp\<lparr>input_queue := q\<rparr>) = Inr (out, fp)" "w < length (workers s)"
      "workers s' = (workers s)[w := fp]" "written s' = written s" "outq s' = outq s"
      "case out of None \<Rightarrow> holding s' = holding s \<and> dropped s' = dropped s
       | Some (j, a) \<Rightarrow>
           if a = DROP then holding s' = holding s \<and> dropped s' = dropped s @ [j]
           else holding s' = (holding s)[w := Some j] \<and> dropped s' = dropped s"
    using worker_step_effect [OF assms(2)] by blast
  have h: "healthy s" and t: "topology l f s" using assms(1) by (auto simp: sound_state_def)
  have frame: "tier s' = tier s" "to_read s' = to_read s" "holding s ! w = None"
    using assms(2) worker_step_frame [OF assms(2)] by (auto simp: worker_step_def split: if_splits)
  note ok = popped_ok [OF h e(3,1)]
  have qf: "input_queue fp = q"
    using run_body_result [OF conjunct1 [OF ok] conjunct2 [OF ok], of ns t1 t2 rules] e(2) by auto
  have len: "w < length (holding s)" using t e(3) by (simp add: topology_def)
  show ?thesis
  proof (cases jo)
    case None
    then have o: "out = None" "conn_tracker fp = snd (cleanupStale 300 t1 (conn_tracker ?fp))"
      using e(2) by (auto simp: run_body_def)
    have q: "queue q = queue (input_queue ?fp)"
      using e(1) None by (auto simp: popWithTimeout_eq take_front_def split: list.splits if_splits)
    have "tracker_inv (conn_tracker ?fp)" using h e(3) by (simp add: healthy_def)
    then have c: "conn_at (conn_tracker fp) k \<in> {conn_at (conn_tracker ?fp) k, None}"
      unfolding o(2) by (rule conn_at_cleanup)
    have "?v' = ?v \<or> ?v' = ?v\<lparr>fl_entry := None\<rparr>"
      using c o(1) e(3-7) q qf frame
      by (cases "route l f k = w") (auto simp: view_of_def Let_def)
    then show ?thesis using flow_move.Forget by metis
  next
    case (Some job)
    have j: "job_ok job" using ok Some by simp
    have q: "queue (input_queue ?fp) = job # queue q"
      using e(1) Some by (auto simp: popWithTimeout_eq take_front_def split: list.splits if_splits)
    have rj: "route l f (job_tuple job) = w" using own_jobs [OF assms(1) e(3)] q by (simp add: worker_jobs_def)
    obtain c' a where b: "flow_step rules t2 job (entry_or_new (job_tuple job) t1 (conn_at (conn_tracker ?fp) (job_tuple job))) = (c', a)"
        "out = Some (job, a)" "visits (job_tuple job) (conn_tracker ?fp) (conn_tracker fp) c'"
      using run_body_step [OF conjunct1 [OF ok] j e(2) [unfolded Some]] unfolding entry_or_new_def by auto
    have a: "a = FORWARD \<or> a = DROP" using flow_step_action(1) [OF b(1)] by simp
    show ?thesis
    proof (cases "job_tuple job = k")
      case True
      have c: "conn_at (conn_tracker fp) k = Some c'" using b(3) True by (simp add: visits_iff)
      have p: "fl_pending ?v = job # fl_pending ?v'"
        using rj True q qf e(3,4) frame by (simp add: view_of_def Let_def)
      have st: "flow_step rules t2 job (entry_or_new k t1 (fl_entry ?v)) = (c', a)"
        using b(1) True rj by (simp add: view_of_def Let_def)
      show ?thesis
      proof (cases "a = DROP")
        case drop: True
        have "?v' = ?v\<lparr>fl_refused := fl_refused ?v @ [job], fl_pending := fl_pending ?v', fl_entry := Some c'\<rparr>"
          using drop True c rj b(2) e(3-7) by (simp add: view_of_def Let_def)
        then show ?thesis using Refuse [OF p True] st drop by metis
      next
        case False
        have "?v' = ?v\<lparr>fl_passed := fl_passed ?v @ [job], fl_pending := fl_pending ?v', fl_entry := Some c'\<rparr>"
          using False True c rj b(2) e(3-7) frame(3) len by (simp add: view_of_def Let_def)
        then show ?thesis using Pass [OF p True] st False a by metis
      qed
    next
      case False
      then have c: "conn_at (conn_tracker fp) k \<in> {conn_at (conn_tracker ?fp) k, None}"
        using b(3) by (auto simp: visits_iff)
      have "?v' = ?v \<or> ?v' = ?v\<lparr>fl_entry := None\<rparr>"
        using c False b(2) e(3-7) q qf frame len a
        by (cases "route l f k = w") (auto simp: view_of_def Let_def)
      then show ?thesis using flow_move.Forget by metis
    qed
  qed
qed

lemma view_step:
  assumes "sound_state l f s" and "step rules s s'"
  shows "view_of l f k s' = view_of l f k s \<or> flow_move rules k (view_of l f k s) (view_of l f k s')"
  using assms(2)
proof (cases rule: step.cases)
  case Read
  then show ?thesis using view_read [OF assms(1)] by blast
next
  case (Lb_pop i)
  then show ?thesis using view_lb_pop by blast
next
  case (Lb_push i)
  then show ?thesis using view_lb_push [OF assms(1)] by blast
next
  case (Work ns t1 t2 w)
  then show ?thesis using view_work [OF assms(1)] by blast
next
  case (Emit w)
  then show ?thesis using view_emit [OF assms(1)] by blast
next
  case Write
  then show ?thesis using view_write by blast
qed (auto simp: view_of_def Let_def nth_list_update lb_stop_def lb_jobs_def fp_stop_def shutdown_def)

lemma view_start:
  assumes "0 < l" and "0 < f"
  shows "view_of l f k (start_system l f jobs) = fresh_flow (of_flow k jobs)"
proof -
  let ?s = "start_system l f jobs"
  have w: "route l f k < l * f" "route l f k div f < l" using route_bound route_div_bound assms by simp_all
  have "input_queue (workers ?s ! route l f k) = new_queue 10000 \<and> (\<exists>w. conn_tracker (workers ?s ! route l f k) = new_tracker w 100000)"
    using start_idle [OF nth_mem, of "route l f k" l f jobs] w(1) by simp
  moreover have "lb_jobs (lbs (tier ?s) ! (route l f k div f)) = []"
    using start_empty [OF nth_mem, of "route l f k div f" l f jobs] w(2) by (simp add: lb_jobs_def new_queue_def)
  ultimately show ?thesis
    using w(1) by (auto simp: view_of_def Let_def fresh_flow_def new_queue_def new_tracker_def)
qed

lemma run_of_flow:
  assumes "0 < l" and "0 < f" and "f < 2 ^ 31" and "\<forall>job \<in> set jobs. job_ok job"
    and "reachable rules (start_system l f jobs) s"
  shows "rtranclp (flow_move rules k) (fresh_flow (of_flow k jobs)) (view_of l f k s)"
  using assms(5)
proof (induction rule: reachable.induct)
  case Start
  then show ?case by (simp add: view_start [OF assms(1,2)])
next
  case (Next s s')
  have "sound_state l f s" by (rule from_start(1) [OF assms(1-4) Next(1)])
  then show ?case using view_step [OF _ Next(2), of l f k] Next(3) by (metis rtranclp.rtrancl_into_rtrancl)
qed

section \<open>What the rules do to a flow\<close>

text \<open>The rules have something against a flow that is known as \<open>a\<close>.\<close>

definition objects :: "rule_manager option \<Rightarrow> five_tuple \<Rightarrow> AppType \<times> string \<Rightarrow> bool" where
  "objects rules k a \<longleftrightarrow>
     (case rules of None \<Rightarrow> False
      | Some rm \<Rightarrow> shouldBlock rm (src_ip k) (dst_port k) (fst a) (snd a) \<noteq> None)"

text \<open>A packet says of its flow something of the kind \<open>P\<close>: something the rules block, or something they
  do not.\<close>

definition told :: "(AppType \<times> string \<Rightarrow> bool) \<Rightarrow> packet_job \<Rightarrow> bool" where
  "told P j \<longleftrightarrow> (case job_class j of None \<Rightarrow> False | Some a \<Rightarrow> P a)"

definition condemned :: "rule_manager option \<Rightarrow> packet_job \<Rightarrow> bool" where
  "condemned rules j \<longleftrightarrow> (case job_class j of None \<Rightarrow> False | Some a \<Rightarrow> objects rules (job_tuple j) a)"

definition excused :: "rule_manager option \<Rightarrow> packet_job \<Rightarrow> bool" where
  "excused rules j \<longleftrightarrow> (case job_class j of None \<Rightarrow> False | Some a \<Rightarrow> \<not> objects rules (job_tuple j) a)"

lemma told_rules:
  "condemned rules j \<longleftrightarrow> told (objects rules (job_tuple j)) j"
  "excused rules j \<longleftrightarrow> told (\<lambda>a. \<not> objects rules (job_tuple j) a) j"
  by (simp_all add: condemned_def excused_def told_def)

lemma told_in_flow:
  assumes "j \<in> set (of_flow k jobs)"
  shows "told (objects rules k) j \<longleftrightarrow> condemned rules j" "told (\<lambda>a. \<not> objects rules k a) j \<longleftrightarrow> excused rules j"
  using assms by (auto simp: of_flow_def told_rules)

lemma rule_hit_objects: "rule_hit rules j c = objects rules (job_tuple j) (app_type c, conn_sni c)"
  by (cases rules) (simp_all add: rule_hit_def objects_def)

lemma inspected_job_class:
  "inspected j c =
     (if conn_state c = CLASSIFIED then c else case job_class j of None \<Rightarrow> c | Some a \<Rightarrow> classify a c)"
  by (simp add: inspected_def job_class_def)

lemma tracked_frame:
  "app_type (tracked now j c) = app_type c" "conn_sni (tracked now j c) = conn_sni c"
  "conn_state (tracked now j c) = CLASSIFIED \<Longrightarrow> conn_state c = CLASSIFIED"
  "conn_state (tracked now j c) = BLOCKED \<Longrightarrow> conn_state c = BLOCKED"
  by (auto simp: tracked_def touch_def Let_def updateTCPState_state split: if_splits)

text \<open>As long as nothing has classified the flow as something harmless, what is condemned does not pass.
  \<open>P\<close> is what the rules of every step object to, which may be others at another step.\<close>

definition unexcused :: "(AppType \<times> string \<Rightarrow> bool) \<Rightarrow> connection \<Rightarrow> bool" where
  "unexcused P c \<longleftrightarrow> (conn_state c = CLASSIFIED \<longrightarrow> P (app_type c, conn_sni c))"

lemma pass_unexcused:
  assumes "flow_step rules now j c = (c', FORWARD)" and "\<forall>a. P a \<longrightarrow> objects rules (job_tuple j) a"
    and "\<not> told (\<lambda>a. \<not> P a) j" and "unexcused P c"
  shows "\<not> told P j \<and> unexcused P c'"
  using assms tracked_frame [of now j c]
  by (auto simp: flow_step_def Let_def inspected_job_class rule_hit_objects unexcused_def told_def
      classify_def split: if_splits option.splits)

lemma refuse_unexcused:
  assumes "flow_step rules now j c = (c', DROP)"
  shows "unexcused P c'"
  using flow_step_action(1) [OF assms] by (auto simp: unexcused_def split: if_splits)

text \<open>\<open>pre\<close> is a part of the flow without an excuse.\<close>

definition held_back :: "(AppType \<times> string \<Rightarrow> bool) \<Rightarrow> packet_job list \<Rightarrow> packet_job list \<Rightarrow> flow_view \<Rightarrow> bool" where
  "held_back P pre post v \<longleftrightarrow>
     (\<exists>js. fl_pending v = js @ post \<and> (\<forall>j \<in> set js. \<not> told (\<lambda>a. \<not> P a) j) \<and>
        subseq (fl_passed v @ filter (\<lambda>j. \<not> told P j) js) (filter (\<lambda>j. \<not> told P j) pre) \<and>
        (\<forall>c. fl_entry v = Some c \<longrightarrow> unexcused P c)) \<or>
     subseq (fl_passed v @ fl_pending v) (filter (\<lambda>j. \<not> told P j) pre @ post)"

lemma entry_unexcused: "(\<And>c. e = Some c \<Longrightarrow> unexcused P c) \<Longrightarrow> unexcused P (entry_or_new k t e)"
  by (cases e) (simp_all add: entry_or_new_def unexcused_def new_connection_def)

lemma held_back_move:
  assumes "flow_move rules k v v'" and "\<forall>a. P a \<longrightarrow> objects rules k a" and "held_back P pre post v"
  shows "held_back P pre post v'"
proof -
  let ?keep = "filter (\<lambda>j. \<not> told P j)"
  consider (before) js where "fl_pending v = js @ post" "\<forall>j \<in> set js. \<not> told (\<lambda>a. \<not> P a) j"
      "subseq (fl_passed v @ ?keep js) (?keep pre)" "\<forall>c. fl_entry v = Some c \<longrightarrow> unexcused P c"
    | (after) "subseq (fl_passed v @ fl_pending v) (?keep pre @ post)"
    using assms(3) unfolding held_back_def by blast
  then show ?thesis
  proof cases
    case after
    from assms(1) have "subseq (fl_passed v' @ fl_pending v') (fl_passed v @ fl_pending v)"
      by cases (use subseq_remove in simp_all)
    then show ?thesis unfolding held_back_def using after subseq_order.trans by blast
  next
    case before
    show ?thesis
    proof (cases js)
      case Nil
      have "subseq (fl_passed v @ post) (?keep pre @ post)"
        using before(3) Nil by (intro list_emb_append_mono) simp_all
      then have a: "subseq (fl_passed v @ fl_pending v) (?keep pre @ post)" using before(1) Nil by simp
      from assms(1) have "subseq (fl_passed v' @ fl_pending v') (fl_passed v @ fl_pending v)"
        by cases (use subseq_remove in simp_all)
      then show ?thesis unfolding held_back_def using a subseq_order.trans by blast
    next
      case (Cons j js')
      from assms(1) show ?thesis
      proof cases
        case Forget
        then show ?thesis using before unfolding held_back_def by (intro disjI1 exI [of _ js]) simp
      next
        case (Pass j' rs t2 t1 c)
        have j: "j' = j" "rs = js' @ post" using Pass(2) before(1) Cons by simp_all
        have "unexcused P (entry_or_new k t1 (fl_entry v))" using before(4) by (intro entry_unexcused) blast
        then have "\<not> told P j \<and> unexcused P c"
          using pass_unexcused [OF Pass(4), of P] assms(2) before(2) Cons j(1) Pass(3) by simp
        then show ?thesis
          using before Cons unfolding held_back_def Pass(1) by (intro disjI1 exI [of _ js']) (simp add: j)
      next
        case (Refuse j' rs t2 t1 c)
        have j: "j' = j" "rs = js' @ post" using Refuse(2) before(1) Cons by simp_all
        have u: "unexcused P c" using refuse_unexcused [OF Refuse(4)] by simp
        have "subseq (?keep js') (?keep js)"
          using subseq_remove [of "[]" "?keep js'" j] by (cases "told P j") (simp_all add: Cons)
        then have "subseq (fl_passed v @ ?keep js') (fl_passed v @ ?keep js)" by (intro list_emb_append_mono) simp_all
        then have "subseq (fl_passed v @ ?keep js') (?keep pre)" using before(3) subseq_order.trans by blast
        then show ?thesis
          using before(2) Cons u unfolding held_back_def Refuse(1) by (intro disjI1 exI [of _ js']) (simp add: j)
      qed
    qed
  qed
qed

lemma held_back_start: "\<forall>j \<in> set pre. \<not> told (\<lambda>a. \<not> P a) j \<Longrightarrow> held_back P pre post (fresh_flow (pre @ post))"
  by (simp add: held_back_def fresh_flow_def)

text \<open>A run whose steps are each under some rules of \<open>R\<close>.\<close>

abbreviation flow_runs :: "rule_manager option set \<Rightarrow> five_tuple \<Rightarrow> flow_view \<Rightarrow> flow_view \<Rightarrow> bool" where
  "flow_runs R k \<equiv> rtranclp (\<lambda>v v'. \<exists>rules \<in> R. flow_move rules k v v')"

lemma held_back_runs:
  "flow_runs R k v v' \<Longrightarrow> \<forall>rules \<in> R. \<forall>a. P a \<longrightarrow> objects rules k a \<Longrightarrow> held_back P pre post v \<Longrightarrow>
   held_back P pre post v'"
proof (induction rule: rtranclp_induct)
  case (step v' v'')
  then show ?case by (blast intro: held_back_move)
qed

lemma held_back_passed:
  assumes "held_back P pre post v"
  shows "subseq (fl_passed v) (filter (\<lambda>j. \<not> told P j) pre @ post)"
proof -
  have app: "subseq xs (xs @ ys)" for xs ys :: "packet_job list" by (simp add: prefix_imp_subseq)
  show ?thesis
    using assms unfolding held_back_def by (meson app subseq_order.trans)
qed

text \<open>A flow no rules have anything against, whatever its packets say, passes as it is. \<open>N\<close> is what the
  rules of some step object to.\<close>

definition harmless :: "(AppType \<times> string \<Rightarrow> bool) \<Rightarrow> flow_view \<Rightarrow> bool" where
  "harmless N v \<longleftrightarrow>
     fl_refused v = [] \<and> (\<forall>j \<in> set (fl_pending v). \<not> told N j) \<and>
     (\<forall>c. fl_entry v = Some c \<longrightarrow> conn_state c \<noteq> BLOCKED \<and> \<not> N (app_type c, conn_sni c))"

lemma harmless_step:
  assumes "flow_step rules now j c = (c', a)" and "\<forall>a. objects rules (job_tuple j) a \<longrightarrow> N a" and "\<not> told N j"
    and "conn_state c \<noteq> BLOCKED" and "\<not> N (app_type c, conn_sni c)"
  shows "a = FORWARD \<and> conn_state c' \<noteq> BLOCKED \<and> \<not> N (app_type c', conn_sni c')"
  using assms tracked_frame [of now j c]
  by (auto simp: flow_step_def Let_def inspected_job_class rule_hit_objects told_def
      classify_def split: if_splits option.splits)

lemma harmless_move:
  assumes "flow_move rules k v v'" and "\<forall>a. objects rules k a \<longrightarrow> N a" and "\<not> N (UNKNOWN, [])" and "harmless N v"
  shows "harmless N v'"
proof -
  have e: "conn_state (entry_or_new k t (fl_entry v)) \<noteq> BLOCKED \<and>
      \<not> N (app_type (entry_or_new k t (fl_entry v)), conn_sni (entry_or_new k t (fl_entry v)))" for t
    using assms(3,4) by (auto simp: harmless_def entry_or_new_def new_connection_def split: option.split)
  from assms(1) show ?thesis
  proof cases
    case (Pass j js t2 t1 c)
    then show ?thesis using harmless_step [OF Pass(4), of N] e [of t1] assms(2,4) by (auto simp: harmless_def)
  next
    case (Refuse j js t2 t1 c)
    then show ?thesis using harmless_step [OF Refuse(4), of N] e [of t1] assms(2,4) by (auto simp: harmless_def)
  qed (use assms(4) in \<open>simp add: harmless_def\<close>)
qed

lemma harmless_runs:
  "flow_runs R k v v' \<Longrightarrow> \<forall>rules \<in> R. \<forall>a. objects rules k a \<longrightarrow> N a \<Longrightarrow> \<not> N (UNKNOWN, []) \<Longrightarrow> harmless N v \<Longrightarrow>
   harmless N v'"
proof (induction rule: rtranclp_induct)
  case (step v' v'')
  then show ?case by (blast intro: harmless_move)
qed

lemma harmless_start:
  "\<forall>j \<in> set js. \<not> told N j \<Longrightarrow> harmless N (fresh_flow js)"
  by (simp add: harmless_def fresh_flow_def)

section \<open>Properties\<close>

lemma view_fields [simp]:
  "fl_passed (view_of l f k s) = of_flow k (written s @ queue (outq s) @ opt_list (holding s ! route l f k))"
  "fl_refused (view_of l f k s) = of_flow k (dropped s)"
  "fl_entry (view_of l f k s) = conn_at (conn_tracker (workers s ! route l f k)) k"
  by (simp_all add: view_of_def Let_def)

lemma done_view:
  assumes "sound_state l f s" and "in_flight s = []"
  shows "fl_pending (view_of l f k s) = []" and "fl_passed (view_of l f k s) = of_flow k (written s)"
proof -
  have t: "length (lbs (tier s)) = l" "length (workers s) = l * f" "0 < l" "0 < f"
    using assms(1) by (auto simp: sound_state_def topology_def)
  have w: "route l f k < length (workers s)" "route l f k div f < length (lbs (tier s))"
    using route_bound route_div_bound t by simp_all
  have "worker_jobs s (route l f k) = []" "lb_jobs (lbs (tier s) ! (route l f k div f)) = []"
    using assms(2) w nth_mem [OF w(2)] by (auto simp: in_flight_def)
  then show "fl_pending (view_of l f k s) = []" "fl_passed (view_of l f k s) = of_flow k (written s)"
    using assms(2) by (auto simp: view_of_def Let_def worker_jobs_def in_flight_def)
qed

lemma held_written:
  assumes "0 < l" and "0 < f" and "f < 2 ^ 31" and "\<forall>job \<in> set jobs. job_ok job"
    and "reachable rules (start_system l f jobs) s"
    and "of_flow k jobs = pre @ post" and "\<forall>j \<in> set pre. \<not> excused rules j"
  shows "subseq (of_flow k (written s)) (filter (\<lambda>j. \<not> condemned rules j) pre @ post)"
proof -
  have pre: "set pre \<subseteq> set (of_flow k jobs)" using assms(6) by simp
  then have "\<forall>j \<in> set pre. \<not> told (\<lambda>a. \<not> objects rules k a) j" using assms(7) told_in_flow(2) by blast
  then have "held_back (objects rules k) pre post (fresh_flow (of_flow k jobs))"
    unfolding assms(6) by (rule held_back_start)
  then have "held_back (objects rules k) pre post (view_of l f k s)"
    using held_back_runs [of "{rules}" k] run_of_flow [OF assms(1-5), of k] by simp
  then have "subseq (fl_passed (view_of l f k s)) (filter (\<lambda>j. \<not> told (objects rules k) j) pre @ post)"
    by (rule held_back_passed)
  moreover have "filter (\<lambda>j. \<not> told (objects rules k) j) pre = filter (\<lambda>j. \<not> condemned rules j) pre"
    using pre told_in_flow(1) by (intro filter_cong) blast+
  moreover have "subseq (of_flow k (written s)) (fl_passed (view_of l f k s))"
    by (simp add: prefix_imp_subseq)
  ultimately show ?thesis using subseq_order.trans by metis
qed

text \<open>Nothing of a harmless flow is dropped, so once nothing is under way all of it is written.\<close>

lemma flow_complete:
  assumes "lane_ok l f jobs (lanes_of s)" and "in_flight s = []" and "of_flow k (dropped s) = []"
  shows "of_flow k (written s) = of_flow k jobs"
proof -
  have "lane l f k (lanes_of s) = of_flow k (written s)"
    using assms(2) by (auto simp: lane_def lanes_of_def in_flight_def)
  then have "subseq (of_flow k (written s)) (of_flow k jobs)" "mset (of_flow k (written s)) = mset (of_flow k jobs)"
    using assms(1,3) by (auto simp: lane_ok_def lanes_of_def dest!: spec [of _ k])
  then show ?thesis by (metis subseq_same_length size_mset)
qed

lemma untouched:
  assumes "0 < l" and "0 < f" and "f < 2 ^ 31" and "\<forall>job \<in> set jobs. job_ok job"
    and "reachable rules (start_system l f jobs) s"
    and "\<not> objects rules k (UNKNOWN, [])" and "\<forall>j \<in> set (of_flow k jobs). \<not> condemned rules j"
  shows "of_flow k (dropped s) = []" and "in_flight s = [] \<Longrightarrow> of_flow k (written s) = of_flow k jobs"
proof -
  have "harmless (objects rules k) (fresh_flow (of_flow k jobs))"
    using assms(7) told_in_flow(1) by (intro harmless_start) blast
  then have "harmless (objects rules k) (view_of l f k s)"
    using harmless_runs [of "{rules}" k] run_of_flow [OF assms(1-5), of k] assms(6) by simp
  then show d: "of_flow k (dropped s) = []" by (simp add: harmless_def)
  show "of_flow k (written s) = of_flow k jobs" if "in_flight s = []"
    using flow_complete [OF from_start(2) [OF assms(1-5)] that d] .
qed

text \<open>C7: the threads implement a sequential filter for each flow. Whatever the interleaving, what
  happens to a flow is a run of the machine that takes the flow's packets one by one in the
  order of the capture and decides each by \<open>flow_step\<close>: what it has passed on is what is written, queued
  or in the worker's hand, in this order, what it has refused is what was dropped, and its entry
  is the one in the worker's table. When nothing is under way it has decided all packets.\<close>

theorem pipeline_refines_flows:
  assumes "0 < l" and "0 < f" and "f < 2 ^ 31" and "\<forall>job \<in> set jobs. job_ok job"
    and "reachable rules (start_system l f jobs) s"
  shows "\<exists>v. rtranclp (flow_move rules k) (fresh_flow (of_flow k jobs)) v \<and>
    fl_passed v = of_flow k (written s @ queue (outq s) @ opt_list (holding s ! route l f k)) \<and>
    fl_refused v = of_flow k (dropped s) \<and>
    fl_entry v = conn_at (conn_tracker (workers s ! route l f k)) k \<and>
    (in_flight s = [] \<longrightarrow> fl_pending v = [] \<and> fl_passed v = of_flow k (written s))"
  using run_of_flow [OF assms, of k] done_view [OF from_start(1) [OF assms]]
  by (intro exI [of _ "view_of l f k s"]) simp

theorem pipeline_refines_flows_witness:
  "\<exists>v. rtranclp (flow_move None (flow 1)) (fresh_flow [job_of (flow 1) SYN []]) v \<and> fl_pending v = [] \<and>
     fl_passed v @ fl_refused v = [job_of (flow 1) SYN []]"
proof -
  let ?jobs = "[job_of (flow 1) SYN []]"
  have ok: "\<forall>job \<in> set ?jobs. job_ok job" using job_of_ok by simp
  then have "sound_state 2 2 (start_system 2 2 ?jobs)" by (intro start_sound) auto
  then obtain s where s: "reachable None (start_system 2 2 ?jobs) s" "in_flight s = []"
    using drain [of 2 2 "start_system 2 2 ?jobs"] by auto
  have "mset (written s @ dropped s) = {#job_of (flow 1) SYN []#}" using conservation [OF _ _ _ ok s(1)] s(2) by simp
  then have "written s @ dropped s = [job_of (flow 1) SYN []]" using mset_single_iff by metis
  then have "of_flow (flow 1) (written s @ dropped s) = [job_of (flow 1) SYN []]" by simp
  then show ?thesis
    using pipeline_refines_flows [OF _ _ _ ok s(1), of "flow 1"] s(2) by auto
qed

text \<open>What names a blocked site does not get out. Split the packets of a flow anywhere. If no
  packet of the first part says of the flow something the rules allow (for a flow to port 80
  or 443 any packet with a payload says something), every packet of it that says something the
  rules block (a ClientHello or a request for a blocked domain or application) is kept back:
  what is written of the flow is made of the first part without these, and of the second part.\<close>

theorem condemned_packets_held_back:
  assumes "0 < l" and "0 < f" and "f < 2 ^ 31" and "\<forall>job \<in> set jobs. job_ok job"
    and "reachable rules (start_system l f jobs) s"
    and "of_flow k jobs = pre @ post" and "\<forall>j \<in> set pre. \<not> excused rules j"
  shows "subseq (of_flow k (written s)) (filter (\<lambda>j. \<not> condemned rules j) pre @ post)"
  by (rule held_written [OF assms])

text \<open>A handshake and a ClientHello for a blocked domain.\<close>

abbreviation hello_job :: packet_job where
  "hello_job \<equiv> job_of (flow 1) PSH (hello_bytes sample_hello)"

lemma hello_found:
  "sni_extract (hello_bytes sample_hello) 0 (length (hello_bytes sample_hello)) = Inr (Some ''a.org'')"
proof -
  have "hello_ok sample_hello"
    by (simp add: hello_ok_def sample_hello_def hello_body_def all_extensions_def sni_data_def EXTENSION_SNI_def)
  then show ?thesis using sni_extract_hello [of sample_hello _ "[]"] by (simp add: sample_hello_def)
qed

lemma hello_class: "payload_class (flow 1) (hello_bytes sample_hello) = Some (sniToAppType ''a.org'', ''a.org'')"
  using hello_found by (simp add: payload_class_def tls_name_def found_def flow_def)

lemma hello_condemned: "condemned (Some (blockDomain ''a.org'' empty_rules)) hello_job"
proof -
  have "0 < length (hello_bytes sample_hello)" by (simp add: hello_bytes_def)
  then show ?thesis
    by (simp add: condemned_def job_class_def hello_class objects_def shouldBlock_def isIPBlocked_def isPortBlocked_def
        isAppBlocked_def isDomainBlocked_def blockDomain_def empty_rules_def del: One_nat_def)
qed

theorem condemned_packets_held_back_witness:
  "\<exists>s. reachable (Some (blockDomain ''a.org'' empty_rules)) (start_system 2 2 [job_of (flow 1) SYN [], hello_job]) s \<and>
     in_flight s = [] \<and> subseq (of_flow (flow 1) (written s)) [job_of (flow 1) SYN []]"
proof -
  let ?jobs = "[job_of (flow 1) SYN [], hello_job]" and ?rules = "Some (blockDomain ''a.org'' empty_rules)"
  have ok: "\<forall>job \<in> set ?jobs. job_ok job" using job_of_ok by simp
  then have "sound_state 2 2 (start_system 2 2 ?jobs)" by (intro start_sound) auto
  then obtain s where s: "reachable ?rules (start_system 2 2 ?jobs) s" "in_flight s = []"
    using drain [of 2 2 "start_system 2 2 ?jobs"] by auto
  have c: "\<not> condemned ?rules (job_of (flow 1) SYN [])" "\<not> excused ?rules (job_of (flow 1) SYN [])" "\<not> excused ?rules hello_job"
    using hello_condemned by (auto simp: condemned_def excused_def job_class_def split: option.splits)
  then show ?thesis
    using condemned_packets_held_back [OF _ _ _ ok s(1), of "flow 1" ?jobs "[]"] hello_condemned s by auto
qed

text \<open>C9: no collateral damage. A flow whose address and port are not blocked and whose packets say
  nothing the rules block loses no packet, whatever else goes on, however the threads interleave
  and whenever its entry is evicted or cleaned up: none is dropped, and when nothing is under
  way all are written, in their order.\<close>

theorem harmless_flow_untouched:
  assumes "0 < l" and "0 < f" and "f < 2 ^ 31" and "\<forall>job \<in> set jobs. job_ok job"
    and "reachable rules (start_system l f jobs) s"
    and "\<not> objects rules k (UNKNOWN, [])" and "\<forall>j \<in> set (of_flow k jobs). \<not> condemned rules j"
  shows "of_flow k (dropped s) = [] \<and> (in_flight s = [] \<longrightarrow> of_flow k (written s) = of_flow k jobs)"
  using untouched [OF assms] by blast

theorem harmless_flow_untouched_witness:
  "\<exists>s. reachable (Some (blockDomain ''b.org'' empty_rules)) (start_system 2 2 [job_of (flow 1) SYN [], hello_job]) s \<and>
     of_flow (flow 1) (written s) = [job_of (flow 1) SYN [], hello_job]"
proof -
  let ?jobs = "[job_of (flow 1) SYN [], hello_job]" and ?rules = "Some (blockDomain ''b.org'' empty_rules)"
  have ok: "\<forall>job \<in> set ?jobs. job_ok job" using job_of_ok by simp
  then have "sound_state 2 2 (start_system 2 2 ?jobs)" by (intro start_sound) auto
  then obtain s where s: "reachable ?rules (start_system 2 2 ?jobs) s" "in_flight s = []"
    using drain [of 2 2 "start_system 2 2 ?jobs"] by auto
  have o: "\<not> objects ?rules (flow 1) a" if "snd a = [] \<or> snd a = ''a.org''" for a
    using that by (auto simp: objects_def shouldBlock_def isIPBlocked_def isPortBlocked_def isAppBlocked_def
        isDomainBlocked_def blockDomain_def empty_rules_def)
  have c: "\<not> condemned ?rules (job_of (flow 1) SYN [])" "\<not> condemned ?rules hello_job"
    using o by (simp_all add: condemned_def job_class_def hello_class del: One_nat_def)
  show ?thesis
    using harmless_flow_untouched [OF _ _ _ ok s(1), of "flow 1"] o c s by auto
qed

end
