(* ===== verification/Main_Program.thy ===== *)
theory Main_Program
  imports Dpi_Engine
begin

text \<open>
  \<open>src/main.cpp\<close>: the command line and how \<open>main\<close> sets the engine up with it. What it prints is
  in \<open>Reports\<close>, and \<open>processFile\<close>, which \<open>main\<close> calls last, is the subject of \<open>Process_File\<close>.
\<close>

record options =
  opt_cfg :: config
  opt_ips :: "string list"
  opt_apps :: "string list"
  opt_domains :: "string list"

definition no_options :: options where
  "no_options = \<lparr>opt_cfg = default_config, opt_ips = [], opt_apps = [], opt_domains = []\<rparr>"

text \<open>The loop over \<open>argv[3..]\<close>. An option without a value and an unknown argument are skipped.\<close>

fun arg_loop :: "string list \<Rightarrow> options \<Rightarrow> options res" where
  "arg_loop [] opts = Inr opts"
| "arg_loop [arg] opts = Inr opts"
| "arg_loop (arg # val # args) opts =
     (if arg = ''--block-ip'' then arg_loop args (opts\<lparr>opt_ips := opt_ips opts @ [val]\<rparr>)
      else if arg = ''--block-app'' then arg_loop args (opts\<lparr>opt_apps := opt_apps opts @ [val]\<rparr>)
      else if arg = ''--block-domain'' then arg_loop args (opts\<lparr>opt_domains := opt_domains opts @ [val]\<rparr>)
      else if arg = ''--lbs'' then
        andThen (stoi val) (\<lambda>n. arg_loop args (opts\<lparr>opt_cfg := (opt_cfg opts)\<lparr>num_load_balancers := n\<rparr>\<rparr>))
      else if arg = ''--fps'' then
        andThen (stoi val) (\<lambda>n. arg_loop args (opts\<lparr>opt_cfg := (opt_cfg opts)\<lparr>cfg_fps_per_lb := n\<rparr>\<rparr>))
      else arg_loop (val # args) opts)"

fun block_ips :: "string list \<Rightarrow> engine \<Rightarrow> engine res" where
  "block_ips [] e = Inr e"
| "block_ips (ip # ips) e = andThen (engine_blockIP ip e) (block_ips ips)"

text \<open>
  From \<open>argv\<close> to the engine that \<open>processFile\<close> is called on; \<open>None\<close> when \<open>main\<close> prints its usage
  and returns 1. (The constructor prints the product \<open>initialize\<close> computes; where one
  overflows, so does the other.)
\<close>

definition main_setup :: "(string \<Rightarrow> string option) \<Rightarrow> string list \<Rightarrow> (string \<times> string \<times> engine) option res" where
  "main_setup rule_files argv =
     (if length argv < 3 then Inr None
      else
        andThen (arg_loop (drop 3 argv) no_options) (\<lambda>opts.
        andThen (initialize rule_files (new_engine (opt_cfg opts))) (\<lambda>(ok, e).
        andThen (block_ips (opt_ips opts) e) (\<lambda>e.
        let e = fold engine_blockApp_name (opt_apps opts) e;
            e = fold engine_blockDomain (opt_domains opts) e
        in Inr (Some (argv ! 1, argv ! 2, e))))))"

section \<open>Options as text\<close>

datatype cli_option =
    Block_ip u32
  | Block_app AppType
  | Block_domain string
  | Lbs nat
  | Fps nat

fun render :: "cli_option \<Rightarrow> string list" where
  "render (Block_ip ip) = [''--block-ip'', rm_ipToString ip]"
| "render (Block_app app) = [''--block-app'', appTypeToString app]"
| "render (Block_domain d) = [''--block-domain'', d]"
| "render (Lbs n) = [''--lbs'', dec n]"
| "render (Fps n) = [''--fps'', dec n]"

fun fits_option :: "cli_option \<Rightarrow> bool" where
  "fits_option (Block_app app) = (app \<noteq> APP_COUNT)"
| "fits_option (Lbs n) = (n \<le> 2147483647)"
| "fits_option (Fps n) = (n \<le> 2147483647)"
| "fits_option _ = True"

fun apply_option :: "cli_option \<Rightarrow> options \<Rightarrow> options" where
  "apply_option (Block_ip ip) opts = opts\<lparr>opt_ips := opt_ips opts @ [rm_ipToString ip]\<rparr>"
| "apply_option (Block_app app) opts = opts\<lparr>opt_apps := opt_apps opts @ [appTypeToString app]\<rparr>"
| "apply_option (Block_domain d) opts = opts\<lparr>opt_domains := opt_domains opts @ [d]\<rparr>"
| "apply_option (Lbs n) opts = opts\<lparr>opt_cfg := (opt_cfg opts)\<lparr>num_load_balancers := int n\<rparr>\<rparr>"
| "apply_option (Fps n) opts = opts\<lparr>opt_cfg := (opt_cfg opts)\<lparr>cfg_fps_per_lb := int n\<rparr>\<rparr>"

lemma arg_loop_render:
  "\<forall>c \<in> set cs. fits_option c \<Longrightarrow> arg_loop (concat (map render cs)) opts = Inr (fold apply_option cs opts)"
proof (induction cs arbitrary: opts)
  case (Cons c cs)
  then show ?case by (cases c) (simp_all add: stoi_dec)
qed simp

text \<open>What a list of options asks for.\<close>

definition asked_ips :: "cli_option list \<Rightarrow> u32 list" where
  "asked_ips cs = concat (map (\<lambda>c. case c of Block_ip ip \<Rightarrow> [ip] | _ \<Rightarrow> []) cs)"

definition asked_apps :: "cli_option list \<Rightarrow> AppType list" where
  "asked_apps cs = concat (map (\<lambda>c. case c of Block_app app \<Rightarrow> [app] | _ \<Rightarrow> []) cs)"

definition asked_domains :: "cli_option list \<Rightarrow> string list" where
  "asked_domains cs = concat (map (\<lambda>c. case c of Block_domain d \<Rightarrow> [d] | _ \<Rightarrow> []) cs)"

definition asked_lbs :: "cli_option list \<Rightarrow> nat" where
  "asked_lbs cs = fold (\<lambda>c n. case c of Lbs m \<Rightarrow> m | _ \<Rightarrow> n) cs 2"

definition asked_fps :: "cli_option list \<Rightarrow> nat" where
  "asked_fps cs = fold (\<lambda>c n. case c of Fps m \<Rightarrow> m | _ \<Rightarrow> n) cs 2"

lemmas asked_defs = asked_ips_def asked_apps_def asked_domains_def

lemma fold_apply:
  "opt_ips (fold apply_option cs opts) = opt_ips opts @ map rm_ipToString (asked_ips cs)"
  "opt_apps (fold apply_option cs opts) = opt_apps opts @ map appTypeToString (asked_apps cs)"
  "opt_domains (fold apply_option cs opts) = opt_domains opts @ asked_domains cs"
proof (induction cs arbitrary: opts)
  case (Cons c cs)
  { case 1 show ?case using Cons(1) by (cases c) (simp_all add: asked_defs) }
  { case 2 show ?case using Cons(2) by (cases c) (simp_all add: asked_defs) }
  { case 3 show ?case using Cons(3) by (cases c) (simp_all add: asked_defs) }
qed (simp_all add: asked_defs)

lemma fold_apply_cfg:
  "num_load_balancers (opt_cfg opts) = int l \<Longrightarrow> cfg_fps_per_lb (opt_cfg opts) = int f \<Longrightarrow>
   opt_cfg (fold apply_option cs opts) =
     (opt_cfg opts)\<lparr>num_load_balancers := int (fold (\<lambda>c n. case c of Lbs m \<Rightarrow> m | _ \<Rightarrow> n) cs l),
       cfg_fps_per_lb := int (fold (\<lambda>c n. case c of Fps m \<Rightarrow> m | _ \<Rightarrow> n) cs f)\<rparr>"
proof (induction cs arbitrary: opts l f)
  case (Cons c cs)
  then show ?case by (cases c) simp_all
qed simp

section \<open>The engine that \<open>main\<close> sets up\<close>

lemma block_ips_eq:
  "rule_mgr e = Some rm \<Longrightarrow>
   block_ips (map rm_ipToString ips) e = Inr (e\<lparr>rule_mgr := Some (fold blockIP ips rm)\<rparr>)"
proof (induction ips arbitrary: e rm)
  case (Cons ip ips)
  have "engine_blockIP (rm_ipToString ip) e = Inr (e\<lparr>rule_mgr := Some (blockIP ip rm)\<rparr>)"
    using Cons.prems
    by (simp add: engine_blockIP_def with_rules_res_def blockIP_str_def parseIP_ipToString)
  then show ?case using Cons.IH [of "e\<lparr>rule_mgr := Some (blockIP ip rm)\<rparr>"] by simp
qed simp

lemma block_apps_eq:
  "rule_mgr e = Some rm \<Longrightarrow> APP_COUNT \<notin> set apps \<Longrightarrow>
   fold engine_blockApp_name (map appTypeToString apps) e = e\<lparr>rule_mgr := Some (fold blockApp apps rm)\<rparr>"
proof (induction apps arbitrary: e rm)
  case (Cons app apps)
  have "find_app (appTypeToString app) = Some app" using Cons.prems(2) by (intro find_app_name) auto
  then have "engine_blockApp_name (appTypeToString app) e = e\<lparr>rule_mgr := Some (blockApp app rm)\<rparr>"
    using Cons.prems by (simp add: engine_blockApp_name_def engine_blockApp_def with_rules_def)
  then show ?case using Cons.IH [of "e\<lparr>rule_mgr := Some (blockApp app rm)\<rparr>"] Cons.prems(2) by simp
qed simp

lemma block_domains_eq:
  "rule_mgr e = Some rm \<Longrightarrow> fold engine_blockDomain ds e = e\<lparr>rule_mgr := Some (fold blockDomain ds rm)\<rparr>"
proof (induction ds arbitrary: e rm)
  case (Cons d ds)
  have "engine_blockDomain d e = e\<lparr>rule_mgr := Some (blockDomain d rm)\<rparr>"
    using Cons.prems by (simp add: engine_blockDomain_def with_rules_def)
  then show ?case using Cons.IH [of "e\<lparr>rule_mgr := Some (blockDomain d rm)\<rparr>"] by simp
qed simp

lemma fold_blockDomain_split:
  "fold blockDomain ds rm =
     rm\<lparr>blocked_domains := fold List.insert (filter (\<lambda>d. CHR ''*'' \<notin> set d) ds) (blocked_domains rm),
        domain_patterns := domain_patterns rm @ filter (\<lambda>d. CHR ''*'' \<in> set d) ds\<rparr>"
  by (induction ds arbitrary: rm) (simp_all add: blockDomain_def)

lemma register_all_returns: "\<forall>i \<in> set is. 0 \<le> i \<Longrightarrow> \<exists>tab'. register_all is tab = Inr tab'"
  by (induction "is" arbitrary: tab) (simp_all add: registerTracker_def)

lemma length_new_fps [simp]: "length (new_fps n) = nat n"
  by (simp add: new_fps_def)

lemma initialize_default:
  assumes "rules_file (cfg e) = []" and "num_load_balancers (cfg e) = int l" and "cfg_fps_per_lb (cfg e) = int f"
    and "l * f \<le> 2147483647"
  shows "\<exists>tab. initialize rule_files e =
    Inr (True, e\<lparr>rule_mgr := Some empty_rules, fps := new_fps (int (l * f)),
      lb_mgr := Some (new_lb_manager (int l) (int f) [0..<l * f]), conn_table := tab\<rparr>)"
proof -
  have lf: "int l * int f = int (l * f)" by simp
  have "int (l * f) \<le> 2147483647" using assms(4) by linarith
  then have m: "int_mult (int l) (int f) = Inr (int (l * f))"
    by (simp add: int_mult_def lf del: of_nat_mult)
  obtain tab where "register_all [0..int (l * f) - 1] (new_table (nat (int (l * f)))) = Inr tab"
    using register_all_returns [of "[0..int (l * f) - 1]"] by auto
  then show ?thesis
    using assms(1-3) m unfolding initialize_def
    by (intro exI [of _ tab]) (simp add: Let_def del: of_nat_mult)
qed

text \<open>
  An engine that is set up for its first file, with \<open>l\<close> load balancers and \<open>f\<close> workers for each
  and the rules \<open>rm\<close>.
\<close>

definition ready :: "nat \<Rightarrow> nat \<Rightarrow> rule_manager \<Rightarrow> engine \<Rightarrow> bool" where
  "ready l f rm e \<longleftrightarrow>
     rule_mgr e = Some rm \<and> fps e = new_fps (int (l * f)) \<and>
     lb_mgr e = Some (new_lb_manager (int l) (int f) [0..<l * f]) \<and>
     output_queue e = new_queue 10000 \<and> stats e = initial_stats \<and> \<not> running e"

definition asked_rules :: "cli_option list \<Rightarrow> rule_manager" where
  "asked_rules cs =
     fold blockDomain (asked_domains cs) (fold blockApp (asked_apps cs) (fold blockIP (asked_ips cs) empty_rules))"

lemma asked_rules_sets:
  "set (blocked_ips (asked_rules cs)) = set (asked_ips cs)"
  "set (blocked_apps (asked_rules cs)) = set (asked_apps cs)" "blocked_ports (asked_rules cs) = []"
  "set (blocked_domains (asked_rules cs)) = {d \<in> set (asked_domains cs). CHR ''*'' \<notin> set d}"
  "domain_patterns (asked_rules cs) = filter (\<lambda>d. CHR ''*'' \<in> set d) (asked_domains cs)"
  by (simp_all add: asked_rules_def fold_blockIP fold_blockApp fold_blockDomain_split set_fold_insert empty_rules_def)

lemma main_setup_ready:
  assumes "\<forall>c \<in> set cs. fits_option c" and "asked_lbs cs * asked_fps cs \<le> 2147483647"
  shows "\<exists>e. main_setup rule_files ([prog, inp, outp] @ concat (map render cs)) = Inr (Some (inp, outp, e)) \<and>
    ready (asked_lbs cs) (asked_fps cs) (asked_rules cs) e"
proof -
  let ?o = "fold apply_option cs no_options"
  have cfg: "opt_cfg ?o = default_config\<lparr>num_load_balancers := int (asked_lbs cs), cfg_fps_per_lb := int (asked_fps cs)\<rparr>"
    using fold_apply_cfg [of no_options 2 2 cs]
    by (simp add: no_options_def default_config_def asked_lbs_def asked_fps_def)
  let ?e = "\<lambda>tab. (new_engine (opt_cfg ?o))\<lparr>rule_mgr := Some empty_rules,
        fps := new_fps (int (asked_lbs cs * asked_fps cs)),
        lb_mgr := Some (new_lb_manager (int (asked_lbs cs)) (int (asked_fps cs)) [0..<asked_lbs cs * asked_fps cs]),
        conn_table := tab\<rparr>"
  obtain tab where i: "initialize rule_files (new_engine (opt_cfg ?o)) = Inr (True, ?e tab)"
    using initialize_default [of "new_engine (opt_cfg ?o)" "asked_lbs cs" "asked_fps cs" rule_files] assms(2)
    by (auto simp: cfg new_engine_def default_config_def simp del: of_nat_mult)
  have apps: "APP_COUNT \<notin> set (asked_apps cs)"
    using assms(1) by (auto simp: asked_apps_def split: cli_option.splits)
  have o: "opt_ips ?o = map rm_ipToString (asked_ips cs)" "opt_apps ?o = map appTypeToString (asked_apps cs)"
    "opt_domains ?o = asked_domains cs"
    by (simp_all add: fold_apply no_options_def)
  have "main_setup rule_files ([prog, inp, outp] @ concat (map render cs)) =
      Inr (Some (inp, outp, (?e tab)\<lparr>rule_mgr := Some (asked_rules cs)\<rparr>))"
    using apps by (simp add: main_setup_def arg_loop_render [OF assms(1)] i o block_ips_eq block_apps_eq
        block_domains_eq asked_rules_def Let_def)
  moreover have "ready (asked_lbs cs) (asked_fps cs) (asked_rules cs) ((?e tab)\<lparr>rule_mgr := Some (asked_rules cs)\<rparr>)"
    by (simp add: ready_def new_engine_def)
  ultimately show ?thesis by blast
qed

text \<open>What the command line says is what the engine does. For every list of options with numbers
  that fit, written as the usage text says, \<open>main\<close> reaches \<open>processFile\<close> with the two file
  names and an engine that blocks exactly the addresses, applications and domains asked for,
  and has the workers and load balancers asked for, each balancer with its own share of the
  workers' queues.\<close>

theorem main_sets_up_what_is_asked:
  assumes "\<forall>c \<in> set cs. fits_option c" and "asked_lbs cs * asked_fps cs \<le> 2147483647"
  shows "\<exists>e rm. main_setup rule_files ([prog, inp, outp] @ concat (map render cs)) = Inr (Some (inp, outp, e)) \<and>
    ready (asked_lbs cs) (asked_fps cs) rm e \<and> set (blocked_ips rm) = set (asked_ips cs) \<and>
    set (blocked_apps rm) = set (asked_apps cs) \<and> blocked_ports rm = [] \<and>
    set (blocked_domains rm) = {d \<in> set (asked_domains cs). CHR ''*'' \<notin> set d} \<and>
    domain_patterns rm = filter (\<lambda>d. CHR ''*'' \<in> set d) (asked_domains cs)"
  using main_setup_ready [OF assms] asked_rules_sets [of cs] by blast

theorem main_sets_up_what_is_asked_witness:
  "\<exists>e rm. main_setup (\<lambda>f. None) [''aegis'', ''a.pcap'', ''b.pcap'', ''--block-app'', ''YouTube'', ''--fps'', ''3''] =
      Inr (Some (''a.pcap'', ''b.pcap'', e)) \<and> rule_mgr e = Some rm \<and> set (blocked_apps rm) = {YOUTUBE} \<and>
      length (fps e) = 6"
proof -
  let ?cs = "[Block_app YOUTUBE, Fps 3]"
  have r: "concat (map render ?cs) = [''--block-app'', ''YouTube'', ''--fps'', ''3'']"
    by code_simp
  have a: "asked_lbs ?cs = 2" "asked_fps ?cs = 3" "asked_apps ?cs = [YOUTUBE]"
    by (simp_all add: asked_lbs_def asked_fps_def asked_apps_def)
  show ?thesis
    using main_sets_up_what_is_asked [of ?cs "\<lambda>f. None" "''aegis''" "''a.pcap''" "''b.pcap''",
      unfolded r a] by (auto simp: ready_def)
qed

end
