(* ===== verification/Process_File.thy ===== *)
theory Process_File
  imports Main_Program Pipeline_Verdicts
begin

text \<open>
  \<open>DPIEngine::processFile\<close> (\<open>src/dpi_engine.cpp\<close>) and \<open>main\<close> (\<open>src/main.cpp\<close>) as wholes: from the
  bytes of the input file, through a run of the threads, to the bytes of the output file and
  the exit code. The threads may interleave in any way, so both are relations between what
  goes in and what can come out.
\<close>

section \<open>Starting, stopping and processing a file\<close>

text \<open>\<open>start\<close>; the threads it spawns are in \<open>threads\<close>. An engine without tiers has null pointers.\<close>

definition engine_start :: "engine \<Rightarrow> engine res" where
  "engine_start e =
     (if running e then Inr e
      else case lb_mgr e of None \<Rightarrow> Inl Out_Of_Bounds
      | Some lbm \<Rightarrow>
          Inr (e\<lparr>running := True, processing_complete := False, fps := fp_startAll (fps e),
                 lb_mgr := Some (lb_startAll lbm)\<rparr>))"

text \<open>
  The threads of a started engine, with the jobs the reader will push. The reader counts
  packets in fields of the statistics that no other thread touches.
\<close>

definition threads :: "engine \<Rightarrow> lb_manager \<Rightarrow> packet_job list \<Rightarrow> system" where
  "threads e lbm jobs =
     \<lparr>to_read = jobs, tier = lbm, workers = fps e, holding = replicate (length (fps e)) None,
      outq = output_queue e, written = [], dropped = [], sys_stats = stats e, engine_running = running e,
      lb_alive = replicate (length (lbs lbm)) True, fp_alive = replicate (length (fps e)) True,
      writer_alive = True\<rparr>"

text \<open>\<open>stop\<close> has returned: every thread has been joined and the output queue is shut down.\<close>

definition stopped :: "system \<Rightarrow> bool" where
  "stopped s \<longleftrightarrow>
     \<not> engine_running s \<and> (\<forall>i < length (lb_alive s). \<not> lb_alive s ! i) \<and>
     (\<forall>w < length (fp_alive s). \<not> fp_alive s ! w) \<and> is_shutdown (outq s) \<and> \<not> writer_alive s"

text \<open>
  The engine after a run: \<open>out\<close> and \<open>st\<close> are the file and the statistics the reader left, to
  which the output thread has written the jobs \<open>js\<close> in turn and the workers have added.
\<close>

definition engine_after :: "bool \<Rightarrow> ofstream \<Rightarrow> dpi_stats \<Rightarrow> packet_job list \<Rightarrow> system \<Rightarrow> engine \<Rightarrow> engine" where
  "engine_after le out st js s e =
     e\<lparr>running := False, processing_complete := True, fps := workers s, lb_mgr := Some (tier s),
       output_queue := outq s,
       output_file := (fold (writeOutputPacket le) js out)\<lparr>out_open := False\<rparr>,
       stats := st\<lparr>forwarded_packets := forwarded_packets (sys_stats s),
                   dropped_packets := dropped_packets (sys_stats s)\<rparr>\<rparr>"

definition prepare :: "(string \<Rightarrow> string option) \<Rightarrow> engine \<Rightarrow> (bool \<times> engine) res" where
  "prepare rule_files e = (if rule_mgr e = None then initialize rule_files e else Inr (True, e))"

text \<open>
  \<open>can_open\<close> says which files can be opened for writing. \<open>reader\<close> and \<open>raw\<close> are the reader's
  fresh objects. The reader writes the header when the other threads are in the state \<open>s0\<close>: it
  has pushed nothing yet, but the output thread may have written what was in its queue.
\<close>

inductive processFile ::
  "bool \<Rightarrow> (string \<Rightarrow> string option) \<Rightarrow> (string \<Rightarrow> bytes option) \<Rightarrow> (string \<Rightarrow> bool) \<Rightarrow>
   engine \<Rightarrow> string \<Rightarrow> string \<Rightarrow> bool \<Rightarrow> engine \<Rightarrow> bool"
  for le rule_files fs can_open e input_file output_name where
  Not_ready: "prepare rule_files e = Inr (False, e1) \<Longrightarrow>
    processFile le rule_files fs can_open e input_file output_name False e1"
| No_output: "prepare rule_files e = Inr (True, e1) \<Longrightarrow> \<not> can_open output_name \<Longrightarrow>
    processFile le rule_files fs can_open e input_file output_name False e1"
| Processed: "prepare rule_files e = Inr (True, e1) \<Longrightarrow> can_open output_name \<Longrightarrow>
    engine_start e1 = Inr e2 \<Longrightarrow> lb_mgr e2 = Some lbm \<Longrightarrow>
    reachable (rule_mgr e2) (threads e2 lbm jobs) s0 \<Longrightarrow> to_read s0 = jobs \<Longrightarrow> engine_running s0 \<Longrightarrow>
    readerThreadFunc le fs input_file reader raw (fold (writeOutputPacket le) (written s0) empty_file) (stats e2) =
      Inr (jobs, out, st) \<Longrightarrow>
    reachable (rule_mgr e2) s0 s \<Longrightarrow> stopped s \<Longrightarrow>
    processFile le rule_files fs can_open e input_file output_name True
      (engine_after le out st (drop (length (written s0)) (written s)) s e2)"

inductive_cases processFileE: "processFile le rule_files fs can_open e inp outp ok e'"

text \<open>The reader may be quick and write the header first.\<close>

lemma header_first:
  assumes "prepare rule_files e = Inr (True, e1)" and "can_open outp" and "engine_start e1 = Inr e2"
    and "lb_mgr e2 = Some lbm"
    and "readerThreadFunc le fs inp reader raw empty_file (stats e2) = Inr (jobs, out, st)"
    and "reachable (rule_mgr e2) (threads e2 lbm jobs) s" and "stopped s"
  shows "processFile le rule_files fs can_open e inp outp True (engine_after le out st (written s) s e2)"
proof -
  have "running e2" using assms(3) by (auto simp: engine_start_def split: if_splits option.splits)
  then show ?thesis
    using processFile.Processed [OF assms(1) _ assms(3,4) reachable.Start _ _ _ assms(6,7), of can_open outp le fs inp reader raw out st]
      assms(2,5) by (simp add: threads_def)
qed

text \<open>\<open>main\<close>: the exit code, and the engine as it is when \<open>main\<close> returns.\<close>

inductive main_program ::
  "bool \<Rightarrow> (string \<Rightarrow> string option) \<Rightarrow> (string \<Rightarrow> bytes option) \<Rightarrow> (string \<Rightarrow> bool) \<Rightarrow>
   string list \<Rightarrow> int \<Rightarrow> engine option \<Rightarrow> bool"
  for le rule_files fs can_open argv where
  Usage: "main_setup rule_files argv = Inr None \<Longrightarrow> main_program le rule_files fs can_open argv 1 None"
| Failed: "main_setup rule_files argv = Inr (Some (inp, outp, e)) \<Longrightarrow>
    processFile le rule_files fs can_open e inp outp False e' \<Longrightarrow>
    main_program le rule_files fs can_open argv 1 (Some e')"
| Finished: "main_setup rule_files argv = Inr (Some (inp, outp, e)) \<Longrightarrow>
    processFile le rule_files fs can_open e inp outp True e' \<Longrightarrow>
    main_program le rule_files fs can_open argv 0 (Some e')"

inductive_cases main_programE: "main_program le rule_files fs can_open argv code e'"

section \<open>A ready engine starts the pipeline\<close>

lemma ready_start:
  assumes "ready l f rm e"
  shows "prepare rule_files e = Inr (True, e)"
    and "\<exists>e2 lbm. engine_start e = Inr e2 \<and> lb_mgr e2 = Some lbm \<and> rule_mgr e2 = Some rm \<and>
      stats e2 = initial_stats \<and> (\<forall>jobs. threads e2 lbm jobs = start_system l f jobs)"
proof -
  show "prepare rule_files e = Inr (True, e)" using assms by (simp add: prepare_def ready_def)
  let ?lbm = "lb_startAll (new_lb_manager (int l) (int f) [0..<l * f])"
  let ?e = "e\<lparr>running := True, processing_complete := False, fps := fp_startAll (fps e), lb_mgr := Some ?lbm\<rparr>"
  have "engine_start e = Inr ?e" using assms by (simp add: engine_start_def ready_def)
  moreover have "threads ?e ?lbm jobs = start_system l f jobs" for jobs
    using assms start_simps(11,13) [of l f jobs]
    by (simp add: threads_def ready_def start_system_def del: of_nat_mult)
  ultimately show "\<exists>e2 lbm. engine_start e = Inr e2 \<and> lb_mgr e2 = Some lbm \<and> rule_mgr e2 = Some rm \<and>
      stats e2 = initial_stats \<and> (\<forall>jobs. threads e2 lbm jobs = start_system l f jobs)"
    using assms by (intro exI [of _ ?e] exI [of _ ?lbm]) (simp add: ready_def)
qed

section \<open>Captures in, captures out\<close>

definition frame_tuple :: "bool \<Rightarrow> raw_packet \<Rightarrow> five_tuple" where
  "frame_tuple le raw = job_tuple (frame_job le raw 0)"

text \<open>What a packet becomes on its way: the output has its captured length as its original length.\<close>

definition rewritten :: "raw_packet \<Rightarrow> raw_packet" where
  "rewritten raw = raw\<lparr>header := (header raw)\<lparr>orig_len := incl_len (header raw)\<rparr>\<rparr>"

lemma frame_tuple_frame_job: "frame_tuple le (job_raw (frame_job le raw i)) = job_tuple (frame_job le raw i)"
  by (simp add: frame_tuple_def frame_job_def job_raw_def Let_def)

lemma job_raw_frame_job:
  assumes "unat (incl_len (header raw)) = length (raw_data raw)"
  shows "job_raw (frame_job le raw i) = rewritten raw"
proof -
  have "word_of_nat (length (raw_data raw)) = incl_len (header raw)"
    by (simp flip: assms)
  then show ?thesis
    by (cases raw; cases "header raw") (simp add: job_raw_def frame_job_def rewritten_def Let_def)
qed

lemma number_jobs_raw:
  "\<forall>raw \<in> set raws. unat (incl_len (header raw)) = length (raw_data raw) \<Longrightarrow>
   map job_raw (number_jobs le raws i) = map rewritten raws"
  by (induction raws arbitrary: i) (simp_all add: job_raw_frame_job)

lemma number_jobs_tuple:
  "job \<in> set (number_jobs le raws i) \<Longrightarrow> job_tuple job = frame_tuple le (job_raw job)"
  by (induction raws arbitrary: i) (auto simp: frame_tuple_frame_job)

lemma of_flow_raw:
  "\<forall>j \<in> set js. job_tuple j = frame_tuple le (job_raw j) \<Longrightarrow>
   map job_raw (of_flow k js) = filter (\<lambda>p. frame_tuple le p = k) (map job_raw js)"
  by (induction js) auto

text \<open>A capture in the host's byte order whose packets all fit.\<close>

definition good_capture :: "bool \<Rightarrow> pcap_global_header \<Rightarrow> raw_packet list \<Rightarrow> bytes option \<Rightarrow> bool" where
  "good_capture le h ps content \<longleftrightarrow>
     content = Some (pcap_bytes le h ps) \<and> magic_number h = PCAP_MAGIC_NATIVE \<and>
     (\<forall>p \<in> set ps. fits (snaplen h) p)"

lemma good_capture_open:
  assumes "good_capture le h ps (fs name)"
  shows "\<exists>r'. pcap_open le fs name r = (True, r') \<and> global_header r' = h \<and> read_packets le r' q = ps"
proof -
  let ?body = "concat (map (packet_bytes le) ps)"
  let ?r = "\<lparr>ifs = \<lparr>is_open = True, rest = ?body, good = True\<rparr>, global_header = h, needs_byte_swap = False\<rparr>"
  have "pcap_open le fs name r = (True, ?r)"
    using assms pcap_open_bytes [of fs name le h ?body le r]
    by (simp add: good_capture_def pcap_bytes_def opened_header_def)
  moreover have "read_packets le ?r q = takeWhile (fits (snaplen h)) ps"
    using assms by (intro read_packets_bytes [where fe = le]) (auto simp: good_capture_def fits_def)
  moreover have "takeWhile (fits (snaplen h)) ps = ps" using assms by (simp add: good_capture_def)
  ultimately show ?thesis by auto
qed

lemma reader_of_capture:
  assumes "good_capture le h ps (fs inp)"
  shows "\<exists>out st. readerThreadFunc le fs inp reader raw empty_file initial_stats =
      Inr (number_jobs le (filter flow_frame ps) 0, out, st) \<and>
    out = empty_file\<lparr>out_bytes := encode_global le h\<rparr> \<and>
    total_packets st = word_of_nat (length (filter flow_frame ps)) \<and> total_packets initial_stats = 0"
proof -
  obtain r' where "pcap_open le fs inp reader = (True, r')" "global_header r' = h" "read_packets le r' raw = ps"
    using good_capture_open [of le h ps fs inp reader raw] assms by blast
  moreover obtain i' st' where "reader_loop le ps 0 initial_stats = Inr (number_jobs le (filter flow_frame ps) 0, i', st')"
      "total_packets st' = total_packets initial_stats + word_of_nat (length (filter flow_frame ps))"
    using reader_loop_jobs [of le ps 0 initial_stats] by blast
  moreover have "writeOutputHeader le h empty_file = (True, empty_file\<lparr>out_bytes := encode_global le h\<rparr>)"
    by (simp add: writeOutputHeader_def ofs_write_def empty_file_def Let_def)
  ultimately show ?thesis by (simp add: readerThreadFunc_def initial_stats_def)
qed

lemma output_of_run:
  "out_bytes (output_file (engine_after le (empty_file\<lparr>out_bytes := encode_global le h\<rparr>) st (written s) s e)) =
     pcap_bytes le h (map job_raw (written s))"
  by (simp add: engine_after_def write_all_eq empty_file_def pcap_bytes_def)

lemma job_raw_fits: "fits snap p \<Longrightarrow> fits snap (rewritten p)"
  by (simp add: fits_def rewritten_def)

text \<open>The reader returns on any input, with the packets it counted as jobs.\<close>

lemma reader_returns:
  "\<exists>jobs out st'. readerThreadFunc le fs inp reader raw file st = Inr (jobs, out, st') \<and>
     (\<forall>job \<in> set jobs. job_ok job) \<and> total_packets st' = total_packets st + word_of_nat (length jobs)"
proof -
  obtain ok r where o: "pcap_open le fs inp reader = (ok, r)" by fastforce
  let ?raws = "read_packets le r raw"
  let ?jobs = "number_jobs le (filter flow_frame ?raws) 0"
  obtain i' st' where l: "reader_loop le ?raws 0 st = Inr (?jobs, i', st')"
      "total_packets st' = total_packets st + word_of_nat (length (filter flow_frame ?raws))"
    using reader_loop_jobs [of le ?raws 0 st] by blast
  have "length ?jobs = length (filter flow_frame ?raws)"
    using number_jobs_data [of le "filter flow_frame ?raws" 0] by (metis length_map)
  moreover have "\<forall>job \<in> set ?jobs. job_ok job" by (rule number_jobs_ok) simp
  moreover obtain b out where "writeOutputHeader le (global_header r) file = (b, out)" by fastforce
  ultimately show ?thesis using o l by (cases ok) (auto simp: readerThreadFunc_def)
qed

text \<open>When the reader has pushed nothing, nothing is written.\<close>

lemma nothing_read:
  assumes "0 < l" and "0 < f" and "f < 2 ^ 31" and "\<forall>job \<in> set jobs. job_ok job"
    and "reachable rules (start_system l f jobs) s" and "to_read s = jobs"
  shows "written s = []"
proof -
  have "mset (written s) + mset (dropped s) + mset (in_flight s) = mset jobs"
    by (rule conservation [OF assms(1-5)])
  moreover have "mset jobs \<subseteq># mset (in_flight s)" by (simp add: in_flight_def assms(6) [symmetric])
  ultimately show ?thesis by (metis add.assoc add.right_neutral mset_zero_iff subset_mset.add_diff_inverse add_left_imp_eq
        add.commute union_eq_empty)
qed

lemma ready_cases:
  assumes "0 < l" and "0 < f" and "f < 2 ^ 31"
    and "processFile le rule_files fs can_open e inp outp True e'" and "ready l f rm e"
  obtains reader raw jobs out st s e2 where
    "readerThreadFunc le fs inp reader raw empty_file initial_stats = Inr (jobs, out, st)"
    "reachable (Some rm) (start_system l f jobs) s" "stopped s" "e' = engine_after le out st (written s) s e2"
  using assms(4)
proof (cases rule: processFile.cases)
  case (Processed e1 e2 lbm jobs s0 reader raw out st s)
  have "e1 = e" using Processed(2) ready_start(1) [OF assms(5), of rule_files] by simp
  then have e2: "rule_mgr e2 = Some rm" "stats e2 = initial_stats" "threads e2 lbm jobs = start_system l f jobs"
    using Processed(4,5) ready_start(2) [OF assms(5)] by auto
  let ?file = "fold (writeOutputPacket le) (written s0) empty_file"
  have ok: "\<forall>job \<in> set jobs. job_ok job"
    using reader_returns [of le fs inp reader raw ?file "stats e2"] Processed(9) by auto
  have r: "reachable (Some rm) (start_system l f jobs) s0" using Processed(6) e2 by simp
  have "written s0 = []" by (rule nothing_read [OF assms(1-3) ok r Processed(7)])
  moreover have "reachable (Some rm) (start_system l f jobs) s"
    using reachable_trans [OF _ r] Processed(10) e2(1) by simp
  ultimately show thesis using that [of reader raw jobs out st s e2] Processed e2(2) by simp
qed auto

section \<open>What comes out\<close>

text \<open>The output of a run is made of packets of the input, and the order of a flow is kept.\<close>

definition drawn_from :: "bool \<Rightarrow> raw_packet list \<Rightarrow> raw_packet list \<Rightarrow> bool" where
  "drawn_from le qs ps \<longleftrightarrow>
     mset qs \<subseteq># mset (map rewritten ps) \<and>
     (\<forall>k. subseq (filter (\<lambda>p. frame_tuple le p = k) qs) (filter (\<lambda>p. frame_tuple le p = k) (map rewritten ps)))"

lemma permits_tuple: "job_tuple i = job_tuple j \<Longrightarrow> permits rules i = permits rules j"
  by (cases rules) (simp_all add: permits_def)

lemma run_written:
  assumes "0 < l" and "0 < f" and "f < 2 ^ 31" and "\<forall>p \<in> set ps. flow_frame p \<and> unat (incl_len (header p)) = length (raw_data p)"
    and "reachable rules (start_system l f (number_jobs le ps 0)) s"
  shows "drawn_from le (map job_raw (written s)) ps"
    and "\<forall>j \<in> set (written s). job_tuple j = frame_tuple le (job_raw j)"
    and "addresses_only rules \<Longrightarrow> in_flight s = [] \<Longrightarrow>
      mset (map job_raw (written s)) = filter_mset (\<lambda>p. permits rules (frame_job le p 0)) (mset (map rewritten ps))"
proof -
  let ?jobs = "number_jobs le ps 0"
  have ok: "\<forall>job \<in> set ?jobs. job_ok job" using assms(4) by (intro number_jobs_ok) simp
  have raw: "map job_raw ?jobs = map rewritten ps" using assms(4) by (intro number_jobs_raw) simp
  have "mset (written s) + mset (dropped s) + mset (in_flight s) = mset ?jobs"
    by (rule conservation [OF assms(1-3) ok assms(5)])
  then have sub: "mset (written s) \<subseteq># mset ?jobs" by (metis mset_subset_eq_add_left add.assoc)
  then have "set (written s) \<subseteq> set ?jobs" using set_mset_mono by fastforce
  then show t: "\<forall>j \<in> set (written s). job_tuple j = frame_tuple le (job_raw j)"
    using number_jobs_tuple by blast
  have tj: "\<forall>j \<in> set ?jobs. job_tuple j = frame_tuple le (job_raw j)" using number_jobs_tuple by blast
  have "subseq (filter (\<lambda>p. frame_tuple le p = k) (map job_raw (written s)))
      (filter (\<lambda>p. frame_tuple le p = k) (map rewritten ps))" for k
    using subseq_map [OF written_flow [OF assms(1-3) ok assms(5)], of job_raw k] of_flow_raw [OF t] of_flow_raw [OF tj] raw
    by simp
  moreover have "mset (map job_raw (written s)) \<subseteq># mset (map rewritten ps)"
    using image_mset_subseteq_mono [OF sub, of job_raw] raw by (metis mset_map)
  ultimately show "drawn_from le (map job_raw (written s)) ps" by (simp add: drawn_from_def)
  show "mset (map job_raw (written s)) = filter_mset (\<lambda>p. permits rules (frame_job le p 0)) (mset (map rewritten ps))"
    if a: "addresses_only rules" "in_flight s = []"
  proof -
    have "permits rules j \<longleftrightarrow> permits rules (frame_job le (job_raw j) 0)" if "j \<in> set ?jobs" for j
      using tj that by (intro permits_tuple) (simp add: frame_tuple_def)
    then have "filter_mset (permits rules) (mset ?jobs) =
        filter_mset (\<lambda>j. permits rules (frame_job le (job_raw j) 0)) (mset ?jobs)"
      by (intro filter_mset_cong) auto
    then have "mset (written s) = filter_mset (\<lambda>j. permits rules (frame_job le (job_raw j) 0)) (mset ?jobs)"
      using filtered_run(1) [OF assms(1-3) ok assms(5) a] by simp
    then have "mset (map job_raw (written s)) =
        image_mset job_raw (filter_mset (\<lambda>j. permits rules (frame_job le (job_raw j) 0)) (mset ?jobs))"
      by simp
    also have "\<dots> = filter_mset (\<lambda>p. permits rules (frame_job le p 0)) (image_mset job_raw (mset ?jobs))"
      by (simp add: filter_mset_image_mset)
    finally show ?thesis using raw by (metis mset_map)
  qed
qed

lemma drawn_set: "drawn_from le qs ps \<Longrightarrow> set qs \<subseteq> rewritten ` set ps"
  using set_mset_mono [of "mset qs" "mset (map rewritten ps)"] by (simp add: drawn_from_def)

text \<open>Of a good capture, the output file is a capture that reads back as the packets written.\<close>

lemma capture_reads_back:
  assumes "good_capture le h ps c" and "drawn_from le qs (filter flow_frame ps)"
  shows "good_capture le h qs (Some (pcap_bytes le h qs))"
proof -
  have "\<forall>q \<in> set qs. fits (snaplen h) q"
    using drawn_set [OF assms(2)] assms(1) job_raw_fits by (fastforce simp: good_capture_def)
  then show ?thesis using assms(1) by (simp add: good_capture_def)
qed

lemma processFile_capture:
  assumes "0 < l" and "0 < f" and "f < 2 ^ 31" and "ready l f rm e" and "good_capture le h ps (fs inp)"
    and "processFile le rule_files fs can_open e inp outp True e'"
  obtains qs where "out_bytes (output_file e') = pcap_bytes le h qs" "drawn_from le qs (filter flow_frame ps)"
    "\<forall>q \<in> set qs. permits (Some rm) (frame_job le q 0)"
proof -
  obtain reader raw jobs out st s e2 where r:
      "readerThreadFunc le fs inp reader raw empty_file initial_stats = Inr (jobs, out, st)"
      "reachable (Some rm) (start_system l f jobs) s" "e' = engine_after le out st (written s) s e2"
    using ready_cases [OF assms(1-3,6,4)] by metis
  have j: "jobs = number_jobs le (filter flow_frame ps) 0" "out = empty_file\<lparr>out_bytes := encode_global le h\<rparr>"
    using reader_of_capture [of le h ps fs inp reader raw] assms(5) r(1) by auto
  let ?qs = "map job_raw (written s)"
  have ps: "\<forall>p \<in> set (filter flow_frame ps). flow_frame p \<and> unat (incl_len (header p)) = length (raw_data p)"
    using assms(5) by (auto simp: good_capture_def fits_def)
  have ok: "\<forall>job \<in> set jobs. job_ok job" unfolding j(1) by (rule number_jobs_ok) simp
  note w = run_written [OF assms(1-3) ps r(2) [unfolded j(1)]]
  have "permits (Some rm) (frame_job le (job_raw x) 0)" if "x \<in> set (written s)" for x
    using written_permitted [OF assms(1-3) ok r(2) that] w(2) that by (simp add: permits_def frame_tuple_def)
  then show thesis
    using that [of ?qs] w(1) output_of_run [of le h st s e2] r(3) j(2) by simp
qed

section \<open>A run that ends\<close>

lemma run_exists:
  assumes "0 < l" and "0 < f" and "f < 2 ^ 31" and "ready l f rm e" and "can_open outp"
    and "readerThreadFunc le fs inp reader raw empty_file initial_stats = Inr (jobs, out, st)"
    and "\<forall>job \<in> set jobs. job_ok job"
  shows "\<exists>s e2. processFile le rule_files fs can_open e inp outp True (engine_after le out st (written s) s e2) \<and>
    reachable (Some rm) (start_system l f jobs) s \<and> in_flight s = [] \<and> stopped s \<and> rule_mgr e2 = Some rm \<and>
    (\<exists>s1. rtranclp (step_within {T} (Some rm)) (start_system l f jobs) s1 \<and> in_flight s1 = [] \<and> results s = results s1)"
proof -
  let ?s0 = "start_system l f jobs"
  obtain e2 lbm where e2: "engine_start e = Inr e2" "lb_mgr e2 = Some lbm" "rule_mgr e2 = Some rm"
      "stats e2 = initial_stats" "\<forall>jobs. threads e2 lbm jobs = start_system l f jobs"
    using ready_start(2) [OF assms(4)] by blast
  obtain s1 where d: "rtranclp (step_within {T} (Some rm)) ?s0 s1" and s1: "sound_state l f s1" "in_flight s1 = []"
    using drain_at [OF start_sound [OF assms(1-3,7)]] start_simps(6) by blast
  obtain s2 where s2: "reachable (Some rm) s1 s2" "in_flight s2 = []" "stopped s2" "results s2 = results s1"
    using stop_completes [OF s1(2), of "Some rm"] s1(1)
    unfolding stopped_def sound_state_def topology_def by auto
  have r: "reachable (Some rm) ?s0 s2" by (rule reachable_trans [OF s2(1) within_reachable [OF d]])
  have "processFile le rule_files fs can_open e inp outp True (engine_after le out st (written s2) s2 e2)"
    using ready_start(1) [OF assms(4)] assms(5) e2(1,2)
  proof (rule header_first)
    show "readerThreadFunc le fs inp reader raw empty_file (stats e2) = Inr (jobs, out, st)"
      using assms(6) e2(4) by simp
    show "reachable (rule_mgr e2) (threads e2 lbm jobs) s2" using r e2(3,5) by simp
  qed (rule s2(3))
  then show ?thesis using r s2(2-4) e2(3) d s1(2) by blast
qed

lemma some_run:
  assumes "0 < l" and "0 < f" and "f < 2 ^ 31" and "ready l f rm e" and "can_open outp"
  shows "\<exists>e'. processFile le rule_files fs can_open e inp outp True e' \<and>
    total_packets (stats e') = forwarded_packets (stats e') + dropped_packets (stats e')"
proof -
  obtain reader :: pcap_reader and raw :: raw_packet where True by simp
  obtain jobs out st where r: "readerThreadFunc le fs inp reader raw empty_file initial_stats = Inr (jobs, out, st)"
      "\<forall>job \<in> set jobs. job_ok job" "total_packets st = word_of_nat (length jobs)"
    using reader_returns [of le fs inp reader raw empty_file initial_stats] by (auto simp: initial_stats_def)
  obtain s e2 where s: "processFile le rule_files fs can_open e inp outp True (engine_after le out st (written s) s e2)"
      "reachable (Some rm) (start_system l f jobs) s" "in_flight s = []"
    using run_exists [where can_open = can_open and fs = fs, OF assms r(1,2)] by blast
  then show ?thesis
    using counters_add_up [OF assms(1-3) r(2) s(2,3)] r(3)
    by (intro exI [of _ "engine_after le out st (written s) s e2"]) (simp add: engine_after_def)
qed

lemma sample_engine: "\<exists>e. ready 2 2 (asked_rules []) e"
  using main_setup_ready [of "[]" "\<lambda>_. None" "''aegis''" "''in.pcap''" "''out.pcap''"]
  by (auto simp: asked_lbs_def asked_fps_def)

lemma sample_capture: "good_capture True sample_header [sample_raw] (Some (pcap_bytes True sample_header [sample_raw]))"
  by (simp add: good_capture_def sample_header_def fits_def sample_raw_def sample_frame_layout)

section \<open>Properties\<close>

text \<open>C13: \<open>processFile\<close> can always finish. On a ready engine, whatever the input file is (no file, no
  capture, a damaged one), there is a run of the threads in which every packet is dealt with and
  \<open>stop\<close> joins them all, and the report then accounts for every packet. Every run of it, however
  it ends, returns false exactly when the output cannot be opened, and then the engine is as it was.\<close>

theorem processFile_returns:
  assumes "0 < l" and "0 < f" and "f < 2 ^ 31" and "ready l f rm e"
  shows "(can_open outp \<longrightarrow> (\<exists>e'. processFile le rule_files fs can_open e inp outp True e' \<and>
      total_packets (stats e') = forwarded_packets (stats e') + dropped_packets (stats e'))) \<and>
    (\<not> can_open outp \<longrightarrow> processFile le rule_files fs can_open e inp outp False e) \<and>
    (\<forall>ok e'. processFile le rule_files fs can_open e inp outp ok e' \<longrightarrow>
       (\<not> ok \<longleftrightarrow> \<not> can_open outp) \<and> (\<not> ok \<longrightarrow> e' = e))"
proof (intro conjI impI)
  assume "can_open outp"
  then show "\<exists>e'. processFile le rule_files fs can_open e inp outp True e' \<and>
      total_packets (stats e') = forwarded_packets (stats e') + dropped_packets (stats e')"
    by (rule some_run [where can_open = can_open, OF assms])
next
  assume "\<not> can_open outp"
  then show "processFile le rule_files fs can_open e inp outp False e"
    using ready_start(1) [OF assms(4), of rule_files] by (auto intro: processFile.No_output)
next
  show "\<forall>ok e'. processFile le rule_files fs can_open e inp outp ok e' \<longrightarrow>
      (\<not> ok \<longleftrightarrow> \<not> can_open outp) \<and> (\<not> ok \<longrightarrow> e' = e)"
    using ready_start(1) [OF assms(4), of rule_files] by (auto elim!: processFileE)
qed

theorem processFile_returns_witness:
  "\<exists>e. (\<exists>e'. processFile True (\<lambda>_. None) (\<lambda>_. None) (\<lambda>_. True) e ''in.pcap'' ''out.pcap'' True e') \<and>
     (\<forall>e'. \<not> processFile True (\<lambda>_. None) (\<lambda>_. None) (\<lambda>_. True) e ''in.pcap'' ''out.pcap'' False e') \<and>
     (\<forall>e'. \<not> processFile True (\<lambda>_. None) (\<lambda>_. None) (\<lambda>_. False) e ''in.pcap'' ''out.pcap'' True e')"
proof -
  obtain e where e: "ready 2 2 (asked_rules []) e" using sample_engine by blast
  note p = processFile_returns [OF _ _ _ e, of _ "''out.pcap''" True "\<lambda>_. None" "\<lambda>_. None" "''in.pcap''"]
  show ?thesis
    using p [of "\<lambda>_. True"] p [of "\<lambda>_. False"] by (intro exI [of _ e]) fastforce
qed

text \<open>C4: what \<open>processFile\<close> writes. In every run on a capture in the host's byte order, however the
  threads interleave and wherever \<open>stop\<close> cuts them off, the output file is a capture with the
  same header that reads back as packets of the input: each is one of its TCP or UDP packets
  with its time stamp and bytes unchanged (the original length is set to the captured one),
  none occurs more often than in the input, those of a flow are in the order of the input,
  and none comes from an address or goes to a port that is blocked.\<close>

theorem processFile_output:
  assumes "0 < l" and "0 < f" and "f < 2 ^ 31" and "ready l f rm e" and "good_capture le h ps (fs inp)"
    and "processFile le rule_files fs can_open e inp outp True e'"
  shows "\<exists>qs. out_bytes (output_file e') = pcap_bytes le h qs \<and>
    mset qs \<subseteq># mset (map rewritten (filter flow_frame ps)) \<and>
    (\<forall>k. subseq (filter (\<lambda>p. frame_tuple le p = k) qs)
       (filter (\<lambda>p. frame_tuple le p = k) (map rewritten (filter flow_frame ps)))) \<and>
    (\<forall>q \<in> set qs. \<not> isIPBlocked rm (src_ip (frame_tuple le q)) \<and> \<not> isPortBlocked rm (dst_port (frame_tuple le q))) \<and>
    (\<forall>fs' name r q. fs' name = Some (out_bytes (output_file e')) \<longrightarrow>
       (\<exists>r'. pcap_open le fs' name r = (True, r') \<and> read_packets le r' q = qs))"
proof -
  obtain qs where qs: "out_bytes (output_file e') = pcap_bytes le h qs" "drawn_from le qs (filter flow_frame ps)"
      "\<forall>q \<in> set qs. permits (Some rm) (frame_job le q 0)"
    using processFile_capture [of l f rm e le h ps fs inp] assms by blast
  have "\<exists>r'. pcap_open le fs' name r = (True, r') \<and> read_packets le r' q = qs"
    if "fs' name = Some (out_bytes (output_file e'))" for fs' name r q
    using good_capture_open [of le h qs fs' name r q] capture_reads_back [OF assms(5) qs(2)] that qs(1) by auto
  then show ?thesis
    using qs by (intro exI [of _ qs]) (auto simp: drawn_from_def permits_def frame_tuple_def)
qed

theorem processFile_output_witness:
  "\<exists>e e' qs. processFile True (\<lambda>_. None) (\<lambda>_. Some (pcap_bytes True sample_header [sample_raw])) (\<lambda>_. True)
       e ''in.pcap'' ''out.pcap'' True e' \<and>
     out_bytes (output_file e') = pcap_bytes True sample_header qs \<and> mset qs \<subseteq># {#rewritten sample_raw#}"
proof -
  let ?fs = "\<lambda>_ :: string. Some (pcap_bytes True sample_header [sample_raw])"
  obtain e where e: "ready 2 2 (asked_rules []) e" using sample_engine by blast
  obtain e' where r: "processFile True (\<lambda>_. None) ?fs (\<lambda>_. True) e ''in.pcap'' ''out.pcap'' True e'"
    using some_run [of 2 2 "asked_rules []" e "\<lambda>_. True" "''out.pcap''" True "\<lambda>_. None" ?fs "''in.pcap''"] e by auto
  show ?thesis
    using processFile_output [of 2 2 "asked_rules []" e True sample_header "[sample_raw]" ?fs "''in.pcap''", OF _ _ _ e _ r]
      sample_capture sample_raw_flow r by auto
qed

section \<open>A second file\<close>

lemma closed_output_step:
  assumes "step rules s s'" and "is_shutdown (outq s)"
  shows "is_shutdown (outq s') \<and> written s' @ queue (outq s') = written s @ queue (outq s)"
  using assms(1)
proof (cases rule: step.cases)
  case (Lb_push i)
  then show ?thesis using assms(2) by (auto simp: lb_push_step_def split: if_splits option.splits)
next
  case (Work ns t1 t2 w)
  then show ?thesis using worker_step_effect assms(2) by metis
next
  case (Emit w)
  then show ?thesis using assms(2) tsq.put_loses [of "outq s"]
    by (auto simp: emit_step_def split: if_splits option.splits)
next
  case Write
  then show ?thesis using assms(2)
    by (auto simp: writer_step_def popWithTimeout_eq take_front_def split: if_splits list.splits)
qed (use assms(2) in \<open>auto simp: reader_step_def lb_pop_step_def split: list.splits option.splits if_splits\<close>)

lemma closed_output_run:
  assumes "reachable rules s0 s" and "is_shutdown (outq s0)"
  shows "is_shutdown (outq s) \<and> written s @ queue (outq s) = written s0 @ queue (outq s0)"
  using assms
proof (induction rule: reachable.induct)
  case (Next s s')
  then show ?case using closed_output_step [of rules s s'] by auto
qed simp

lemma written_grows:
  assumes "reachable rules s0 s"
  shows "prefix (written s0) (written s)"
  using assms
proof (induction rule: reachable.induct)
  case (Next s s')
  from Next(2) have "prefix (written s) (written s')"
  proof (cases rule: step.cases)
    case (Work ns t1 t2 w)
    then show ?thesis using worker_step_effect by (metis prefix_order.refl)
  qed (auto simp: reader_step_def lb_pop_step_def lb_push_step_def emit_step_def writer_step_def
      split: list.splits option.splits if_splits prod.splits)
  then show ?case using Next(3) by (rule prefix_order.trans [rotated])
qed simp

lemma processed_engine:
  assumes "processFile le rule_files fs can_open e inp outp True e'"
  shows "is_shutdown (output_queue e') \<and> rule_mgr e' \<noteq> None"
  using assms
proof (cases rule: processFile.cases)
  case (Processed e1 e2 lbm jobs s0 reader raw out st s)
  have "rule_mgr e1 \<noteq> None" using Processed(2)
    by (auto simp: prepare_def initialize_def Let_def split: if_splits)
  then have "rule_mgr e2 \<noteq> None" using Processed(4) by (auto simp: engine_start_def split: if_splits option.splits)
  then show ?thesis using Processed(1,11) by (simp add: engine_after_def stopped_def)
qed simp_all

text \<open>A second run is possible: the reader pushes its jobs into queues that are closed.\<close>

definition inputs_closed :: "system \<Rightarrow> bool" where
  "inputs_closed s \<longleftrightarrow> (\<forall>lb \<in> set (lbs (tier s)). lb_running lb \<or> is_shutdown (lb_input lb))"

lemma inputs_closed_update:
  "inputs_closed s \<Longrightarrow> lb_running lb \<or> is_shutdown (lb_input lb) \<Longrightarrow> inputs_closed (update_lb i lb s)"
  using set_update_subset_insert [of "lbs (tier s)" i lb] by (auto simp: inputs_closed_def)

lemma inputs_closed_nth:
  "inputs_closed s \<Longrightarrow> i < length (lbs (tier s)) \<Longrightarrow> lb_running (lbs (tier s) ! i) \<or> is_shutdown (lb_input (lbs (tier s) ! i))"
  by (simp add: inputs_closed_def)

interpretation closed_run: run_invariant "\<lambda>_. inputs_closed"
proof unfold_locales
  show "inputs_closed (start_system l f jobs)" for l f jobs
    using start_empty [of _ l f jobs] by (auto simp: inputs_closed_def)
next
  fix l f s rules s'
  assume s: "sound_state l f s" "inputs_closed s" and "step rules s s'"
  have t: "topology l f s" and o: "shut_order s" and r: "routed l f (lanes_of s)"
    using s(1) by (auto simp: sound_state_def)
  from \<open>step rules s s'\<close> show "inputs_closed s'"
  proof (cases rule: step.cases)
    case Read
    then obtain j js where j: "to_read s = j # js" by (auto simp: reader_step_def split: list.splits)
    let ?i = "route l f (job_tuple j) div f"
    have "inputs_closed (s\<lparr>to_read := js\<rparr>)" using s(2) by (simp add: inputs_closed_def)
    moreover have "?i < length (lbs (tier s))" using t route_div_bound [of f l] by (simp add: topology_def)
    ultimately show ?thesis
      using Read inputs_closed_nth [OF s(2), of ?i] reader_step_eq [OF t o j]
      by (auto intro!: inputs_closed_update split: if_splits)
  next
    case (Lb_pop i)
    then have "i < length (lbs (tier s))" "s' = update_lb i (lb_take (lbs (tier s) ! i)) s"
      by (auto simp: lb_pop_step_def split: if_splits)
    moreover have "lb_running (lb_take lb) = lb_running lb \<and> is_shutdown (lb_input (lb_take lb)) = is_shutdown (lb_input lb)" for lb
      by (cases "queue (lb_input lb)") (simp_all add: lb_take_def popWithTimeout_eq take_front_def)
    ultimately show ?thesis using s(2) inputs_closed_nth [OF s(2), of i] by (auto intro!: inputs_closed_update)
  next
    case (Lb_push i)
    then obtain j where j: "in_hand (lbs (tier s) ! i) = Some j" "i < length (lbs (tier s))"
      by (auto simp: lb_push_step_def split: if_splits)
    then have i: "i < l" using t by (auto simp: topology_def)
    obtain lb fp where "s' = update_lb i lb (update_worker (route l f (job_tuple j)) fp s)"
        "lb_input lb = lb_input (lbs (tier s) ! i)" "lb_running lb = lb_running (lbs (tier s) ! i)"
      using lb_push_step_eq [OF t o r i j(1)] Lb_push by (auto split: if_splits)
    moreover have "inputs_closed (update_worker (route l f (job_tuple j)) fp s)" using s(2) by (simp add: inputs_closed_def)
    ultimately show ?thesis using inputs_closed_nth [OF s(2) j(2)] by (auto intro!: inputs_closed_update)
  next
    case (Work ns t1 t2 w)
    then show ?thesis using s(2) worker_step_frame by (metis inputs_closed_def)
  next
    case (Lb_stop i)
    then show ?thesis
      using s(2) inputs_closed_nth [OF s(2) Lb_stop(3)] by (auto intro!: inputs_closed_update simp: lb_stop_def)
  qed (use s(2) in \<open>auto simp: inputs_closed_def emit_step_def writer_step_def split: if_splits option.splits prod.splits\<close>)
qed

lemma closed_reader:
  assumes "\<forall>lb \<in> set (lbs (tier s)). is_shutdown (lb_input lb)" and "lbs (tier s) \<noteq> []"
    and "fps_per_lb (tier s) = int f" and "0 < f" and "f < 2 ^ 31"
  shows "reachable rules s (s\<lparr>to_read := []\<rparr>)"
  using assms
proof (induction "to_read s" arbitrary: s)
  case Nil
  then have "s\<lparr>to_read := []\<rparr> = s" by simp
  then show ?case using reachable.Start by metis
next
  case (Cons j js)
  have "unat (word_of_int (int f) :: u64) = f" using Cons.prems(5) by (simp add: unat_of_nat)
  then obtain i where i: "getLBForPacket (tier s) (job_tuple j) = Inr i" "i < length (lbs (tier s))"
    using Cons.prems(2-4) by (simp add: getLBForPacket_def)
  have "is_shutdown (lb_input (lbs (tier s) ! i))" using Cons.prems(1) i(2) by simp
  then have p: "push j (lb_input (lbs (tier s) ! i)) = Some (lb_input (lbs (tier s) ! i))" by (rule tsq.put_loses)
  have "update_lb i (lbs (tier s) ! i) (s\<lparr>to_read := js\<rparr>) = s\<lparr>to_read := js\<rparr>" by (simp add: update_lb_def)
  then have "reader_step s = Inr (Some (s\<lparr>to_read := js\<rparr>))"
    unfolding reader_step_def Cons.hyps(2) [symmetric] by (simp add: i(1) p)
  then have "reachable rules s (s\<lparr>to_read := js\<rparr>)" using reachable.Next [OF reachable.Start step.Read] by blast
  moreover have "reachable rules (s\<lparr>to_read := js\<rparr>) (s\<lparr>to_read := js, to_read := []\<rparr>)"
    by (rule Cons.hyps(1)) (use Cons.prems in simp_all)
  ultimately show ?case using reachable_trans by fastforce
qed

lemma second_run_exists:
  assumes "0 < l" and "0 < f" and "f < 2 ^ 31" and "\<forall>job \<in> set jobs. job_ok job"
    and "reachable rules (start_system l f jobs) s" and "in_flight s = []" and "stopped s"
    and "rule_mgr e \<noteq> None" and "can_open outp"
  shows "\<exists>e'. processFile le rule_files fs can_open (engine_after le' out st js s e) inp outp True e'"
proof -
  let ?e1 = "engine_after le' out st js s e" and ?lbm = "lb_startAll (tier s)"
  let ?e2 = "?e1\<lparr>running := True, processing_complete := False, fps := fp_startAll (fps ?e1), lb_mgr := Some ?lbm\<rparr>"
  have p: "prepare rule_files ?e1 = Inr (True, ?e1)" "engine_start ?e1 = Inr ?e2" "lb_mgr ?e2 = Some ?lbm"
    using assms(8) by (auto simp: prepare_def engine_start_def engine_after_def)
  obtain reader :: pcap_reader and raw :: raw_packet where True by simp
  obtain jobs' out' st' where r: "readerThreadFunc le fs inp reader raw empty_file (stats ?e2) = Inr (jobs', out', st')"
    using reader_returns [of le fs inp reader raw empty_file "stats ?e2"] by blast
  let ?t = "threads ?e2 ?lbm jobs'"
  have t: "topology l f s" "shut_order s" using from_start(1) [OF assms(1-5)] by (auto simp: sound_state_def)
  have "is_shutdown (lb_input lb)" if lb: "lb \<in> set (lbs (tier s))" for lb
  proof -
    obtain i where i: "i < length (lbs (tier s))" "lb = lbs (tier s) ! i" using lb by (auto simp: in_set_conv_nth)
    then have "\<not> lb_alive s ! i" using t(1) assms(7) by (simp add: stopped_def topology_def)
    then have "\<not> lb_running lb" using t(2) i by (simp add: shut_order_def)
    then show ?thesis using inputs_closed_nth [OF closed_run.in_every_run [OF assms(1-5)] i(1)] i(2) by simp
  qed
  then have c: "\<forall>lb \<in> set (lbs (tier ?t)). is_shutdown (lb_input lb)"
    by (auto simp: threads_def lb_startAll_def lb_start_def)
  have "reachable (rule_mgr ?e2) ?t (?t\<lparr>to_read := []\<rparr>)"
    using t(1) assms(1-3) by (intro closed_reader [OF c, of f]) (auto simp: threads_def lb_startAll_def topology_def)
  moreover have "in_flight (?t\<lparr>to_read := []\<rparr>) = []"
    using assms(6) by (auto simp: in_flight_def worker_jobs_def threads_def engine_after_def lb_startAll_def lb_start_def
        fp_startAll_def fp_start_def lb_jobs_def)
  then obtain s2 where "reachable (rule_mgr ?e2) (?t\<lparr>to_read := []\<rparr>) s2" "stopped s2"
    using stop_completes [of "?t\<lparr>to_read := []\<rparr>" "rule_mgr ?e2"] unfolding stopped_def
    by (auto simp: threads_def)
  ultimately show ?thesis
    using header_first [where can_open = can_open and fs = fs, OF p(1) assms(9) p(2,3) r] reachable_trans
    by blast
qed

text \<open>C17: an engine is good for one file only. \<open>stop\<close> shuts the queues down for good, so if
  \<open>processFile\<close> is called again it returns true and no packet of the second file is written:
  besides the header the second output holds at most what the first run had left in the
  output queue, whatever the second input is.\<close>

theorem second_file_lost:
  assumes "processFile le rule_files fs can_open e inp outp True e1"
    and "processFile le rule_files fs' can_open' e1 inp' outp' ok e2"
  shows "(ok \<longleftrightarrow> can_open' outp') \<and> (ok \<longrightarrow> (\<exists>head js js'.
      (head = [] \<or> (\<exists>r. head = encode_global le (global_header (snd (pcap_open le fs' inp' r))))) \<and>
      prefix (js @ js') (queue (output_queue e1)) \<and>
      out_bytes (output_file e2) = concat (map (packet_bytes le \<circ> job_raw) js) @ head @
        concat (map (packet_bytes le \<circ> job_raw) js')))"
proof -
  have e1: "is_shutdown (output_queue e1)" "prepare rule_files e1 = Inr (True, e1)"
    using processed_engine [OF assms(1)] by (auto simp: prepare_def)
  from assms(2) show ?thesis
  proof (cases rule: processFile.cases)
    case (Processed e3 e4 lbm jobs s0 reader raw out st s)
    let ?k = "length (written s0)" and ?bytes = "\<lambda>js. concat (map (packet_bytes le \<circ> job_raw) js)"
    have "output_queue e4 = output_queue e1"
      using Processed(3,5) e1(2) by (auto simp: engine_start_def split: if_splits option.splits)
    then have q0: "is_shutdown (outq s0)" "written s0 @ queue (outq s0) = queue (output_queue e1)"
      using closed_output_run [OF Processed(7)] e1(1) by (simp_all add: threads_def)
    then have q: "written s @ queue (outq s) = written s0 @ queue (outq s0)"
      using closed_output_run [OF Processed(11)] by simp
    have "prefix (written s0) (written s)" using written_grows [OF Processed(11)] .
    then have w: "written s0 @ drop ?k (written s) = written s" by (auto simp: prefix_def)
    let ?file = "empty_file\<lparr>out_bytes := ?bytes (written s0)\<rparr>"
    have f: "fold (writeOutputPacket le) (written s0) empty_file = ?file"
      by (simp add: write_all_eq empty_file_def)
    obtain ok2 r where o: "pcap_open le fs' inp' reader = (ok2, r)" by fastforce
    obtain head where head: "out = ?file\<lparr>out_bytes := ?bytes (written s0) @ head\<rparr>"
        "head = [] \<or> head = encode_global le (global_header r)"
      using Processed(10) o unfolding f
      by (auto simp: readerThreadFunc_def writeOutputHeader_def ofs_write_def empty_file_def Let_def split: if_splits)
    have "out_bytes (output_file e2) = ?bytes (written s0) @ head @ ?bytes (drop ?k (written s))"
      unfolding Processed(2) engine_after_def head(1) by (simp add: write_all_eq empty_file_def)
    moreover have "global_header r = global_header (snd (pcap_open le fs' inp' reader))" using o by simp
    moreover have "prefix (written s0 @ drop ?k (written s)) (queue (output_queue e1))"
      unfolding w q0(2) [symmetric] q [symmetric] by simp
    ultimately show ?thesis using Processed(1,4) head(2) by metis
  qed (use e1(2) in auto)
qed

theorem second_file_lost_witness:
  "\<exists>e e1 e2. let fs = (\<lambda>_. Some (pcap_bytes True sample_header [sample_raw])) in
     processFile True (\<lambda>_. None) fs (\<lambda>_. True) e ''a.pcap'' ''b.pcap'' True e1 \<and>
     processFile True (\<lambda>_. None) fs (\<lambda>_. True) e1 ''a.pcap'' ''c.pcap'' True e2 \<and>
     length (out_bytes (output_file e2)) \<le> 24"
proof -
  let ?fs = "\<lambda>_ :: string. Some (pcap_bytes True sample_header [sample_raw])"
  let ?run = "processFile True (\<lambda>_. None) ?fs (\<lambda>_. True)"
  obtain e where e: "ready 2 2 (asked_rules []) e" using sample_engine by blast
  obtain reader :: pcap_reader and raw :: raw_packet where True by simp
  obtain jobs out st where j: "readerThreadFunc True ?fs ''a.pcap'' reader raw empty_file initial_stats = Inr (jobs, out, st)"
      "\<forall>job \<in> set jobs. job_ok job"
    using reader_returns [of True ?fs "''a.pcap''" reader raw empty_file initial_stats] by blast
  obtain s e2 where s: "?run e ''a.pcap'' ''b.pcap'' True (engine_after True out st (written s) s e2)"
      "reachable (Some (asked_rules [])) (start_system 2 2 jobs) s" "in_flight s = []" "stopped s"
      "rule_mgr e2 = Some (asked_rules [])"
    using run_exists [of 2 2 "asked_rules []" e "\<lambda>_. True" "''b.pcap''" True ?fs "''a.pcap''" reader raw jobs out st "\<lambda>_. None"] e j
    by fastforce
  obtain e3 where e3: "?run (engine_after True out st (written s) s e2) ''a.pcap'' ''c.pcap'' True e3"
    using second_run_exists [OF _ _ _ j(2) s(2-4), of e2 "\<lambda>_. True" "''c.pcap''" True "\<lambda>_. None" ?fs True out st "written s" "''a.pcap''"] s(5)
    by auto
  have "queue (outq s) = []" using s(3) by (simp add: in_flight_def)
  then have "length (out_bytes (output_file e3)) \<le> 24"
    using second_file_lost [OF s(1) e3] by (auto simp: engine_after_def)
  then show ?thesis using s(1) e3 unfolding Let_def by blast
qed

section \<open>The program as a whole\<close>

text \<open>Options that set no application or domain rule.\<close>

fun address_option :: "cli_option \<Rightarrow> bool" where
  "address_option (Block_app app) = False"
| "address_option (Block_domain d) = False"
| "address_option _ = True"

lemma address_options:
  "\<forall>c \<in> set cs. address_option c \<Longrightarrow> asked_apps cs = [] \<and> asked_domains cs = []"
  by (induction cs) (auto simp: asked_apps_def asked_domains_def split: cli_option.splits)

lemma asked_rules_permit:
  "permits (Some (asked_rules cs)) j \<longleftrightarrow> src_ip (job_tuple j) \<notin> set (asked_ips cs)"
  by (simp add: permits_def isIPBlocked_def isPortBlocked_def asked_rules_sets)

text \<open>Behind every success of \<open>main\<close> is a run of the pipeline on the capture's jobs, and one of them
  deals with every job.\<close>

definition run_behind ::
  "bool \<Rightarrow> pcap_global_header \<Rightarrow> raw_packet list \<Rightarrow> cli_option list \<Rightarrow> engine \<Rightarrow> system \<Rightarrow> bool" where
  "run_behind le h ps cs e s \<longleftrightarrow>
     out_bytes (output_file e) = pcap_bytes le h (map job_raw (written s)) \<and>
     reachable (Some (asked_rules cs))
       (start_system (asked_lbs cs) (asked_fps cs) (number_jobs le (filter flow_frame ps) 0)) s"

lemma asked_fps_bound:
  assumes "asked_lbs cs * asked_fps cs \<le> 2147483647" and "0 < asked_lbs cs"
  shows "asked_fps cs < 2 ^ 31"
proof -
  have "asked_fps cs \<le> asked_lbs cs * asked_fps cs" using assms(2) by simp
  then have "asked_fps cs \<le> 2147483647" using assms(1) by (rule order_trans)
  then show ?thesis by simp
qed

lemma capture_fits:
  "good_capture le h ps c \<Longrightarrow> \<forall>p \<in> set (filter flow_frame ps). flow_frame p \<and> unat (incl_len (header p)) = length (raw_data p)"
  by (auto simp: good_capture_def fits_def)

lemma main_runs:
  assumes "\<forall>c \<in> set cs. fits_option c" and "asked_lbs cs * asked_fps cs \<le> 2147483647"
    and "0 < asked_lbs cs" and "0 < asked_fps cs" and "good_capture le h ps (fs inp)" and "can_open outp"
  shows "\<exists>e s. main_program le rule_files fs can_open ([prog, inp, outp] @ concat (map render cs)) 0 (Some e) \<and>
      run_behind le h ps cs e s \<and> in_flight s = [] \<and> fps e = workers s \<and>
      (\<exists>s1. rtranclp (step_within {T} (Some (asked_rules cs)))
           (start_system (asked_lbs cs) (asked_fps cs) (number_jobs le (filter flow_frame ps) 0)) s1 \<and>
         in_flight s1 = [] \<and> results s = results s1)"
    and "main_program le rule_files fs can_open ([prog, inp, outp] @ concat (map render cs)) 0 (Some e') \<Longrightarrow>
      \<exists>s. run_behind le h ps cs e' s"
proof -
  let ?l = "asked_lbs cs" and ?f = "asked_fps cs" and ?rm = "asked_rules cs"
  note f31 = asked_fps_bound [OF assms(2,3)]
  obtain e where e: "main_setup rule_files ([prog, inp, outp] @ concat (map render cs)) = Inr (Some (inp, outp, e))"
      "ready ?l ?f ?rm e"
    using main_setup_ready [OF assms(1,2)] by blast
  obtain reader :: pcap_reader and raw :: raw_packet where True by simp
  let ?jobs = "number_jobs le (filter flow_frame ps) 0"
  obtain st where r: "readerThreadFunc le fs inp reader raw empty_file initial_stats =
      Inr (?jobs, empty_file\<lparr>out_bytes := encode_global le h\<rparr>, st)"
    using reader_of_capture [of le h ps fs inp reader raw] assms(5) by blast
  have ok: "\<forall>job \<in> set ?jobs. job_ok job" by (rule number_jobs_ok) simp
  obtain s e2 where "processFile le rule_files fs can_open e inp outp True
        (engine_after le (empty_file\<lparr>out_bytes := encode_global le h\<rparr>) st (written s) s e2)"
      "reachable (Some ?rm) (start_system ?l ?f ?jobs) s" "in_flight s = []"
      "\<exists>s1. rtranclp (step_within {T} (Some ?rm)) (start_system ?l ?f ?jobs) s1 \<and> in_flight s1 = [] \<and> results s = results s1"
    using run_exists [where can_open = can_open and fs = fs, OF assms(3,4) f31 e(2) assms(6) r ok] by blast
  moreover have "fps (engine_after le (empty_file\<lparr>out_bytes := encode_global le h\<rparr>) st (written s) s e2) = workers s"
    by (simp add: engine_after_def)
  ultimately show "\<exists>e s. main_program le rule_files fs can_open ([prog, inp, outp] @ concat (map render cs)) 0 (Some e) \<and>
      run_behind le h ps cs e s \<and> in_flight s = [] \<and> fps e = workers s \<and>
      (\<exists>s1. rtranclp (step_within {T} (Some ?rm)) (start_system ?l ?f ?jobs) s1 \<and> in_flight s1 = [] \<and> results s = results s1)"
    using main_program.Finished [OF e(1)] output_of_run [of le h st s e2] unfolding run_behind_def by blast
  show "\<exists>s. run_behind le h ps cs e' s"
    if "main_program le rule_files fs can_open ([prog, inp, outp] @ concat (map render cs)) 0 (Some e')"
  proof -
    have "processFile le rule_files fs can_open e inp outp True e'"
      using that e(1) by (auto elim: main_programE)
    then obtain reader raw jobs out st s e2 where
        "readerThreadFunc le fs inp reader raw empty_file initial_stats = Inr (jobs, out, st)"
        "reachable (Some ?rm) (start_system ?l ?f jobs) s" "e' = engine_after le out st (written s) s e2"
      using ready_cases [OF assms(3,4) f31 _ e(2)] by metis
    moreover from this(1) have "jobs = ?jobs" "out = empty_file\<lparr>out_bytes := encode_global le h\<rparr>"
      using reader_of_capture [of le h ps fs inp reader raw] assms(5) by auto
    ultimately show ?thesis using output_of_run [of le h st s e2] unfolding run_behind_def by blast
  qed
qed

text \<open>C1: the program does what it is for. Called with an input capture in the host's byte order, a
  writable output and any \<open>--block-ip\<close>, \<open>--lbs\<close> and \<open>--fps\<close> options with at least one of each tier,
  \<open>main\<close> can return 0 with an output capture that holds exactly the TCP and UDP packets of the
  input whose source address is not blocked, each as often as in the input, with its original length
  set to the captured one (other packets, such as ARP and ICMP, are never written); and whenever it
  returns 0, with whatever options and interleaving, the output has no packet from a
  blocked address and nothing that is not in the input.\<close>

theorem main_filters_capture:
  assumes "\<forall>c \<in> set cs. fits_option c" and "asked_lbs cs * asked_fps cs \<le> 2147483647"
    and "0 < asked_lbs cs" and "0 < asked_fps cs" and "good_capture le h ps (fs inp)" and "can_open outp"
  shows "((\<forall>c \<in> set cs. address_option c) \<longrightarrow>
      (\<exists>e qs. main_program le rule_files fs can_open ([prog, inp, outp] @ concat (map render cs)) 0 (Some e) \<and>
         out_bytes (output_file e) = pcap_bytes le h qs \<and>
         mset qs = filter_mset (\<lambda>p. src_ip (frame_tuple le p) \<notin> set (asked_ips cs))
           (mset (map rewritten (filter flow_frame ps))))) \<and>
    (\<forall>e. main_program le rule_files fs can_open ([prog, inp, outp] @ concat (map render cs)) 0 (Some e) \<longrightarrow>
      (\<exists>qs. out_bytes (output_file e) = pcap_bytes le h qs \<and>
         mset qs \<subseteq># mset (map rewritten (filter flow_frame ps)) \<and>
         (\<forall>q \<in> set qs. src_ip (frame_tuple le q) \<notin> set (asked_ips cs))))"
proof -
  let ?fs = "filter flow_frame ps"
  note f31 = asked_fps_bound [OF assms(2,3)] and fit = capture_fits [where c = "fs inp", OF assms(5)]
  have "\<exists>e qs. main_program le rule_files fs can_open ([prog, inp, outp] @ concat (map render cs)) 0 (Some e) \<and>
      out_bytes (output_file e) = pcap_bytes le h qs \<and>
      mset qs = filter_mset (\<lambda>p. src_ip (frame_tuple le p) \<notin> set (asked_ips cs)) (mset (map rewritten ?fs))"
    if a: "\<forall>c \<in> set cs. address_option c"
  proof -
    obtain e s where s: "main_program le rule_files fs can_open ([prog, inp, outp] @ concat (map render cs)) 0 (Some e)"
        "run_behind le h ps cs e s" "in_flight s = []"
      using main_runs(1) [where can_open = can_open and fs = fs, OF assms] by blast
    have "addresses_only (Some (asked_rules cs))"
      using address_options [OF a] asked_rules_sets [of cs] by (simp add: addresses_only_def)
    then have "mset (map job_raw (written s)) =
        filter_mset (\<lambda>p. permits (Some (asked_rules cs)) (frame_job le p 0)) (mset (map rewritten ?fs))"
      using run_written(3) [OF assms(3,4) f31 fit] s(2,3) unfolding run_behind_def by blast
    then show ?thesis
      using s(1,2) unfolding asked_rules_permit frame_tuple_def [symmetric] run_behind_def by blast
  qed
  moreover have "\<exists>qs. out_bytes (output_file e') = pcap_bytes le h qs \<and> mset qs \<subseteq># mset (map rewritten ?fs) \<and>
      (\<forall>q \<in> set qs. src_ip (frame_tuple le q) \<notin> set (asked_ips cs))"
    if m: "main_program le rule_files fs can_open ([prog, inp, outp] @ concat (map render cs)) 0 (Some e')" for e'
  proof -
    obtain s where s: "run_behind le h ps cs e' s"
      using main_runs(2) [where can_open = can_open and fs = fs, OF assms m] by blast
    have "\<forall>job \<in> set (number_jobs le ?fs 0). job_ok job" by (rule number_jobs_ok) simp
    then have p: "\<forall>j \<in> set (written s). permits (Some (asked_rules cs)) j"
      using written_permitted [OF assms(3,4) f31] s unfolding run_behind_def by blast
    have "drawn_from le (map job_raw (written s)) ?fs" "\<forall>j \<in> set (written s). job_tuple j = frame_tuple le (job_raw j)"
      using run_written(1,2) [OF assms(3,4) f31 fit] s unfolding run_behind_def by blast+
    then show ?thesis
      using s p unfolding run_behind_def asked_rules_permit drawn_from_def
      by (intro exI [of _ "map job_raw (written s)"]) simp
  qed
  ultimately show ?thesis by blast
qed

theorem main_filters_capture_witness:
  "\<exists>e. main_program True (\<lambda>_. None) (\<lambda>_. Some (pcap_bytes True sample_header [sample_raw])) (\<lambda>_. True)
       [''aegis'', ''in.pcap'', ''out.pcap'', ''--block-ip'', ''10.0.0.1''] 0 (Some e) \<and>
     out_bytes (output_file e) = pcap_bytes True sample_header [rewritten sample_raw]"
proof -
  let ?cs = "[Block_ip 0x0100000A]"
  let ?fs = "\<lambda>_ :: string. Some (pcap_bytes True sample_header [sample_raw])"
  have r: "[''aegis'', ''in.pcap'', ''out.pcap''] @ concat (map render ?cs) =
      [''aegis'', ''in.pcap'', ''out.pcap'', ''--block-ip'', ''10.0.0.1'']"
    by code_simp
  have a: "asked_lbs ?cs = 2" "asked_fps ?cs = 2" "asked_ips ?cs = [0x0100000A]"
    by (simp_all add: asked_lbs_def asked_fps_def asked_ips_def)
  have ip: "src_ip (frame_tuple True (rewritten sample_raw)) = 0x6401A8C0"
    by (simp add: frame_tuple_def frame_job_def rewritten_def sample_raw_def sample_frame_def Let_def) code_simp
  obtain e qs where e: "main_program True (\<lambda>_. None) ?fs (\<lambda>_. True)
         ([''aegis'', ''in.pcap'', ''out.pcap''] @ concat (map render ?cs)) 0 (Some e)"
      "out_bytes (output_file e) = pcap_bytes True sample_header qs" "mset qs = {#rewritten sample_raw#}"
    using main_filters_capture [of ?cs True sample_header "[sample_raw]" ?fs "''in.pcap''" "\<lambda>_. True" "''out.pcap''"
        "\<lambda>_. None" "''aegis''"] sample_capture sample_raw_flow ip
    unfolding a by auto
  then show ?thesis unfolding r by auto
qed

end
