(* ===== verification/Program_Verdicts.thy ===== *)
theory Program_Verdicts
  imports Process_File Flow_Runs
begin

text \<open>
  What the rules of the command line (\<open>src/main.cpp\<close>) mean for the files: the theorems of
  \<open>Flow_Runs\<close> on the packets of the input and output captures instead of the jobs of the threads.
\<close>

section \<open>Packets and their jobs\<close>

lemma number_jobs_frame:
  "j \<in> set (number_jobs le raws i) \<Longrightarrow> \<exists>raw \<in> set raws. \<exists>n. j = frame_job le raw n"
  by (induction raws arbitrary: i) auto

text \<open>What a packet says of its flow does not depend on its number, and is not changed on its way.\<close>

lemma frame_job_same:
  "job_class (frame_job le (job_raw (frame_job le raw i)) n) = job_class (frame_job le raw i)"
  "job_tuple (frame_job le (job_raw (frame_job le raw i)) n) = job_tuple (frame_job le raw i)"
  "job_class (frame_job le (rewritten raw) n) = job_class (frame_job le raw i)"
  "job_tuple (frame_job le (rewritten raw) n) = job_tuple (frame_job le raw i)"
  by (simp_all add: job_class_def payload_of_def frame_job_def job_raw_def rewritten_def Let_def)

lemma verdict_same:
  "job_class i = job_class j \<Longrightarrow> job_tuple i = job_tuple j \<Longrightarrow>
   condemned rules i = condemned rules j \<and> excused rules i = excused rules j"
  by (simp add: condemned_def excused_def split: option.split)

lemma condemned_same:
  "condemned rules (frame_job le (rewritten raw) 0) = condemned rules (frame_job le raw 0)"
  "excused rules (frame_job le (rewritten raw) 0) = excused rules (frame_job le raw 0)"
  using verdict_same [OF frame_job_same(3,4)] by blast+

lemma frame_tuple_rewritten: "frame_tuple le (rewritten raw) = frame_tuple le raw"
  unfolding frame_tuple_def by (rule frame_job_same(4))

lemma number_jobs_same:
  assumes "j \<in> set (number_jobs le raws i)"
  shows "condemned rules j = condemned rules (frame_job le (job_raw j) 0)"
    and "excused rules j = excused rules (frame_job le (job_raw j) 0)"
  using number_jobs_frame [OF assms] verdict_same [OF frame_job_same(1,2)] by blast+

text \<open>A flow of the capture, as jobs and as packets.\<close>

definition flow_packets :: "bool \<Rightarrow> five_tuple \<Rightarrow> raw_packet list \<Rightarrow> raw_packet list" where
  "flow_packets le k ps = filter (\<lambda>p. flow_frame p \<and> frame_tuple le p = k) ps"

lemma flow_jobs:
  assumes "good_capture le h ps c"
  shows "map job_raw (of_flow k (number_jobs le (filter flow_frame ps) 0)) = map rewritten (flow_packets le k ps)"
proof -
  let ?jobs = "number_jobs le (filter flow_frame ps) 0"
  have raw: "map job_raw ?jobs = map rewritten (filter flow_frame ps)"
    using capture_fits [OF assms] by (intro number_jobs_raw) simp
  have "\<forall>j \<in> set ?jobs. job_tuple j = frame_tuple le (job_raw j)" using number_jobs_tuple by blast
  then have "map job_raw (of_flow k ?jobs) = filter (\<lambda>p. frame_tuple le p = k) (map rewritten (filter flow_frame ps))"
    using of_flow_raw raw by metis
  also have "\<dots> = map rewritten (flow_packets le k ps)"
    by (simp add: filter_map o_def frame_tuple_rewritten flow_packets_def conj_commute)
  finally show ?thesis .
qed

lemma filter_job_raw:
  assumes "set js \<subseteq> set (number_jobs le raws i)"
  shows "map job_raw (filter (\<lambda>j. \<not> condemned rules j) js) =
    filter (\<lambda>p. \<not> condemned rules (frame_job le p 0)) (map job_raw js)"
  using assms number_jobs_same(1) by (induction js) auto

text \<open>What is written of a flow, as packets.\<close>

lemma flow_held_back:
  assumes "0 < l" and "0 < f" and "f < 2 ^ 31" and "good_capture le h ps c"
    and "reachable rules (start_system l f (number_jobs le (filter flow_frame ps) 0)) s"
    and "flow_packets le k ps = pre @ post" and "\<forall>p \<in> set pre. \<not> excused rules (frame_job le p 0)"
  shows "subseq (map job_raw (of_flow k (written s)))
    (map rewritten (filter (\<lambda>p. \<not> condemned rules (frame_job le p 0)) pre @ post))"
proof -
  let ?jobs = "number_jobs le (filter flow_frame ps) 0"
  let ?js = "take (length pre) (of_flow k ?jobs)" and ?rest = "drop (length pre) (of_flow k ?jobs)"
  have ok: "\<forall>job \<in> set ?jobs. job_ok job" by (rule number_jobs_ok) simp
  have raw: "map job_raw ?js = map rewritten pre" "map job_raw ?rest = map rewritten post"
    using flow_jobs [OF assms(4), of k] assms(6) by (simp_all flip: take_map drop_map)
  have sub: "set ?js \<subseteq> set ?jobs" using set_take_subset [of "length pre"] by (fastforce simp: of_flow_def)
  have "\<not> excused rules j" if j: "j \<in> set ?js" for j
  proof -
    have "job_raw j \<in> rewritten ` set pre" using j raw(1) by (metis imageI set_map)
    then have "\<not> excused rules (frame_job le (job_raw j) 0)" using assms(7) condemned_same(2) by auto
    then show ?thesis using j sub number_jobs_same(2) by blast
  qed
  then have "subseq (of_flow k (written s)) (filter (\<lambda>j. \<not> condemned rules j) ?js @ ?rest)"
    by (intro held_written [OF assms(1-3) ok assms(5)]) simp_all
  then have "subseq (map job_raw (of_flow k (written s)))
      (map job_raw (filter (\<lambda>j. \<not> condemned rules j) ?js) @ map job_raw ?rest)"
    by (metis subseq_map map_append)
  then show ?thesis
    unfolding filter_job_raw [OF sub] raw by (simp add: filter_map o_def condemned_same(1))
qed

section \<open>Names on the command line\<close>

abbreviation cli_rules :: "cli_option list \<Rightarrow> rule_manager option" where
  "cli_rules cs \<equiv> Some (asked_rules cs)"

abbreviation command :: "string \<Rightarrow> string \<Rightarrow> string \<Rightarrow> cli_option list \<Rightarrow> string list" where
  "command prog inp outp cs \<equiv> [prog, inp, outp] @ concat (map render cs)"

text \<open>What the rules of the command line block.\<close>

lemma asked_objects:
  "objects (Some (asked_rules cs)) k (app, name) \<longleftrightarrow>
     src_ip k \<in> set (asked_ips cs) \<or> app \<noteq> UNKNOWN \<and> app \<in> set (asked_apps cs) \<or> isDomainBlocked (asked_rules cs) name"
  by (simp add: objects_def shouldBlock_def isIPBlocked_def isPortBlocked_def isAppBlocked_def asked_rules_sets)

text \<open>C2: what \<open>--block-app\<close> and \<open>--block-domain\<close> do. Called on a capture in the host's byte order with
  a writable output and any options with at least one of each tier, \<open>main\<close> can return 0 having
  written every packet, in order, of each flow that the options say nothing against. And whenever
  it returns 0, on whatever interleaving, what names a blocked application or domain is not in
  the output, as long as the flow has not named an allowed one first: split the packets
  of a flow anywhere such that none of the first part names something allowed; the output has of
  the first part only packets that name nothing.\<close>

theorem main_filters_names:
  assumes "\<forall>c \<in> set cs. fits_option c" and "asked_lbs cs * asked_fps cs \<le> 2147483647"
    and "0 < asked_lbs cs" and "0 < asked_fps cs" and "good_capture le h ps (fs inp)" and "can_open outp"
  shows "(\<exists>e qs. main_program le rule_files fs can_open (command prog inp outp cs) 0 (Some e) \<and> out_bytes (output_file e) = pcap_bytes le h qs \<and>
      (\<forall>k. \<not> objects (cli_rules cs) k (UNKNOWN, []) \<and> (\<forall>p \<in> set (flow_packets le k ps). \<not> condemned (cli_rules cs) (frame_job le p 0)) \<longrightarrow>
         filter (\<lambda>q. frame_tuple le q = k) qs = map rewritten (flow_packets le k ps))) \<and>
    (\<forall>e. main_program le rule_files fs can_open (command prog inp outp cs) 0 (Some e) \<longrightarrow>
      (\<exists>qs. out_bytes (output_file e) = pcap_bytes le h qs \<and>
         (\<forall>k pre post. flow_packets le k ps = pre @ post \<and> (\<forall>p \<in> set pre. \<not> excused (cli_rules cs) (frame_job le p 0)) \<longrightarrow>
            subseq (filter (\<lambda>q. frame_tuple le q = k) qs)
              (map rewritten (filter (\<lambda>p. \<not> condemned (cli_rules cs) (frame_job le p 0)) pre @ post)))))"
proof -
  let ?fs = "filter flow_frame ps"
  let ?jobs = "number_jobs le ?fs 0"
  note f31 = asked_fps_bound [OF assms(2,3)] and fit = capture_fits [where c = "fs inp", OF assms(5)]
  have ok: "\<forall>job \<in> set ?jobs. job_ok job" by (rule number_jobs_ok) simp
  have out: "filter (\<lambda>q. frame_tuple le q = k) (map job_raw (written s)) = map job_raw (of_flow k (written s))"
    if "run_behind le h ps cs e s" for e s k
    using that run_written(2) [OF assms(3,4) f31 fit] of_flow_raw unfolding run_behind_def by metis
  obtain e s where s: "main_program le rule_files fs can_open (command prog inp outp cs) 0 (Some e)" "run_behind le h ps cs e s" "in_flight s = []"
    using main_runs(1) [where can_open = can_open and fs = fs, OF assms(1-6)] by blast
  have "filter (\<lambda>q. frame_tuple le q = k) (map job_raw (written s)) = map rewritten (flow_packets le k ps)"
    if k: "\<not> objects (cli_rules cs) k (UNKNOWN, [])" "\<forall>p \<in> set (flow_packets le k ps). \<not> condemned (cli_rules cs) (frame_job le p 0)" for k
  proof -
    have "\<not> condemned (cli_rules cs) j" if j: "j \<in> set (of_flow k ?jobs)" for j
    proof -
      have "job_raw j \<in> set (map rewritten (flow_packets le k ps))"
        using j flow_jobs [OF assms(5), of k] by (metis imageI set_map)
      then have "\<not> condemned (cli_rules cs) (frame_job le (job_raw j) 0)" using k(2) condemned_same(1) by auto
      then show ?thesis using j number_jobs_same(1) [of j le ?fs 0] by (simp add: of_flow_def)
    qed
    then have "of_flow k (written s) = of_flow k ?jobs"
      using untouched(2) [OF assms(3,4) f31 ok] s(2,3) k(1) unfolding run_behind_def by blast
    then show ?thesis using out [OF s(2)] flow_jobs [OF assms(5)] by simp
  qed
  then have 1: "\<exists>e qs. main_program le rule_files fs can_open (command prog inp outp cs) 0 (Some e) \<and> out_bytes (output_file e) = pcap_bytes le h qs \<and>
      (\<forall>k. \<not> objects (cli_rules cs) k (UNKNOWN, []) \<and> (\<forall>p \<in> set (flow_packets le k ps). \<not> condemned (cli_rules cs) (frame_job le p 0)) \<longrightarrow>
         filter (\<lambda>q. frame_tuple le q = k) qs = map rewritten (flow_packets le k ps))"
    using s(1,2) unfolding run_behind_def by blast
  have "\<exists>qs. out_bytes (output_file e) = pcap_bytes le h qs \<and>
      (\<forall>k pre post. flow_packets le k ps = pre @ post \<and> (\<forall>p \<in> set pre. \<not> excused (cli_rules cs) (frame_job le p 0)) \<longrightarrow>
         subseq (filter (\<lambda>q. frame_tuple le q = k) qs)
           (map rewritten (filter (\<lambda>p. \<not> condemned (cli_rules cs) (frame_job le p 0)) pre @ post)))"
    if m: "main_program le rule_files fs can_open (command prog inp outp cs) 0 (Some e)" for e
  proof -
    obtain s where s: "run_behind le h ps cs e s"
      using main_runs(2) [where can_open = can_open and fs = fs, OF assms(1-6)] m by blast
    have "subseq (filter (\<lambda>q. frame_tuple le q = k) (map job_raw (written s)))
        (map rewritten (filter (\<lambda>p. \<not> condemned (cli_rules cs) (frame_job le p 0)) pre @ post))"
      if k: "flow_packets le k ps = pre @ post" "\<forall>p \<in> set pre. \<not> excused (cli_rules cs) (frame_job le p 0)" for k pre post
      unfolding out [OF s]
      using s k unfolding run_behind_def by (intro flow_held_back [OF assms(3,4) f31 assms(5)]) simp_all
    then show ?thesis using s unfolding run_behind_def by blast
  qed
  with 1 show ?thesis by blast
qed

text \<open>A capture of one ClientHello for \<open>a.org\<close>.\<close>

definition hello_raw :: raw_packet where
  "hello_raw =
     \<lparr>header = \<lparr>ts_sec = 1, ts_usec = 2, incl_len = word_of_nat (54 + length (hello_bytes sample_hello)),
        orig_len = word_of_nat (54 + length (hello_bytes sample_hello))\<rparr>,
      raw_data = sample_frame 0x18 (hello_bytes sample_hello)\<rparr>"

lemma hello_length: "length (hello_bytes sample_hello) = 75"
  by (simp add: hello_bytes_def sample_hello_def hello_body_def all_extensions_def sni_data_def handshake_header_def)

lemma hello_capture: "good_capture True sample_header [hello_raw] (Some (pcap_bytes True sample_header [hello_raw]))"
  by (simp add: good_capture_def sample_header_def fits_def hello_raw_def sample_frame_layout hello_length)

lemma hello_flow: "flow_packets True (frame_tuple True hello_raw) [hello_raw] = [hello_raw]"
  by (simp add: flow_packets_def flow_frame_def hello_raw_def sample_frame_layout)

lemma hello_raw_class: "job_class (frame_job True hello_raw 0) = Some (sniToAppType ''a.org'', ''a.org'')"
proof -
  have t: "dst_port (job_tuple (frame_job True hello_raw 0)) = 443"
    by (simp add: frame_job_def Let_def hello_raw_def sample_frame_layout sample_frame_nth be16_def)
  have p: "payload_of (frame_job True hello_raw 0) = hello_bytes sample_hello"
      "payload_length (frame_job True hello_raw 0) = 75"
    by (simp_all add: payload_of_def view_def frame_job_def Let_def hello_raw_def sample_frame_layout hello_length)
       (simp add: sample_frame_def hello_length)
  show ?thesis
    using hello_found t by (simp add: job_class_def p payload_class_def tls_name_def found_def)
qed

theorem main_filters_names_witness:
  "\<exists>e qs. main_program True (\<lambda>_. None) (\<lambda>_. Some (pcap_bytes True sample_header [hello_raw])) (\<lambda>_. True)
       [''aegis'', ''in.pcap'', ''out.pcap'', ''--block-domain'', ''a.org''] 0 (Some e) \<and>
     out_bytes (output_file e) = pcap_bytes True sample_header qs \<and>
     filter (\<lambda>q. frame_tuple True q = frame_tuple True hello_raw) qs = []"
proof -
  let ?cs = "[Block_domain ''a.org'']" and ?k = "frame_tuple True hello_raw"
  let ?fs = "\<lambda>_ :: string. Some (pcap_bytes True sample_header [hello_raw])"
  have r: "command ''aegis'' ''in.pcap'' ''out.pcap'' ?cs =
      [''aegis'', ''in.pcap'', ''out.pcap'', ''--block-domain'', ''a.org'']" by simp
  have a: "asked_lbs ?cs = 2" "asked_fps ?cs = 2" by (simp_all add: asked_lbs_def asked_fps_def)
  have "isDomainBlocked (asked_rules ?cs) ''a.org''" by code_simp
  then have c: "condemned (cli_rules ?cs) (frame_job True hello_raw 0)" "\<not> excused (cli_rules ?cs) (frame_job True hello_raw 0)"
    by (simp_all add: condemned_def excused_def hello_raw_class asked_objects)
  have ok: "\<forall>c \<in> set ?cs. fits_option c" by simp
  note m = main_filters_names [of ?cs True sample_header "[hello_raw]" ?fs "''in.pcap''" "\<lambda>_. True" "''out.pcap''"
      "\<lambda>_. None" "''aegis''", OF ok _ _ _ hello_capture, unfolded a r]
  obtain e where e: "main_program True (\<lambda>_. None) ?fs (\<lambda>_. True)
      [''aegis'', ''in.pcap'', ''out.pcap'', ''--block-domain'', ''a.org''] 0 (Some e)"
    using m by auto
  then obtain qs where "out_bytes (output_file e) = pcap_bytes True sample_header qs"
      "\<forall>k pre post. flow_packets True k [hello_raw] = pre @ post \<and>
         (\<forall>p \<in> set pre. \<not> excused (cli_rules ?cs) (frame_job True p 0)) \<longrightarrow>
         subseq (filter (\<lambda>q. frame_tuple True q = k) qs)
           (map rewritten (filter (\<lambda>p. \<not> condemned (cli_rules ?cs) (frame_job True p 0)) pre @ post))"
    using m by auto
  moreover from this(2) [rule_format, of ?k "[hello_raw]" "[]"] have "subseq (filter (\<lambda>q. frame_tuple True q = ?k) qs) []"
    using hello_flow c by simp
  then have "filter (\<lambda>q. frame_tuple True q = ?k) qs = []" by (rule list_emb_Nil2)
  ultimately show ?thesis using e by auto
qed

end
