(* ===== verification/Console_Text.thy ===== *)
theory Console_Text
  imports Aegis_Prelude "HOL-Library.Log_Nat" Complex_Main
begin

text \<open>
  What the reports need of the C++ streams and of \<open>double\<close>: field widths, the box drawing
  characters as the UTF-8 bytes of the source, and the IEEE arithmetic behind a percentage,
  rounded to the nearest double with ties to even, and its decimal output.
\<close>

section \<open>Fields and frames\<close>

text \<open>\<open>std::setw\<close> with \<open>std::right\<close> (the default) and \<open>std::left\<close>: fill up, never cut.\<close>

definition setw_right :: "nat \<Rightarrow> string \<Rightarrow> string" where
  "setw_right n s = replicate (n - length s) CHR '' '' @ s"

definition setw_left :: "nat \<Rightarrow> string \<Rightarrow> string" where
  "setw_left n s = s @ replicate (n - length s) CHR '' ''"

definition spaces :: "nat \<Rightarrow> string" where
  "spaces n = replicate n CHR '' ''"

definition endl :: string where
  "endl = [CHR 0x0A]"

definition box :: "char \<Rightarrow> string" where
  "box c = [CHR 0xE2, CHR 0x95, c]"

definition box_v :: string where "box_v = box CHR 0x91"

text \<open>The horizontal lines: 62 bars between two corners.\<close>

definition frame :: "char \<Rightarrow> char \<Rightarrow> string" where
  "frame l r = box l @ concat (replicate 62 (box CHR 0x90)) @ box r @ endl"

definition frame_top :: string where "frame_top = frame CHR 0x94 CHR 0x97"
definition frame_mid :: string where "frame_mid = frame CHR 0xA0 CHR 0xA3"
definition frame_end :: string where "frame_end = frame CHR 0x9A CHR 0x9D"

definition line :: "string \<Rightarrow> string" where
  "line s = box_v @ s @ box_v @ endl"

text \<open>The width on a terminal: a continuation byte of UTF-8 takes no column of its own.\<close>

definition columns :: "string \<Rightarrow> nat" where
  "columns s = length (filter (\<lambda>c. (of_char c :: nat) div 64 \<noteq> 2) s)"

lemma columns_simps [simp]:
  "columns [] = 0" "columns (c # s) = (if (of_char c :: nat) div 64 \<noteq> 2 then Suc (columns s) else columns s)"
  by (simp_all add: columns_def)

lemma columns_append [simp]: "columns (s @ t) = columns s + columns t"
  by (simp add: columns_def)

lemma columns_replicate [simp]:
  "columns (replicate n c) = (if (of_char c :: nat) div 64 \<noteq> 2 then n else 0)"
  by (simp add: columns_def)

lemma columns_box [simp]: "(of_char c :: nat) div 64 = 2 \<Longrightarrow> columns (box c) = 1"
  by (simp add: box_def)

lemma columns_frame: "(of_char l :: nat) div 64 = 2 \<Longrightarrow> (of_char r :: nat) div 64 = 2 \<Longrightarrow> columns (frame l r) = 65"
proof -
  have "columns (concat (replicate n (box CHR 0x90))) = n" for n
    by (induction n) simp_all
  then show "(of_char l :: nat) div 64 = 2 \<Longrightarrow> (of_char r :: nat) div 64 = 2 \<Longrightarrow> columns (frame l r) = 65"
    by (simp add: frame_def endl_def)
qed

lemma columns_dec: "columns (dec n) = length (dec n)"
proof (induction n rule: dec.induct)
  case (1 n)
  have d: "columns [char_of (48 + k :: nat)] = 1" if "k < 10" for k using that by simp
  show ?case
    using 1 d [of n] d [of "n mod 10"] by (subst (1 2) dec.simps) simp
qed

section \<open>Doubles\<close>

definition round_even :: "rat \<Rightarrow> int" where
  "round_even q =
     (let n = \<lfloor>q\<rfloor>; d = q - of_int n
      in if d < 1/2 \<or> d = 1/2 \<and> even n then n else n + 1)"

text \<open>The exponent of the last of the 53 bits of a positive number.\<close>

definition last_bit :: "rat \<Rightarrow> int" where
  "last_bit q =
     (let (a, b) = quotient_of q; e = bitlen a - bitlen b - 53
      in if q / 2 powi e < 2 ^ 53 then e else e + 1)"

text \<open>The nearest double, for numbers that are not so small or so large that the exponent ends.\<close>

definition rnd :: "rat \<Rightarrow> rat" where
  "rnd q = (if q = 0 then 0 else of_int (round_even (q / 2 powi last_bit q)) * 2 powi last_bit q)"

text \<open>\<open>100.0 * n / tot\<close>, both integers converted to \<open>double\<close>.\<close>

definition percent :: "nat \<Rightarrow> nat \<Rightarrow> rat" where
  "percent n tot = rnd (rnd (100 * rnd (of_nat n)) / rnd (of_nat tot))"

text \<open>\<open>std::fixed << std::setprecision(p)\<close> of a number that is not negative.\<close>

definition fixed :: "nat \<Rightarrow> rat \<Rightarrow> string" where
  "fixed p q =
     (let n = nat (round_even (q * 10 ^ p)); frac = dec (n mod 10 ^ p)
      in dec (n div 10 ^ p) @ CHR ''.'' # replicate (p - length frac) CHR ''0'' @ frac)"

lemma round_even_int [simp]: "round_even (of_int n) = n"
  by (simp add: round_even_def)

lemma round_even_le: "q \<le> of_int n \<Longrightarrow> round_even q \<le> n"
proof -
  assume "q \<le> of_int n"
  then consider "q = of_int n" | "\<lfloor>q\<rfloor> < n" by (metis floor_less_iff order_le_less)
  then show "round_even q \<le> n" by cases (auto simp: round_even_def Let_def)
qed

lemma round_even_ge: "of_int n \<le> q \<Longrightarrow> n \<le> round_even q"
proof -
  assume "of_int n \<le> q"
  then have "n \<le> \<lfloor>q\<rfloor>" by (simp add: le_floor_iff)
  then show "n \<le> round_even q" by (auto simp: round_even_def Let_def)
qed

text \<open>The mantissa has 53 bits.\<close>

lemma bitlen_powi:
  assumes "0 < x"
  shows "2 powi (bitlen x - 1) \<le> (of_int x :: rat)" and "(of_int x :: rat) < 2 powi bitlen x"
proof -
  have 1: "1 \<le> bitlen x" using assms bitlen_eq_zero_iff [of x] bitlen_nonneg [of x] by simp
  have b: "2 ^ nat (bitlen x - 1) \<le> x" "x < 2 ^ nat (bitlen x)" using bitlen_bounds [OF assms] by auto
  have "(of_int (2 ^ nat (bitlen x - 1)) :: rat) \<le> of_int x" using b(1) by (simp only: of_int_le_iff)
  then show "2 powi (bitlen x - 1) \<le> (of_int x :: rat)" using 1 by (simp add: power_int_def)
  have "(of_int x :: rat) < of_int (2 ^ nat (bitlen x))" using b(2) by (simp only: of_int_less_iff)
  then show "(of_int x :: rat) < 2 powi bitlen x" using 1 by (simp add: power_int_def)
qed

lemma last_bit_bounds:
  assumes "0 < q"
  shows "2 ^ 52 \<le> q / 2 powi last_bit q" and "q / 2 powi last_bit q < 2 ^ 53"
proof -
  obtain a b where ab: "quotient_of q = (a, b)" by fastforce
  have q: "q = of_int a / of_int b" "0 < b" using quotient_of_div [OF ab] quotient_of_denom_pos [OF ab] by simp_all
  then have a: "0 < a" using assms by (simp add: zero_less_divide_iff)
  let ?e = "bitlen a - bitlen b - 53"
  have p: "2 powi (i + j) = (2 powi i * 2 powi j :: rat)" for i j :: int by (simp add: power_int_add)
  have pa: "(2 powi (bitlen a - 1) :: rat) = 2 powi ?e * 2 ^ 52 * 2 powi bitlen b"
    using p [of "?e + 52" "bitlen b"] p [of ?e 52] by (simp add: algebra_simps)
  have pb: "(2 powi bitlen a :: rat) = 2 powi ?e * 2 ^ 54 * 2 powi (bitlen b - 1)"
    using p [of "?e + 54" "bitlen b - 1"] p [of ?e 54] by (simp add: algebra_simps)
  have e: "(0 :: rat) < 2 powi ?e" by simp
  have b: "(0 :: rat) < of_int b" using q(2) by simp
  have "2 powi ?e * 2 ^ 52 * of_int b \<le> 2 powi ?e * 2 ^ 52 * (2 powi bitlen b :: rat)"
    using bitlen_powi(2) [OF q(2)] e by (intro mult_left_mono) auto
  also have "\<dots> \<le> of_int a" using bitlen_powi(1) [OF a] unfolding pa .
  finally have low: "2 ^ 52 \<le> q / 2 powi ?e" using b e by (simp add: q(1) field_simps)
  have "of_int a < 2 powi ?e * 2 ^ 54 * (2 powi (bitlen b - 1) :: rat)" using bitlen_powi(2) [OF a] unfolding pb .
  also have "\<dots> \<le> 2 powi ?e * 2 ^ 54 * of_int b"
    using bitlen_powi(1) [OF q(2)] e by (intro mult_left_mono) auto
  finally have high: "q / 2 powi ?e < 2 ^ 54" using b e by (simp add: q(1) field_simps)
  have "q / 2 powi (?e + 1) = q / 2 powi ?e / 2" using p [of ?e 1] by simp
  then show "2 ^ 52 \<le> q / 2 powi last_bit q" "q / 2 powi last_bit q < 2 ^ 53"
    using low high by (auto simp: last_bit_def ab Let_def)
qed

text \<open>An integer of at most 53 bits is a double, and rounding does not cross it.\<close>

lemma last_bit_int:
  assumes "0 < q" and "q < 2 ^ 53"
  shows "last_bit q \<le> 0"
proof (rule ccontr)
  assume "\<not> last_bit q \<le> 0"
  then have "(2 powi 1 :: rat) \<le> 2 powi last_bit q" by (intro power_int_increasing) auto
  then have "2 ^ 52 * 2 \<le> (2 ^ 52 * 2 powi last_bit q :: rat)" by simp
  also have "\<dots> \<le> q" using last_bit_bounds(1) [OF assms(1)] by (simp add: field_simps)
  finally show False using assms(2) by simp
qed

lemma int_over_bit: "e \<le> 0 \<Longrightarrow> (of_int n :: rat) / 2 powi e = of_int (n * 2 ^ nat (- e))"
  by (simp add: power_int_def divide_simps)

lemma rnd_le:
  assumes "0 \<le> q" and "q \<le> of_int n" and "n < 2 ^ 53"
  shows "rnd q \<le> of_int n"
proof (cases "q = 0")
  case False
  then have q: "0 < q" using assms(1) by simp
  have "(of_int n :: rat) < of_int (2 ^ 53)" using assms(3) by (simp only: of_int_less_iff)
  then have e: "last_bit q \<le> 0" using assms(2) q by (intro last_bit_int) auto
  have "q / 2 powi last_bit q \<le> of_int n / 2 powi last_bit q" using assms(2) by (intro divide_right_mono) auto
  then have "round_even (q / 2 powi last_bit q) \<le> n * 2 ^ nat (- last_bit q)"
    unfolding int_over_bit [OF e] by (rule round_even_le)
  then have "(of_int (round_even (q / 2 powi last_bit q)) :: rat) \<le> of_int n / 2 powi last_bit q"
    unfolding int_over_bit [OF e] by (simp only: of_int_le_iff)
  then show ?thesis using False by (simp add: rnd_def field_simps)
qed (use assms in \<open>simp add: rnd_def\<close>)

lemma rnd_ge_0: "0 \<le> q \<Longrightarrow> 0 \<le> rnd q"
  using round_even_ge [of 0 "q / 2 powi last_bit q"] by (auto simp: rnd_def)

lemma rnd_int:
  assumes "0 \<le> n" and "n < 2 ^ 53"
  shows "rnd (of_int n) = of_int n"
proof (cases "n = 0")
  case False
  then have "(0 :: rat) < of_int n" using assms(1) by simp
  moreover have "(of_int n :: rat) < of_int (2 ^ 53)" using assms(2) by (simp only: of_int_less_iff)
  ultimately have e: "last_bit (of_int n) \<le> 0" by (intro last_bit_int) auto
  have "(of_int (round_even (of_int n / 2 powi last_bit (of_int n))) :: rat) = of_int n / 2 powi last_bit (of_int n)"
    unfolding int_over_bit [OF e] round_even_int ..
  then show ?thesis using False by (simp add: rnd_def)
qed (simp add: rnd_def)

text \<open>A percentage of a count that fits is a number from 0 to 100.\<close>

lemma percent_bounds:
  assumes "n \<le> t" and "0 < t" and "100 * t < 2 ^ 53"
  shows "0 \<le> percent n t" and "percent n t \<le> 100"
proof -
  have r: "rnd (of_nat k) = of_nat k" if "k < 2 ^ 53" for k
  proof -
    have "int k < 2 ^ 53" using that by (metis of_nat_less_numeral_power_cancel_iff)
    then show ?thesis using rnd_int [of "int k"] by simp
  qed
  have "percent n t = rnd (of_nat (100 * n) / of_nat t)"
    using assms r [of n] r [of t] r [of "100 * n"] by (simp add: percent_def)
  moreover have "(of_nat (100 * n) / of_nat t :: rat) \<le> of_int 100"
  proof -
    have "(of_nat (100 * n) :: rat) \<le> of_nat (100 * t)" using assms(1) by (simp only: of_nat_le_iff)
    then show ?thesis using assms(2) by (simp add: divide_le_eq)
  qed
  ultimately show "0 \<le> percent n t" "percent n t \<le> 100"
    using rnd_le [of "of_nat (100 * n) / of_nat t" 100] rnd_ge_0 [of "of_nat (100 * n) / of_nat t"] by simp_all
qed

end
