(* ===== verification/Reports.thy ===== *)
theory Reports
  imports Dpi_Engine Console_Text
begin

text \<open>
  The texts the program prints: the report of the engine (\<open>src/dpi_engine.cpp\<close>), the classification
  report of the workers (\<open>src/fast_path.cpp\<close>), the report of the connection table
  (\<open>src/connection_tracker.cpp\<close>), the live status, the banner and the usage text. A row is
  built from the same pieces as in the source, with runs of spaces counted.
\<close>

section \<open>The engine\<close>

text \<open>A number in the report of the engine.\<close>

definition count_row :: "string \<Rightarrow> nat \<Rightarrow> string" where
  "count_row label n = line (label @ setw_right 12 (dec n) @ spaces 23)"

text \<open>\<open>fp_manager_\<close> and \<open>lb_manager_\<close> are made together by \<open>initialize\<close>.\<close>

definition drop_rate_row :: "dpi_stats \<Rightarrow> string" where
  "drop_rate_row st =
     (if total_packets st > 0
      then line (''   Drop Rate:          '' @
             setw_right 11 (fixed 2 (percent (unat (dropped_packets st)) (unat (total_packets st)))) @
             ''%'' @ spaces 23)
      else [])"

definition lb_rows :: "engine \<Rightarrow> string" where
  "lb_rows e =
     (case lb_mgr e of None \<Rightarrow> []
      | Some lbm \<Rightarrow>
          let (received, dispatched) = lb_getAggregatedStats lbm
          in frame_mid @ line ('' LOAD BALANCER STATISTICS'' @ spaces 37) @
             count_row ''   LB Received:        '' (unat received) @
             count_row ''   LB Dispatched:      '' (unat dispatched))"

definition fp_rows :: "engine \<Rightarrow> string" where
  "fp_rows e =
     (if lb_mgr e = None then []
      else
        let st = fp_getAggregatedStats (fps e)
        in frame_mid @ line ('' FAST PATH STATISTICS'' @ spaces 41) @
           count_row ''   FP Processed:       '' (unat (total_processed st)) @
           count_row ''   FP Forwarded:       '' (unat (total_forwarded st)) @
           count_row ''   FP Dropped:         '' (unat (total_dropped st)) @
           count_row ''   Active Connections: '' (unat (total_connections st)))"

definition rule_rows :: "engine \<Rightarrow> string" where
  "rule_rows e =
     (case rule_mgr e of None \<Rightarrow> []
      | Some rm \<Rightarrow>
          let st = rule_getStats rm
          in frame_mid @ line ('' BLOCKING RULES'' @ spaces 47) @
             count_row ''   Blocked IPs:        '' (n_blocked_ips st) @
             count_row ''   Blocked Apps:       '' (n_blocked_apps st) @
             count_row ''   Blocked Domains:    '' (n_blocked_domains st) @
             count_row ''   Blocked Ports:      '' (n_blocked_ports st))"

definition generateReport :: "engine \<Rightarrow> string" where
  "generateReport e =
     endl @ frame_top @
     line (spaces 15 @ ''AEGIS ENGINE STATISTICS'' @ spaces 24) @ frame_mid @
     line ('' PACKET STATISTICS'' @ spaces 44) @
     count_row ''   Total Packets:      '' (unat (total_packets (stats e))) @
     count_row ''   Total Bytes:        '' (unat (total_bytes (stats e))) @
     count_row ''   TCP Packets:        '' (unat (tcp_packets (stats e))) @
     count_row ''   UDP Packets:        '' (unat (udp_packets (stats e))) @ frame_mid @
     line ('' FILTERING STATISTICS'' @ spaces 41) @
     count_row ''   Forwarded:          '' (unat (forwarded_packets (stats e))) @
     count_row ''   Dropped/Blocked:    '' (unat (dropped_packets (stats e))) @
     drop_rate_row (stats e) @ lb_rows e @ fp_rows e @ rule_rows e @ frame_end"

definition printStatus :: "engine \<Rightarrow> string" where
  "printStatus e =
     endl @ ''--- Live Status ---'' @ endl @
     ''Packets: '' @ dec (unat (total_packets (stats e))) @
     '' | Forwarded: '' @ dec (unat (forwarded_packets (stats e))) @
     '' | Dropped: '' @ dec (unat (dropped_packets (stats e))) @ endl @
     (if lb_mgr e = None then []
      else ''Connections: '' @ dec (unat (total_connections (fp_getAggregatedStats (fps e)))) @ endl)"

text \<open>The banner of the constructor, which multiplies the two numbers as \<open>initialize\<close> does.\<close>

definition dec_int :: "int \<Rightarrow> string" where
  "dec_int i = (if i < 0 then CHR ''-'' # dec (nat (- i)) else dec (nat i))"

definition banner :: "config \<Rightarrow> string res" where
  "banner c =
     andThen (int_mult (num_load_balancers c) (cfg_fps_per_lb c)) (\<lambda>total_fps.
     Inr (endl @ frame_top @
       line (spaces 20 @ ''AEGIS DPI ENGINE'' @ spaces 26) @
       line (spaces 11 @ ''High-Performance Deep Packet Inspection'' @ spaces 12) @ frame_mid @
       line ('' Configuration:'' @ spaces 47) @
       line (''   Load Balancers:    '' @ setw_right 3 (dec_int (num_load_balancers c)) @ spaces 39) @
       line (''   FPs per LB:        '' @ setw_right 3 (dec_int (cfg_fps_per_lb c)) @ spaces 39) @
       line (''   Total FP threads:  '' @ setw_right 3 (dec_int total_fps) @ spaces 39) @ frame_end))"

section \<open>The classification report\<close>

text \<open>The bar has a column for every five percent; the conversion to \<open>int\<close> cuts the fraction off.\<close>

definition bar_len :: "rat \<Rightarrow> int" where
  "bar_len pct = \<lfloor>rnd (pct / 5)\<rfloor>"

definition share :: "nat \<Rightarrow> nat \<Rightarrow> rat" where
  "share n tot = (if tot > 0 then percent n tot else 0)"

definition class_row :: "nat \<Rightarrow> AppType \<times> nat \<Rightarrow> string" where
  "class_row tot = (\<lambda>(app, n).
     line ('' '' @ setw_left 15 (appTypeToString app) @ setw_right 8 (dec n) @ '' '' @
       setw_right 5 (fixed 1 (share n tot)) @ ''% '' @
       setw_left 20 (replicate (nat (bar_len (share n tot))) CHR ''#'') @ spaces 3))"

text \<open>
  \<open>na\<close> codes the order the unordered map gives the applications to the sort in, and so every
  outcome the unstable sort can have.
\<close>

definition by_count :: "nat list \<Rightarrow> ('k \<times> nat) list \<Rightarrow> ('k \<times> nat) list" where
  "by_count na m = sort_key (\<lambda>(k, n). - int n) (reorder na m)"

definition class_total :: "class_counts \<Rightarrow> nat" where
  "class_total c = total_classified c + total_unknown c"

definition generateClassificationReport :: "nat list \<Rightarrow> nat list \<Rightarrow> fast_path list \<Rightarrow> string" where
  "generateClassificationReport ns na ws =
     (let c = classification_counts ns ws; tot = class_total c
      in endl @ frame_top @
         line (spaces 17 @ ''APPLICATION CLASSIFICATION REPORT'' @ spaces 12) @ frame_mid @
         line ('' Total Connections:    '' @ setw_right 10 (dec tot) @ spaces 27) @
         line ('' Classified:           '' @ setw_right 10 (dec (total_classified c)) @ '' ('' @
           fixed 1 (share (total_classified c) tot) @ ''%)'' @ spaces 18) @
         line ('' Unidentified:         '' @ setw_right 10 (dec (total_unknown c)) @ '' ('' @
           fixed 1 (share (total_unknown c) tot) @ ''%)'' @ spaces 18) @ frame_mid @
         line (spaces 20 @ ''APPLICATION DISTRIBUTION'' @ spaces 18) @ frame_mid @
         concat (map (class_row tot) (by_count na (app_counts c))) @ frame_end)"

section \<open>The report of the connection table\<close>

definition table_app_row :: "nat \<Rightarrow> AppType \<times> nat \<Rightarrow> string" where
  "table_app_row tot = (\<lambda>(app, n).
     line ('' '' @ setw_left 20 (appTypeToString app) @ setw_right 10 (dec n) @ '' ('' @
       setw_right 5 (fixed 1 (share n tot)) @ ''%)'' @ spaces 10))"

definition short_domain :: "string \<Rightarrow> string" where
  "short_domain domain = (if length domain > 35 then take 32 domain @ ''...'' else domain)"

definition table_domain_row :: "string \<times> nat \<Rightarrow> string" where
  "table_domain_row = (\<lambda>(domain, n).
     line ('' '' @ setw_left 40 (short_domain domain) @ setw_right 10 (dec n) @ spaces 10))"

definition table_report :: "nat list \<Rightarrow> nat list \<Rightarrow> nat list \<Rightarrow> tracker option list \<Rightarrow> string" where
  "table_report ns nd na trackers =
     (let st = getGlobalStats ns nd trackers; tot = sum_list (map snd (app_distribution st))
      in endl @ frame_top @
         line (spaces 15 @ ''CONNECTION STATISTICS REPORT'' @ spaces 19) @ frame_mid @
         line ('' Active Connections:     '' @ setw_right 10 (dec (total_active_connections st)) @ spaces 25) @
         line ('' Total Connections Seen: '' @ setw_right 10 (dec (unat (total_connections_seen st))) @ spaces 25) @ frame_mid @
         line (spaces 20 @ ''APPLICATION BREAKDOWN'' @ spaces 21) @ frame_mid @
         concat (map (table_app_row tot) (by_count na (app_distribution st))) @
         (if top_domains st \<noteq> []
          then frame_mid @ line (spaces 22 @ ''TOP DOMAINS'' @ spaces 29) @ frame_mid @
            concat (map table_domain_row (top_domains st))
          else []) @ frame_end)"

section \<open>What \<open>main\<close> prints itself\<close>

definition usage :: "string \<Rightarrow> string" where
  "usage prog =
     replicate 72 CHR ''='' @ endl @
     ''Aegis DPI v1.0 - Multi-threaded Enterprise Deep Packet Inspection'' @ endl @
     replicate 72 CHR ''='' @ endl @ endl @
     ''Usage: '' @ prog @ '' <input.pcap> <output.pcap> [options]'' @ endl @ endl @
     ''Options:'' @ endl @
     ''  --block-ip <ip>        Block source IP'' @ endl @
     ''  --block-app <app>      Block application (YouTube, Facebook, Netflix, etc.)'' @ endl @
     ''  --block-domain <dom>   Block domain (substring match)'' @ endl @
     ''  --lbs <n>              Number of Load Balancer threads (default: 2)'' @ endl @
     ''  --fps <n>              Fast Path threads per Load Balancer (default: 2)'' @ endl @ endl @
     ''Example:'' @ endl @
     ''  '' @ prog @ '' capture.pcap filtered.pcap --block-app YouTube --block-ip 192.168.1.50'' @ endl @ endl"

text \<open>The last lines of a run that took \<open>diff\<close> milliseconds.\<close>

definition closing_lines :: "int \<Rightarrow> string \<Rightarrow> string" where
  "closing_lines diff output =
     endl @ ''[Engine] High-Speed Ingestion Time: '' @ dec_int diff @ ''ms'' @ endl @
     ''Output successfully written to: '' @ output @ endl"

section \<open>The rows fit\<close>

lemma length_dec: "n < 10 ^ d \<Longrightarrow> 0 < d \<Longrightarrow> length (dec n) \<le> d"
proof (induction d arbitrary: n)
  case (Suc d)
  show ?case
  proof (cases "n < 10")
    case True
    then show ?thesis by (subst dec.simps) simp
  next
    case False
    then have "0 < d" using Suc.prems(1) by (cases d) auto
    moreover have "n div 10 < 10 ^ d" using Suc.prems(1) by (simp add: div_less_iff_less_mult mult.commute)
    ultimately have "length (dec (n div 10)) \<le> d" by (rule Suc.IH [rotated])
    then show ?thesis using False by (subst dec.simps) simp
  qed
qed simp

lemma columns_setw:
  "columns s = length s \<Longrightarrow> length s \<le> n \<Longrightarrow> columns (setw_right n s) = n"
  "columns s = length s \<Longrightarrow> length s \<le> n \<Longrightarrow> columns (setw_left n s) = n"
  by (simp_all add: setw_right_def setw_left_def)

lemma columns_line: "columns (line s) = columns s + 3"
  by (simp add: line_def box_v_def endl_def)

lemma columns_spaces [simp]: "columns (spaces n) = n"
  by (simp add: spaces_def)

lemma columns_count_row:
  "n < 10 ^ 12 \<Longrightarrow> columns label = 23 \<Longrightarrow> columns (count_row label n) = 61"
  using columns_setw(1) [OF columns_dec length_dec] by (simp add: count_row_def columns_line)

lemma app_name: "columns (appTypeToString app) = length (appTypeToString app) \<and> length (appTypeToString app) \<le> 15"
  by (cases app) simp_all

lemma fixed_percent:
  assumes "0 \<le> q" and "q \<le> 100"
  shows "columns (fixed 1 q) = length (fixed 1 q)" and "length (fixed 1 q) \<le> 5"
proof -
  let ?n = "nat (round_even (q * 10 ^ 1))"
  have "round_even (q * 10 ^ 1) \<le> 1000" using assms(2) by (intro round_even_le) simp
  then have n: "?n div 10 < 10 ^ 3" "?n mod 10 < 10 ^ 1" by simp_all
  have l: "length (dec (?n div 10)) \<le> 3" "length (dec (?n mod 10)) \<le> 1"
    by (rule length_dec [OF n(1)], simp, rule length_dec [OF n(2)], simp)
  show "length (fixed 1 q) \<le> 5" using l by (simp add: fixed_def Let_def)
  show "columns (fixed 1 q) = length (fixed 1 q)" by (simp add: fixed_def Let_def columns_dec)
qed

lemma share_bounds:
  assumes "n \<le> t" and "100 * t < 2 ^ 53"
  shows "0 \<le> share n t \<and> share n t \<le> 100"
  using percent_bounds [OF assms(1) _ assms(2)] by (simp add: share_def)

lemma bar_len_bounds:
  assumes "0 \<le> q" and "q \<le> 100"
  shows "0 \<le> bar_len q \<and> bar_len q \<le> 20"
proof -
  have "rnd (q / 5) \<le> of_int 20" using assms by (intro rnd_le) simp_all
  moreover have "0 \<le> rnd (q / 5)" using assms(1) by (intro rnd_ge_0) simp
  ultimately show ?thesis by (simp add: bar_len_def floor_le_iff)
qed

text \<open>The counts of the classification add up to the number of entries.\<close>

lemma sum_bump: "sum_list (map snd (bump k m)) = sum_list (map snd m) + 1"
  by (induction k m rule: bump.induct) auto

definition adds_up :: "class_counts \<Rightarrow> bool" where
  "adds_up c \<longleftrightarrow> sum_list (map snd (app_counts c)) = class_total c"

lemma adds_up_count: "adds_up c \<Longrightarrow> adds_up (count_class conn c)"
  by (simp add: adds_up_def class_total_def count_class_def Let_def sum_bump)

lemma adds_up_all: "adds_up (classification_counts ns ws)"
proof -
  have 1: "adds_up (fold count_class cs c)" if "adds_up c" for cs c
    using that by (induction cs arbitrary: c) (simp_all add: adds_up_count)
  have 2: "adds_up (fold (\<lambda>fp. forEach ns count_class (conn_tracker fp)) ws c)" if "adds_up c" for c
    using that by (induction ws arbitrary: c) (simp_all add: forEach_def 1)
  show ?thesis unfolding classification_counts_def by (rule 2) (simp add: adds_up_def class_total_def)
qed

lemma count_le_total:
  assumes "(app, n) \<in> set (app_counts (classification_counts ns ws))"
  shows "n \<le> class_total (classification_counts ns ws)"
proof -
  have "n \<in> set (map snd (app_counts (classification_counts ns ws)))" using assms by force
  then have "n \<le> sum_list (map snd (app_counts (classification_counts ns ws)))" by (rule member_le_sum_list) simp
  then show ?thesis using adds_up_all [of ns ws] by (simp add: adds_up_def)
qed

text \<open>The classification report is well formed for any tables with fewer than a hundred million
  flows in all. Every percentage is a number from 0 to 100, so its conversion to \<open>int\<close> is defined and the
  bar has from 0 to 20 characters, and every row of the distribution has the same width, 57
  columns and the end of the line; the frame around it has 64.\<close>

theorem classification_report_fits:
  assumes "class_total (classification_counts ns ws) = t" and "t < 10 ^ 8"
    and "(app, n) \<in> set (app_counts (classification_counts ns ws))"
  shows "0 \<le> share n t \<and> share n t \<le> 100 \<and> 0 \<le> bar_len (share n t) \<and> bar_len (share n t) \<le> 20 \<and>
    columns (class_row t (app, n)) = 58 \<and> columns frame_top = 65"
proof -
  have n: "n \<le> t" "t < 10 ^ 8" using count_le_total [OF assms(3)] assms(1,2) by simp_all
  have s: "0 \<le> share n t" "share n t \<le> 100" using share_bounds [OF n(1)] n(2) by simp_all
  have b: "0 \<le> bar_len (share n t)" "bar_len (share n t) \<le> 20" using bar_len_bounds [OF s] by simp_all
  have "length (dec n) \<le> 8" using n by (intro length_dec) simp_all
  then have "columns (setw_right 8 (dec n)) = 8" by (rule columns_setw(1) [OF columns_dec])
  moreover have "columns (setw_left 15 (appTypeToString app)) = 15" using app_name [of app] by (intro columns_setw) simp_all
  moreover have "columns (setw_right 5 (fixed 1 (share n t))) = 5" using fixed_percent [OF s] by (intro columns_setw)
  moreover have "columns (setw_left 20 (replicate (nat (bar_len (share n t))) CHR ''#'')) = 20"
    using b by (intro columns_setw) simp_all
  ultimately have "columns (class_row t (app, n)) = 58" by (simp add: class_row_def columns_line)
  moreover have "columns frame_top = 65" unfolding frame_top_def by (rule columns_frame) simp_all
  ultimately show ?thesis using s b by simp
qed

text \<open>One worker with one flow that is classified.\<close>

theorem classification_report_fits_witness:
  "let w = (new_fast_path 0)\<lparr>conn_tracker :=
       (new_tracker 0 1)\<lparr>connections := [(flow 1, (new_connection (flow 1) 0)\<lparr>app_type := YOUTUBE\<rparr>)]\<rparr>\<rparr>
   in app_counts (classification_counts [] [w]) = [(YOUTUBE, 1)] \<and> columns (class_row 1 (YOUTUBE, 1)) = 58"
proof -
  let ?w = "(new_fast_path 0)\<lparr>conn_tracker :=
       (new_tracker 0 1)\<lparr>connections := [(flow 1, (new_connection (flow 1) 0)\<lparr>app_type := YOUTUBE\<rparr>)]\<rparr>\<rparr>"
  have c: "app_counts (classification_counts [] [?w]) = [(YOUTUBE, 1)]" "class_total (classification_counts [] [?w]) = 1"
    by (simp_all add: classification_counts_def forEach_def count_class_def class_total_def Let_def new_connection_def)
  then show ?thesis
    using classification_report_fits [OF c(2), of YOUTUBE 1] unfolding Let_def by simp
qed

end
