(* ===== verification/Queue_Threads.thy ===== *)
theory Queue_Threads
  imports Thread_Safe_Queue
begin

text \<open>
  \<open>include/thread_safe_queue.h\<close> one level below \<open>Thread_Safe_Queue\<close>: threads that take the
  mutex, evaluate the condition of their wait, go to sleep on one of the two condition
  variables, are notified (or wake for no reason, or because their time is over), do their
  work and notify others. What the standard promises of \<open>std::mutex\<close> and
  \<open>std::condition_variable\<close> is in the step relation: one owner at a time, \<open>wait\<close> gives the
  mutex up and joins the sleepers in one step, \<open>notify_one\<close> wakes some sleeper if there is
  one, a woken thread has to get the mutex back before it looks at the condition again.

  Two things are shown: the calls behave as if each were the single atomic operation of
  \<open>Thread_Safe_Queue\<close> (linearizability, which is what the model of the pipeline relies on),
  and no wake-up is ever lost, although the code notifies one thread at a time.
\<close>

section \<open>Methods, one at a time\<close>

datatype 'a qcall =
    M_push 'a | M_tryPush 'a | M_pop | M_popWithTimeout
  | M_empty | M_size | M_isShutdown | M_shutdown

datatype 'a answer = Void | Answer bool | Number nat | Item "'a option"

text \<open>The atomic operation a call stands for; \<open>None\<close>: it has to wait.\<close>

fun atomically :: "'a qcall \<Rightarrow> 'a tsq \<Rightarrow> ('a answer \<times> 'a tsq) option" where
  "atomically (M_push x) q = map_option (\<lambda>q'. (Void, q')) (push x q)"
| "atomically (M_tryPush x) q = (let (ok, q') = tryPush x q in Some (Answer ok, q'))"
| "atomically M_pop q = map_option (\<lambda>(r, q'). (Item r, q')) (pop q)"
| "atomically M_popWithTimeout q = (let (r, q') = popWithTimeout q in Some (Item r, q'))"
| "atomically M_empty q = Some (Answer (queue_empty q), q)"
| "atomically M_size q = Some (Number (queue_size q), q)"
| "atomically M_isShutdown q = Some (Answer (isShutdown q), q)"
| "atomically M_shutdown q = Some (Void, shutdown q)"

section \<open>Threads inside the methods\<close>

datatype condvar = Not_Empty | Not_Full

datatype signal = One condvar | All condvar

text \<open>The condition variable a method waits on, and the lambda of its wait.\<close>

fun waits_on :: "'a qcall \<Rightarrow> condvar option" where
  "waits_on (M_push x) = Some Not_Full"
| "waits_on M_pop = Some Not_Empty"
| "waits_on M_popWithTimeout = Some Not_Empty"
| "waits_on _ = None"

fun may_proceed :: "'a qcall \<Rightarrow> 'a tsq \<Rightarrow> bool" where
  "may_proceed (M_push x) q = (length (queue q) < max_size q \<or> is_shutdown q)"
| "may_proceed M_pop q = (queue q \<noteq> [] \<or> is_shutdown q)"
| "may_proceed M_popWithTimeout q = (queue q \<noteq> [] \<or> is_shutdown q)"
| "may_proceed _ q = True"

text \<open>The part of a method behind its wait, up to the notifications, which it still owes.\<close>

fun after_wait :: "'a qcall \<Rightarrow> 'a tsq \<Rightarrow> 'a answer \<times> signal list \<times> 'a tsq" where
  "after_wait (M_push x) q =
     (if is_shutdown q then (Void, [], q)
      else (Void, [One Not_Empty], q\<lparr>queue := queue q @ [x]\<rparr>))"
| "after_wait (M_tryPush x) q =
     (if length (queue q) \<ge> max_size q \<or> is_shutdown q then (Answer False, [], q)
      else (Answer True, [One Not_Empty], q\<lparr>queue := queue q @ [x]\<rparr>))"
| "after_wait M_pop q =
     (case queue q of [] \<Rightarrow> (Item None, [], q)
      | x # xs \<Rightarrow> (Item (Some x), [One Not_Full], q\<lparr>queue := xs\<rparr>))"
| "after_wait M_popWithTimeout q =
     (case queue q of [] \<Rightarrow> (Item None, [], q)
      | x # xs \<Rightarrow> (Item (Some x), [One Not_Full], q\<lparr>queue := xs\<rparr>))"
| "after_wait M_empty q = (Answer (queue q = []), [], q)"
| "after_wait M_size q = (Number (length (queue q)), [], q)"
| "after_wait M_isShutdown q = (Answer (is_shutdown q), [], q)"
| "after_wait M_shutdown q =
     (Void, [All Not_Empty, All Not_Full], q\<lparr>is_shutdown := True\<rparr>)"

text \<open>
  Where a thread is: outside (with the answer of its last call), waiting for the mutex at
  the start of a call, owning it and about to evaluate the condition (the flag: its time
  is over), asleep, woken and waiting for the mutex, behind the wait, owing notifications
  (with none left it is about to unlock and return).
\<close>

datatype 'a place =
    Outside "'a answer"
  | Entering "'a qcall"
  | Checking "'a qcall" bool
  | Sleeping "'a qcall"
  | Woken "'a qcall" bool
  | Inside "'a qcall"
  | Signalling "signal list" "'a answer"

record 'a qthreads =
  shared :: "'a tsq"
  owner :: "nat option"
  positions :: "'a place list"

text \<open>What an observer sees: calls, the moments they take effect, returns.\<close>

datatype 'a qevent =
    Called nat "'a qcall"
  | Effect nat "'a qcall" "'a answer"
  | Returned nat "'a answer"

fun sleeps_on :: "condvar \<Rightarrow> 'a place \<Rightarrow> bool" where
  "sleeps_on cv (Sleeping m) = (waits_on m = Some cv)"
| "sleeps_on cv _ = False"

fun wake :: "condvar \<Rightarrow> 'a place \<Rightarrow> 'a place" where
  "wake cv (Sleeping m) = (if waits_on m = Some cv then Woken m False else Sleeping m)"
| "wake cv p = p"

text \<open>The steps of the threads themselves.\<close>

inductive own_step :: "'a qthreads \<Rightarrow> 'a qevent list \<Rightarrow> 'a qthreads \<Rightarrow> bool" where
  acquire: "t < length (positions s) \<Longrightarrow> positions s ! t = Entering m \<Longrightarrow> owner s = None \<Longrightarrow>
    own_step s [] (s\<lparr>owner := Some t, positions := (positions s)[t := Checking m False]\<rparr>)"
| reacquire: "t < length (positions s) \<Longrightarrow> positions s ! t = Woken m late \<Longrightarrow> owner s = None \<Longrightarrow>
    own_step s [] (s\<lparr>owner := Some t, positions := (positions s)[t := Checking m late]\<rparr>)"
| proceed: "t < length (positions s) \<Longrightarrow> positions s ! t = Checking m late \<Longrightarrow>
    may_proceed m (shared s) \<Longrightarrow>
    own_step s [] (s\<lparr>positions := (positions s)[t := Inside m]\<rparr>)"
| sleep: "t < length (positions s) \<Longrightarrow> positions s ! t = Checking m False \<Longrightarrow>
    \<not> may_proceed m (shared s) \<Longrightarrow>
    own_step s [] (s\<lparr>owner := None, positions := (positions s)[t := Sleeping m]\<rparr>)"
| give_up: "t < length (positions s) \<Longrightarrow> positions s ! t = Checking m True \<Longrightarrow>
    \<not> may_proceed m (shared s) \<Longrightarrow>
    own_step s [Effect t m (Item None)] (s\<lparr>positions := (positions s)[t := Signalling [] (Item None)]\<rparr>)"
| act: "t < length (positions s) \<Longrightarrow> positions s ! t = Inside m \<Longrightarrow>
    after_wait m (shared s) = (a, sg, q) \<Longrightarrow>
    own_step s [Effect t m a] (s\<lparr>shared := q, positions := (positions s)[t := Signalling sg a]\<rparr>)"
| notify: "t < length (positions s) \<Longrightarrow> positions s ! t = Signalling (One cv # sg) a \<Longrightarrow>
    u < length (positions s) \<Longrightarrow> positions s ! u = Sleeping m \<Longrightarrow> waits_on m = Some cv \<Longrightarrow>
    late \<longrightarrow> m = M_popWithTimeout \<Longrightarrow>
    own_step s [] (s\<lparr>positions := (positions s)[t := Signalling sg a, u := Woken m late]\<rparr>)"
| notify_nobody: "t < length (positions s) \<Longrightarrow> positions s ! t = Signalling (One cv # sg) a \<Longrightarrow>
    \<not> (\<exists>p \<in> set (positions s). sleeps_on cv p) \<Longrightarrow>
    own_step s [] (s\<lparr>positions := (positions s)[t := Signalling sg a]\<rparr>)"
| notify_everybody: "t < length (positions s) \<Longrightarrow> positions s ! t = Signalling (All cv # sg) a \<Longrightarrow>
    own_step s [] (s\<lparr>positions := map (wake cv) ((positions s)[t := Signalling sg a])\<rparr>)"
| leave: "t < length (positions s) \<Longrightarrow> positions s ! t = Signalling [] a \<Longrightarrow>
    own_step s [Returned t a] (s\<lparr>owner := None, positions := (positions s)[t := Outside a]\<rparr>)"

text \<open>
  The steps from outside: a new call, a wake-up for no reason (the standard allows it), and
  the end of the time of a \<open>wait_for\<close>.
\<close>

inductive env_step :: "'a qthreads \<Rightarrow> 'a qevent list \<Rightarrow> 'a qthreads \<Rightarrow> bool" where
  call: "t < length (positions s) \<Longrightarrow> positions s ! t = Outside a \<Longrightarrow>
    env_step s [Called t m] (s\<lparr>positions := (positions s)[t := Entering m]\<rparr>)"
| spurious: "t < length (positions s) \<Longrightarrow> positions s ! t = Sleeping m \<Longrightarrow>
    env_step s [] (s\<lparr>positions := (positions s)[t := Woken m False]\<rparr>)"
| expire: "t < length (positions s) \<Longrightarrow> positions s ! t = Sleeping M_popWithTimeout \<Longrightarrow>
    env_step s [] (s\<lparr>positions := (positions s)[t := Woken M_popWithTimeout True]\<rparr>)"

inductive thread_run :: "'a qthreads \<Rightarrow> 'a qevent list \<Rightarrow> 'a qthreads \<Rightarrow> bool" where
  here: "thread_run s [] s"
| own: "thread_run s es s' \<Longrightarrow> own_step s' es' s'' \<Longrightarrow> thread_run s (es @ es') s''"
| env: "thread_run s es s' \<Longrightarrow> env_step s' es' s'' \<Longrightarrow> thread_run s (es @ es') s''"

text \<open>\<open>n\<close> threads, none of them inside a method.\<close>

definition start_threads :: "nat \<Rightarrow> 'a tsq \<Rightarrow> 'a qthreads" where
  "start_threads n q = \<lparr>shared = q, owner = None, positions = replicate n (Outside Void)\<rparr>"

section \<open>The mutex\<close>

fun critical :: "'a place \<Rightarrow> bool" where
  "critical (Checking m late) = True"
| "critical (Inside m) = True"
| "critical (Signalling sg a) = True"
| "critical _ = False"

text \<open>
  The invariant of the lock: only its owner is in a critical place. A thread behind its wait
  finds the condition still true, only waiting methods sleep, and only \<open>popWithTimeout\<close> runs out of time.
\<close>

fun place_ok :: "'a tsq \<Rightarrow> 'a place \<Rightarrow> bool" where
  "place_ok q (Checking m late) = (late \<longrightarrow> m = M_popWithTimeout)"
| "place_ok q (Woken m late) = (waits_on m \<noteq> None \<and> (late \<longrightarrow> m = M_popWithTimeout))"
| "place_ok q (Sleeping m) = (waits_on m \<noteq> None)"
| "place_ok q (Inside m) = may_proceed m q"
| "place_ok q _ = True"

definition lock_ok :: "'a tsq \<Rightarrow> nat option \<Rightarrow> 'a place list \<Rightarrow> bool" where
  "lock_ok q holder ps \<longleftrightarrow>
     (\<forall>t < length ps. (critical (ps ! t) \<longleftrightarrow> holder = Some t) \<and> place_ok q (ps ! t)) \<and>
     (case holder of None \<Rightarrow> True | Some t \<Rightarrow> t < length ps)"

abbreviation locked_well :: "'a qthreads \<Rightarrow> bool" where
  "locked_well s \<equiv> lock_ok (shared s) (owner s) (positions s)"

lemma wake_critical [simp]: "critical (wake cv p) = critical p"
  by (cases p) simp_all

lemma wake_ok [simp]: "place_ok q p \<Longrightarrow> place_ok q (wake cv p)"
  by (cases p) simp_all

lemma blocked_waits: "\<not> may_proceed m q \<Longrightarrow> waits_on m \<noteq> None"
  by (cases m) simp_all

lemma place_ok_other: "\<not> critical p \<Longrightarrow> place_ok q p \<Longrightarrow> place_ok q' p"
  by (cases p) simp_all

lemma lock_owner: "lock_ok q h ps \<Longrightarrow> t < length ps \<Longrightarrow> critical (ps ! t) \<Longrightarrow> h = Some t"
  by (simp add: lock_ok_def)

lemma lock_place: "lock_ok q h ps \<Longrightarrow> t < length ps \<Longrightarrow> place_ok q (ps ! t)"
  by (simp add: lock_ok_def)

text \<open>The thread that has the mutex, or takes it while it is free, moves on.\<close>

lemma lock_own_change:
  assumes "lock_ok q h ps" and "t < length ps" and "h = None \<or> h = Some t" and "place_ok q' p"
    and "h' = (if critical p then Some t else None)"
  shows "lock_ok q' h' (ps[t := p])"
proof -
  have other: "\<not> critical (ps ! u) \<and> place_ok q' (ps ! u)" if u: "u < length ps" "u \<noteq> t" for u
  proof -
    have "\<not> critical (ps ! u)" using u assms(1,3) unfolding lock_ok_def by auto
    then show ?thesis using place_ok_other [OF _ lock_place [OF assms(1) u(1)]] by blast
  qed
  show ?thesis unfolding lock_ok_def
    using assms(2,4,5) other by (simp add: nth_list_update)
qed

text \<open>A thread outside the critical section moves on, or is moved.\<close>

lemma lock_other_change:
  assumes "lock_ok q h ps" and "t < length ps" and "\<not> critical (ps ! t)" and "\<not> critical p"
    and "place_ok q p"
  shows "lock_ok q h (ps[t := p])"
  using assms unfolding lock_ok_def by (simp add: nth_list_update split: option.splits)

lemma lock_wake: "lock_ok q h ps \<Longrightarrow> lock_ok q h (map (wake cv) ps)"
  unfolding lock_ok_def by (simp split: option.splits)

lemma lock_ok_start: "locked_well (start_threads n q)"
  by (simp add: lock_ok_def start_threads_def)

lemma env_lock [keeps]: "env_step s es s' \<Longrightarrow> locked_well s \<Longrightarrow> locked_well s'"
proof (induction rule: env_step.induct)
  case (spurious t s m)
  then show ?case
    using lock_place [of "shared s" "owner s" "positions s" t] by (auto intro!: lock_other_change)
qed (auto intro!: lock_other_change)

lemma own_lock [keeps]: "own_step s es s' \<Longrightarrow> locked_well s \<Longrightarrow> locked_well s'"
proof (induction rule: own_step.induct)
  case (acquire t s m)
  then show ?case by (auto intro!: lock_own_change)
next
  case (reacquire t s m late)
  then show ?case using lock_place [of "shared s" "owner s" "positions s" t] by (auto intro!: lock_own_change)
next
  case (proceed t s m late)
  then show ?case using lock_owner [of "shared s" "owner s" "positions s" t] by (auto intro!: lock_own_change)
next
  case (sleep t s m)
  then show ?case using lock_owner [of "shared s" "owner s" "positions s" t] blocked_waits [of m "shared s"]
    by (auto intro!: lock_own_change)
next
  case (give_up t s m)
  then show ?case using lock_owner [of "shared s" "owner s" "positions s" t] by (auto intro!: lock_own_change)
next
  case (act t s m a sg q)
  then show ?case using lock_owner [of "shared s" "owner s" "positions s" t] by (auto intro!: lock_own_change)
next
  case (notify t s cv sg a u m late)
  have "owner s = Some t" using notify lock_owner [of "shared s" "owner s" "positions s" t] by auto
  then have "lock_ok (shared s) (owner s) ((positions s)[t := Signalling sg a])"
    using notify by (auto intro!: lock_own_change)
  moreover have "u \<noteq> t" using notify by auto
  ultimately show ?case using notify by (auto intro!: lock_other_change)
next
  case (notify_nobody t s cv sg a)
  then show ?case using lock_owner [of "shared s" "owner s" "positions s" t] by (auto intro!: lock_own_change)
next
  case (notify_everybody t s cv sg a)
  then have "lock_ok (shared s) (owner s) ((positions s)[t := Signalling sg a])"
    using lock_owner [of "shared s" "owner s" "positions s" t] by (auto intro!: lock_own_change)
  then show ?case by (simp add: lock_wake)
next
  case (leave t s a)
  then show ?case using lock_owner [of "shared s" "owner s" "positions s" t] by (auto intro!: lock_own_change)
qed

lemma run_lock: "thread_run s es s' \<Longrightarrow> locked_well s \<Longrightarrow> locked_well s'"
  by (induction rule: thread_run.induct) (auto intro: keeps)

lemma own_places [simp]: "own_step s es s' \<Longrightarrow> length (positions s') = length (positions s)"
  by (induction rule: own_step.induct) simp_all

lemma env_places [simp]: "env_step s es s' \<Longrightarrow> length (positions s') = length (positions s)"
  by (induction rule: env_step.induct) simp_all

section \<open>Linearizability\<close>

text \<open>
  What an execution of the atomic operations would look like: the effects of a trace, replayed
  one after the other, each with the answer it had.
\<close>

fun replay :: "'a qevent list \<Rightarrow> 'a tsq \<Rightarrow> 'a tsq option" where
  "replay [] q = Some q"
| "replay (Effect t m a # es) q =
     (case atomically m q of None \<Rightarrow> None
      | Some (b, q') \<Rightarrow> if b = a then replay es q' else None)"
| "replay (_ # es) q = replay es q"

lemma replay_append:
  "replay (es @ es') q = (case replay es q of None \<Rightarrow> None | Some q' \<Rightarrow> replay es' q')"
  by (induction es q rule: replay.induct) (auto split: option.splits)

text \<open>The discipline of one thread: a call, its effect, the return with the answer of the effect.\<close>

datatype 'a phase = Free | Pending "'a qcall" | Done "'a answer"

fun advance :: "nat \<Rightarrow> 'a qevent \<Rightarrow> 'a phase \<Rightarrow> 'a phase option" where
  "advance t (Called u m) ph =
     (if u \<noteq> t then Some ph else if ph = Free then Some (Pending m) else None)"
| "advance t (Effect u m a) ph =
     (if u \<noteq> t then Some ph else if ph = Pending m then Some (Done a) else None)"
| "advance t (Returned u a) ph =
     (if u \<noteq> t then Some ph else if ph = Done a then Some Free else None)"

fun follow :: "nat \<Rightarrow> 'a qevent list \<Rightarrow> 'a phase \<Rightarrow> 'a phase option" where
  "follow t [] ph = Some ph"
| "follow t (e # es) ph = (case advance t e ph of None \<Rightarrow> None | Some ph' \<Rightarrow> follow t es ph')"

lemma follow_append:
  "follow t (es @ es') ph = (case follow t es ph of None \<Rightarrow> None | Some ph' \<Rightarrow> follow t es' ph')"
  by (induction es arbitrary: ph) (auto split: option.splits)

fun phase_of :: "'a place \<Rightarrow> 'a phase" where
  "phase_of (Outside a) = Free"
| "phase_of (Entering m) = Pending m"
| "phase_of (Checking m late) = Pending m"
| "phase_of (Sleeping m) = Pending m"
| "phase_of (Woken m late) = Pending m"
| "phase_of (Inside m) = Pending m"
| "phase_of (Signalling sg a) = Done a"

lemma wake_phase [simp]: "phase_of (wake cv p) = phase_of p"
  by (cases p) simp_all

text \<open>The work behind the wait is the atomic operation.\<close>

lemma after_wait_atomic:
  "may_proceed m q \<Longrightarrow> after_wait m q = (a, sg, q') \<Longrightarrow> atomically m q = Some (a, q')"
  by (cases m)
    (auto simp: push_def tryPush_def pop_def popWithTimeout_def take_front_def queue_empty_def
      queue_size_def isShutdown_def shutdown_def split: if_splits list.splits)

lemma give_up_atomic:
  "\<not> may_proceed M_popWithTimeout q \<Longrightarrow> atomically M_popWithTimeout q = Some (Item None, q)"
  by (simp add: popWithTimeout_def)

text \<open>A step of the threads is invisible or one atomic operation (and never two).\<close>

lemma own_replay:
  assumes "own_step s es s'" and "locked_well s"
  shows "replay es (shared s) = Some (shared s')"
  using assms
proof (induction rule: own_step.induct)
  case (give_up t s m)
  then have "m = M_popWithTimeout" using lock_place [of "shared s" "owner s" "positions s" t] by simp
  then show ?case using give_up give_up_atomic [of "shared s"] by simp
next
  case (act t s m a sg q)
  then have "may_proceed m (shared s)" using lock_place [of "shared s" "owner s" "positions s" t] by simp
  then show ?case using act after_wait_atomic [of m "shared s" a sg q] by simp
qed simp_all

lemma env_replay: "env_step s es s' \<Longrightarrow> replay es (shared s) = Some (shared s')"
  by (induction rule: env_step.induct) simp_all

lemma own_follow:
  "own_step s es s' \<Longrightarrow> t < length (positions s) \<Longrightarrow>
   follow t es (phase_of (positions s ! t)) = Some (phase_of (positions s' ! t))"
  by (induction rule: own_step.induct) (auto simp: nth_list_update)

lemma env_follow:
  "env_step s es s' \<Longrightarrow> t < length (positions s) \<Longrightarrow>
   follow t es (phase_of (positions s ! t)) = Some (phase_of (positions s' ! t))"
  by (induction rule: env_step.induct) (auto simp: nth_list_update)

lemma run_places: "thread_run s es s' \<Longrightarrow> length (positions s') = length (positions s)"
  by (induction rule: thread_run.induct) simp_all

lemma run_replay:
  "thread_run s es s' \<Longrightarrow> locked_well s \<Longrightarrow> replay es (shared s) = Some (shared s')"
proof (induction rule: thread_run.induct)
  case (own s es s' es' s'')
  then show ?case using own_replay [OF own(2) run_lock [OF own(1)]] by (simp add: replay_append)
next
  case (env s es s' es' s'')
  then show ?case using env_replay [OF env(2)] by (simp add: replay_append)
qed simp

lemma run_follow:
  "thread_run s es s' \<Longrightarrow> t < length (positions s) \<Longrightarrow>
   follow t es (phase_of (positions s ! t)) = Some (phase_of (positions s' ! t))"
proof (induction rule: thread_run.induct)
  case (own s es s' es' s'')
  then show ?case using own_follow [OF own(2)] run_places [OF own(1)] by (simp add: follow_append)
next
  case (env s es s' es' s'')
  then show ?case using env_follow [OF env(2)] run_places [OF env(1)] by (simp add: follow_append)
qed simp

text \<open>C32: the queue behaves as if every call were one atomic operation, however its threads
  interleave, sleep, are notified, wake for no reason or run out of time: between the call
  and the return of each method lies exactly one moment at which it takes effect, its
  answer is that of the atomic operation at that moment, and replaying these operations in
  the order of their effects leads to the contents the queue has.\<close>

theorem queue_linearizable:
  assumes "thread_run (start_threads n q0) es s"
  shows "replay es q0 = Some (shared s) \<and>
    (\<forall>t < n. follow t es Free = Some (phase_of (positions s ! t)))"
  using run_replay [OF assms lock_ok_start] run_follow [OF assms] by (simp add: start_threads_def)

section \<open>No wake-up is lost\<close>

text \<open>Sums over the threads.\<close>

definition tally :: "('a place \<Rightarrow> nat) \<Rightarrow> 'a place list \<Rightarrow> nat" where
  "tally f ps = sum_list (map f ps)"

lemma tally_update: "t < length ps \<Longrightarrow> tally f (ps[t := p]) + f (ps ! t) = tally f ps + f p"
proof (induction ps arbitrary: t)
  case (Cons a ps)
  then show ?case by (cases t) (auto simp: tally_def)
qed simp

lemma tally_member: "t < length ps \<Longrightarrow> f (ps ! t) \<le> tally f ps"
  by (simp add: tally_def member_le_sum_list)

lemma tally_mono: "(\<And>p. f p \<le> g p) \<Longrightarrow> tally f ps \<le> tally g ps"
  by (simp add: tally_def sum_list_mono)

definition asleep :: "condvar \<Rightarrow> 'a place \<Rightarrow> nat" where
  "asleep cv p = (if sleeps_on cv p then 1 else 0)"

text \<open>
  The threads that will look at the condition of \<open>cv\<close> again before they sleep, and the
  notifications of \<open>cv\<close> still owed.
\<close>

fun helps :: "condvar \<Rightarrow> 'a place \<Rightarrow> nat" where
  "helps cv (Entering m) = (if waits_on m = Some cv then 1 else 0)"
| "helps cv (Checking m late) = (if waits_on m = Some cv then 1 else 0)"
| "helps cv (Woken m late) = (if waits_on m = Some cv then 1 else 0)"
| "helps cv (Inside m) = (if waits_on m = Some cv then 1 else 0)"
| "helps cv (Signalling sg a) = count_list sg (One cv)"
| "helps cv _ = 0"

fun owes_all :: "condvar \<Rightarrow> 'a place \<Rightarrow> nat" where
  "owes_all cv (Signalling sg a) = count_list sg (All cv)"
| "owes_all cv _ = 0"

text \<open>How many waits on \<open>cv\<close> the queue could let go: one per item, one per free slot.\<close>

fun to_give :: "condvar \<Rightarrow> 'a tsq \<Rightarrow> nat" where
  "to_give Not_Empty q = length (queue q)"
| "to_give Not_Full q = max_size q - length (queue q)"

definition awake_enough :: "condvar \<Rightarrow> 'a tsq \<Rightarrow> 'a place list \<Rightarrow> bool" where
  "awake_enough cv q ps \<longleftrightarrow>
     (0 < tally (asleep cv) ps \<longrightarrow>
        (if is_shutdown q then 0 < tally (owes_all cv) ps
         else to_give cv q \<le> tally (helps cv) ps))"

lemma awake_change:
  assumes "awake_enough cv q ps" and t: "t < length ps"
    and a: "asleep cv p \<le> asleep cv (ps ! t) \<or> \<not> is_shutdown q' \<and> to_give cv q' = 0"
    and o: "is_shutdown q' \<Longrightarrow>
      is_shutdown q \<and> owes_all cv (ps ! t) \<le> owes_all cv p \<or> 0 < owes_all cv p"
    and h: "\<not> is_shutdown q' \<Longrightarrow> \<not> is_shutdown q \<and>
      (to_give cv q' + helps cv (ps ! t) \<le> to_give cv q + helps cv p \<or> to_give cv q' = 0)"
  shows "awake_enough cv q' (ps[t := p])"
proof -
  note u = tally_update [OF t]
  have "owes_all cv p \<le> tally (owes_all cv) (ps[t := p])"
    using tally_member [of t "ps[t := p]"] t by simp
  moreover have "is_shutdown q' \<or> to_give cv q' \<noteq> 0 \<Longrightarrow>
      tally (asleep cv) (ps[t := p]) \<le> tally (asleep cv) ps"
    using a u [of "asleep cv" p] by auto
  ultimately show ?thesis
    using assms(1) o h u [of "helps cv" p] u [of "owes_all cv" p]
    by (cases "is_shutdown q'") (force simp: awake_enough_def)+
qed

lemma no_sleeper: "\<not> (\<exists>p \<in> set ps. sleeps_on cv p) \<Longrightarrow> tally (asleep cv) ps = 0"
  by (auto simp: tally_def asleep_def)

lemma wake_tally:
  "tally (asleep cv') (map (wake cv) ps) = (if cv' = cv then 0 else tally (asleep cv') ps)"
  "cv' \<noteq> cv \<Longrightarrow> tally (helps cv') (map (wake cv) ps) = tally (helps cv') ps"
  "tally (owes_all cv') (map (wake cv) ps) = tally (owes_all cv') ps"
proof -
  have a: "asleep cv' (wake cv p) = (if cv' = cv then 0 else asleep cv' p)" for p :: "'a place"
    by (cases p) (auto simp: asleep_def)
  have h: "cv' \<noteq> cv \<Longrightarrow> helps cv' (wake cv p) = helps cv' p" for p :: "'a place"
    by (cases p) auto
  have o: "owes_all cv' (wake cv p) = owes_all cv' p" for p :: "'a place"
    by (cases p) auto
  show "tally (asleep cv') (map (wake cv) ps) = (if cv' = cv then 0 else tally (asleep cv') ps)"
    "cv' \<noteq> cv \<Longrightarrow> tally (helps cv') (map (wake cv) ps) = tally (helps cv') ps"
    "tally (owes_all cv') (map (wake cv) ps) = tally (owes_all cv') ps"
    by (simp_all add: tally_def a h o comp_def)
qed

lemma blocked_gives_nothing:
  "\<not> may_proceed m q \<Longrightarrow> waits_on m = Some cv \<Longrightarrow> to_give cv q = 0 \<and> \<not> is_shutdown q"
  by (cases m) auto

lemma blocked_not_shut: "\<not> may_proceed m q \<Longrightarrow> \<not> is_shutdown q"
  by (cases m) auto

lemma asleep_simps [simp]:
  "asleep cv (Outside a) = 0" "asleep cv (Entering m) = 0" "asleep cv (Checking m late) = 0"
  "asleep cv (Woken m late) = 0" "asleep cv (Inside m) = 0" "asleep cv (Signalling sg a) = 0"
  "asleep cv (Sleeping m) = (if waits_on m = Some cv then 1 else 0)"
  by (simp_all add: asleep_def)

text \<open>The effects of the methods: what they put in is owed a notification.\<close>

lemma after_wait_awake:
  assumes "awake_enough cv q ps" and "t < length ps" and "ps ! t = Inside m"
    and "may_proceed m q" and "after_wait m q = (a, sg, q')"
  shows "awake_enough cv q' (ps[t := Signalling sg a])"
  using assms
  by (intro awake_change [OF assms(1,2)]; cases m; cases cv)
    (auto split: if_splits list.splits)

lemma env_awake: "env_step s es s' \<Longrightarrow> awake_enough cv (shared s) (positions s) \<Longrightarrow>
    awake_enough cv (shared s') (positions s')"
  by (induction rule: env_step.induct) (auto intro!: awake_change)

lemma notify_awake:
  assumes e: "awake_enough cv q ps" and t: "t < length ps" "ps ! t = Signalling (One cv' # sg) a"
    and u: "u < length ps" "ps ! u = Sleeping m" "waits_on m = Some cv'"
  shows "awake_enough cv q (ps[t := Signalling sg a, u := Woken m late])"
proof -
  have "u \<noteq> t" using t u by auto
  let ?ps1 = "ps[t := Signalling sg a]" and ?ps2 = "ps[t := Signalling sg a, u := Woken m late]"
  have u1: "u < length ?ps1" "?ps1 ! u = Sleeping m" using u \<open>u \<noteq> t\<close> by simp_all
  note up = tally_update [OF t(1), of _ "Signalling sg a"] tally_update [OF u1(1), of _ "Woken m late"]
  have "tally (helps cv) ?ps2 = tally (helps cv) ps"
    using up [of "helps cv"] u1(2) t(2) u(3) by (simp split: if_splits)
  moreover have "tally (owes_all cv) ?ps2 = tally (owes_all cv) ps"
    using up [of "owes_all cv"] u1(2) t(2) by simp
  moreover have "tally (asleep cv) ?ps2 \<le> tally (asleep cv) ps"
    using up [of "asleep cv"] u1(2) t(2) by simp
  ultimately show ?thesis using e unfolding awake_enough_def by (simp split: if_splits)
qed

lemma own_awake:
  assumes "own_step s es s'" and "locked_well s" and "awake_enough cv (shared s) (positions s)"
  shows "awake_enough cv (shared s') (positions s')"
  using assms
proof (induction rule: own_step.induct)
  case (sleep t s m)
  then obtain cv' where c: "waits_on m = Some cv'" using blocked_waits by blast
  have "to_give cv' (shared s) = 0" "\<not> is_shutdown (shared s)"
    using blocked_gives_nothing [OF sleep(3) c] by simp_all
  then show ?case using sleep c by (cases "cv' = cv") (auto intro!: awake_change)
next
  case (give_up t s m)
  then have "waits_on m = Some Not_Empty"
    using lock_place [of "shared s" "owner s" "positions s" t] by auto
  then have "to_give Not_Empty (shared s) = 0" "\<not> is_shutdown (shared s)"
    using blocked_gives_nothing [OF give_up(3)] by simp_all
  then show ?case using give_up \<open>waits_on m = Some Not_Empty\<close>
    by (cases cv) (auto intro!: awake_change)
next
  case (act t s m a sg q)
  then have "may_proceed m (shared s)"
    using lock_place [of "shared s" "owner s" "positions s" t] by auto
  then show ?case using act by (simp add: after_wait_awake)
next
  case (notify t s cv' sg a u m late)
  then show ?case by (simp add: notify_awake)
next
  case (notify_nobody t s cv' sg a)
  have "tally (asleep cv') ((positions s)[t := Signalling sg a]) = 0"
    using tally_update [OF notify_nobody(1), of "asleep cv'" "Signalling sg a"]
      no_sleeper [OF notify_nobody(3)] by simp
  moreover have "awake_enough cv (shared s) ((positions s)[t := Signalling sg a])" if "cv' \<noteq> cv"
    using that notify_nobody(1,2,5) by (auto intro!: awake_change)
  ultimately show ?case by (cases "cv' = cv") (auto simp: awake_enough_def)
next
  case (notify_everybody t s cv' sg a)
  have "cv' = cv \<or> awake_enough cv (shared s) ((positions s)[t := Signalling sg a])"
    using notify_everybody by (cases "cv' = cv") (auto intro!: awake_change)
  then show ?case by (auto simp: awake_enough_def wake_tally)
qed (auto intro!: awake_change)

lemma run_awake:
  "thread_run s es s' \<Longrightarrow> locked_well s \<Longrightarrow> awake_enough cv (shared s) (positions s) \<Longrightarrow>
   awake_enough cv (shared s') (positions s')"
  by (induction rule: thread_run.induct) (auto intro: own_awake env_awake run_lock)

lemma awake_start: "awake_enough cv q (positions (start_threads n q))"
  by (simp add: awake_enough_def start_threads_def tally_def sum_list_replicate)

section \<open>The threads come to rest\<close>

text \<open>
  A place has a weight that every step of the thread itself lowers; a notification pays for
  the thread it wakes, and a sleeping thread keeps what its own notification will cost.
\<close>

fun signal_weight :: "nat \<Rightarrow> signal \<Rightarrow> nat" where
  "signal_weight n (One cv) = 3"
| "signal_weight n (All cv) = 2 * n + 1"

fun weight :: "nat \<Rightarrow> 'a place \<Rightarrow> nat" where
  "weight n (Outside a) = 0"
| "weight n (Signalling sg a) = 1 + sum_list (map (signal_weight n) sg)"
| "weight n (Inside m) = (if m = M_shutdown then 4 * n + 4 else 5)"
| "weight n (Sleeping m) = 5"
| "weight n (Checking m late) = (if m = M_shutdown then 4 * n + 5 else 6)"
| "weight n (Woken m late) = 7"
| "weight n (Entering m) = (if m = M_shutdown then 4 * n + 6 else 7)"

definition load :: "'a qthreads \<Rightarrow> nat" where
  "load s = tally (weight (length (positions s))) (positions s)"

lemma after_wait_weight:
  "after_wait m q = (a, sg, q') \<Longrightarrow> weight n (Signalling sg a) < weight n (Inside m)"
  by (cases m) (auto split: if_splits list.splits)

lemma wake_weight: "tally (weight n) (map (wake cv) ps) \<le> tally (weight n) ps + 2 * length ps"
proof (induction ps)
  case (Cons p ps)
  have "weight n (wake cv p) \<le> weight n p + 2" by (cases p) auto
  then show ?case using Cons by (simp add: tally_def)
qed (simp add: tally_def)

lemma load_change:
  "t < length ps \<Longrightarrow> weight n p < weight n (ps ! t) \<Longrightarrow> tally (weight n) (ps[t := p]) < tally (weight n) ps"
  using tally_update [of t ps "weight n" p] by simp

lemma own_load:
  assumes "own_step s es s'" and "locked_well s"
  shows "load s' < load s"
  using assms
proof (induction rule: own_step.induct)
  case (reacquire t s m late)
  then have "m \<noteq> M_shutdown" using lock_place [of "shared s" "owner s" "positions s" t] by auto
  then show ?case using reacquire by (auto simp: load_def intro!: load_change)
next
  case (sleep t s m)
  then show ?case using blocked_waits [of m "shared s"] by (auto simp: load_def intro!: load_change)
next
  case (act t s m a sg q)
  then show ?case using after_wait_weight [OF act(3), of "length (positions s)"]
    by (simp add: load_def load_change)
next
  case (notify t s cv sg a u m late)
  let ?n = "length (positions s)" and ?ps1 = "(positions s)[t := Signalling sg a]"
  have "u \<noteq> t" using notify by auto
  then have "?ps1 ! u = Sleeping m" "u < length ?ps1" using notify by simp_all
  then show ?case
    using tally_update [OF notify(1), of "weight ?n" "Signalling sg a"] notify(2)
      tally_update [of u ?ps1 "weight ?n" "Woken m late"]
    by (simp add: load_def)
next
  case (notify_everybody t s cv sg a)
  let ?n = "length (positions s)"
  show ?case
    using tally_update [OF notify_everybody(1), of "weight ?n" "Signalling sg a"] notify_everybody(2)
      wake_weight [of ?n cv "(positions s)[t := Signalling sg a]"]
    by (simp add: load_def)
qed (auto simp: load_def intro!: load_change)

text \<open>As long as a thread is neither outside nor asleep, some thread can move.\<close>

lemma own_progress:
  assumes l: "locked_well s" and t: "t < length (positions s)"
    and p: "\<not> (\<exists>a. positions s ! t = Outside a)" "\<not> (\<exists>m. positions s ! t = Sleeping m)"
  shows "\<exists>es s'. own_step s es s'"
proof (cases "owner s")
  case None
  then have "\<not> critical (positions s ! t)" using l t lock_owner by fastforce
  then show ?thesis using p None own_step.acquire [OF t _ None] own_step.reacquire [OF t _ None]
    by (cases "positions s ! t") auto
next
  case (Some u)
  then have u: "u < length (positions s)" and c: "critical (positions s ! u)"
    using l by (auto simp: lock_ok_def)
  show ?thesis
  proof (cases "positions s ! u")
    case (Checking m late)
    then show ?thesis using own_step.proceed [OF u Checking]
        own_step.sleep [OF u, of m] own_step.give_up [OF u, of m]
      by (cases "may_proceed m (shared s)"; cases late) auto
  next
    case (Inside m)
    obtain a sg q where "after_wait m (shared s) = (a, sg, q)" by (metis prod_cases3)
    then show ?thesis using own_step.act [OF u Inside] by blast
  next
    case (Signalling sg a)
    note g = Signalling
    show ?thesis
    proof (cases sg)
      case Nil
      then show ?thesis using own_step.leave [OF u] g by blast
    next
      case (Cons sig sg')
      show ?thesis
      proof (cases sig)
        case (All cv)
        then show ?thesis using own_step.notify_everybody [OF u] g Cons by blast
      next
        case (One cv)
        show ?thesis
        proof (cases "\<exists>p \<in> set (positions s). sleeps_on cv p")
          case True
          then obtain v where v: "v < length (positions s)" "sleeps_on cv (positions s ! v)"
            by (auto simp: in_set_conv_nth)
          then obtain m where "positions s ! v = Sleeping m" "waits_on m = Some cv"
            by (cases "positions s ! v") auto
          then show ?thesis using own_step.notify [OF u _ v(1), of cv sg' a m False] g Cons One by auto
        next
          case False
          then show ?thesis using own_step.notify_nobody [OF u] g Cons One by blast
        qed
      qed
    qed
  qed (use c in auto)
qed

inductive own_steps :: "'a qthreads \<Rightarrow> nat \<Rightarrow> 'a qthreads \<Rightarrow> bool" where
  none: "own_steps s 0 s"
| more: "own_steps s k s' \<Longrightarrow> own_step s' es s'' \<Longrightarrow> own_steps s (Suc k) s''"

lemma own_steps_run:
  "own_steps s k s' \<Longrightarrow> thread_run s0 es s \<Longrightarrow> \<exists>es'. thread_run s0 es' s'"
  by (induction arbitrary: es rule: own_steps.induct) (auto intro: thread_run.own)

lemma own_steps_load:
  "own_steps s k s' \<Longrightarrow> locked_well s \<Longrightarrow> k + load s' \<le> load s \<and> locked_well s'"
  by (induction rule: own_steps.induct) (auto intro: own_lock dest: own_load)

lemma all_idle_tally:
  assumes "\<And>t. t < length ps \<Longrightarrow> f (ps ! t) = 0"
  shows "tally f ps = 0"
  using assms by (auto simp: tally_def in_set_conv_nth)

lemma enough_blocked:
  "waits_on m = Some cv \<Longrightarrow> to_give cv q = 0 \<Longrightarrow> \<not> is_shutdown q \<Longrightarrow> \<not> may_proceed m q"
  by (cases m) auto

lemma rest_sleeper:
  assumes l: "locked_well s" and a: "\<And>cv. awake_enough cv (shared s) (positions s)"
    and r: "\<And>u. u < length (positions s) \<Longrightarrow>
      (\<exists>a. positions s ! u = Outside a) \<or> (\<exists>m. positions s ! u = Sleeping m)"
    and t: "t < length (positions s)" "positions s ! t = Sleeping m"
  shows "\<not> may_proceed m (shared s)"
proof -
  obtain cv where c: "waits_on m = Some cv"
    using lock_place [OF l t(1)] t(2) by auto
  have "0 < tally (asleep cv) (positions s)"
    using tally_member [OF t(1), of "asleep cv"] t(2) c by simp
  moreover have "helps cv (positions s ! u) = 0 \<and> owes_all cv (positions s ! u) = 0"
    if "u < length (positions s)" for u
    using r [OF that] by auto
  then have "tally (helps cv) (positions s) = 0" "tally (owes_all cv) (positions s) = 0"
    by (simp_all add: all_idle_tally)
  ultimately show ?thesis
    using a [of cv] enough_blocked [OF c, of "shared s"] by (auto simp: awake_enough_def split: if_splits)
qed

text \<open>C33: no wake-up is lost and no thread waits for another for ever. Whatever happened before,
  once no new calls come the threads are at rest after a number of steps of their own that
  is bounded by the load of the state; when they are at rest, each of them has returned or
  sleeps in a call whose condition is false, so nobody sleeps next to an item or a free
  slot; and on a queue that was shut down all of them have returned.\<close>

theorem queue_loses_no_wakeup:
  assumes "thread_run (start_threads n q0) es s" and "own_steps s k s'"
  shows "k \<le> load s \<and>
    ((\<nexists>es' s''. own_step s' es' s'') \<longrightarrow>
       (\<forall>t < n. (\<exists>a. positions s' ! t = Outside a) \<or>
          (\<exists>m. positions s' ! t = Sleeping m \<and> \<not> may_proceed m (shared s') \<and>
             \<not> is_shutdown (shared s'))))"
proof -
  obtain es' where r: "thread_run (start_threads n q0) es' s'" using own_steps_run [OF assms(2,1)] by blast
  have l: "locked_well s'" using run_lock [OF r lock_ok_start] .
  have n: "length (positions s') = n" using run_places [OF r] by (simp add: start_threads_def)
  have a: "awake_enough cv (shared s') (positions s')" for cv
    using run_awake [OF r lock_ok_start, of cv] awake_start [of cv q0 n] by (simp add: start_threads_def)
  have "k \<le> load s" using own_steps_load [OF assms(2) run_lock [OF assms(1) lock_ok_start]] by simp
  moreover have "(\<exists>a. positions s' ! t = Outside a) \<or>
      (\<exists>m. positions s' ! t = Sleeping m \<and> \<not> may_proceed m (shared s') \<and> \<not> is_shutdown (shared s'))"
    if stuck: "\<nexists>es' s''. own_step s' es' s''" and t: "t < n" for t
  proof -
    have q: "(\<exists>a. positions s' ! u = Outside a) \<or> (\<exists>m. positions s' ! u = Sleeping m)" if "u < n" for u
      using own_progress [OF l, of u] stuck that n by blast
    have "\<not> may_proceed m (shared s')" if "positions s' ! t = Sleeping m" for m
      using rest_sleeper [OF l a _ _ that] q t n by simp
    then show ?thesis using q [OF t] blocked_not_shut [of _ "shared s'"] by blast
  qed
  ultimately show ?thesis by blast
qed

text \<open>
  A concrete run: thread 0 calls \<open>pop\<close> on the empty queue and goes to sleep, thread 1 pushes
  and owes a notification.
\<close>

lemma sample_threads:
  "thread_run (start_threads 2 (new_queue 1 :: nat tsq))
     [Called 0 M_pop, Called 1 (M_push 7), Effect 1 (M_push 7) Void]
     \<lparr>shared = \<lparr>queue = [7], max_size = 1, is_shutdown = False\<rparr>, owner = Some 1,
       positions = [Sleeping M_pop, Signalling [One Not_Empty] Void]\<rparr>"
proof -
  have s: "start_threads 2 (new_queue 1 :: nat tsq) =
      \<lparr>shared = \<lparr>queue = [], max_size = 1, is_shutdown = False\<rparr>, owner = None,
        positions = [Outside Void, Outside Void]\<rparr>"
    by (simp add: start_threads_def new_queue_def numeral_2_eq_2)
  note r = thread_run.here [of "start_threads 2 (new_queue 1 :: nat tsq)"]
  note r = thread_run.env [OF r, unfolded s, OF env_step.call [of 0 _ Void M_pop], simplified]
  note r = thread_run.own [OF r own_step.acquire [of 0 _ M_pop], simplified]
  note r = thread_run.own [OF r own_step.sleep [of 0 _ M_pop], simplified]
  note r = thread_run.env [OF r env_step.call [of 1 _ Void "M_push 7"], simplified]
  note r = thread_run.own [OF r own_step.acquire [of 1 _ "M_push 7"], simplified]
  note r = thread_run.own [OF r own_step.proceed [of 1 _ "M_push 7" False], simplified]
  note r = thread_run.own [OF r own_step.act [of 1 _ "M_push 7"], simplified]
  show ?thesis unfolding s using r by simp
qed

theorem queue_linearizable_witness:
  "follow 0 [Called 0 M_pop, Called 1 (M_push (7 :: nat)), Effect 1 (M_push 7) Void] Free = Some (Pending M_pop) \<and>
   replay [Called 0 M_pop, Called 1 (M_push (7 :: nat)), Effect 1 (M_push 7) Void] (new_queue 1) =
     Some \<lparr>queue = [7], max_size = 1, is_shutdown = False\<rparr>"
  using queue_linearizable [OF sample_threads] by auto

theorem queue_loses_no_wakeup_witness:
  "\<exists>k s'. own_steps \<lparr>shared = \<lparr>queue = [7 :: nat], max_size = 1, is_shutdown = False\<rparr>, owner = Some 1,
       positions = [Sleeping M_pop, Signalling [One Not_Empty] Void]\<rparr> k s' \<and> 0 < k \<and>
     positions s' ! 0 = Woken M_pop False \<and> k \<le> 9"
proof -
  let ?s = "\<lparr>shared = \<lparr>queue = [7 :: nat], max_size = 1, is_shutdown = False\<rparr>, owner = Some 1,
       positions = [Sleeping M_pop, Signalling [One Not_Empty] Void]\<rparr>"
  let ?t = "?s\<lparr>positions := [Woken M_pop False, Signalling [] Void]\<rparr>"
  have "own_steps ?s 1 ?t"
    using own_steps.more [OF own_steps.none [of ?s]
        own_step.notify [of 1 _ Not_Empty "[]" Void 0 M_pop False]] by simp
  moreover have "(1 :: nat) \<le> load ?s \<and> load ?s = 9"
    using queue_loses_no_wakeup [OF sample_threads \<open>own_steps ?s 1 ?t\<close>] by (simp add: load_def tally_def)
  ultimately show ?thesis by fastforce
qed

end
