(* ===== verification/Rule_Races.thy ===== *)
theory Rule_Races
  imports Rule_Manager
begin

text \<open>
  The rules are shared: the engine's caller changes them while the workers ask
  \<open>shouldBlock\<close>. \<open>include/rule_manager.h\<close> guards each of the four categories with a lock of
  its own, so a change is one or several \<open>writes\<close>, each under one lock, and
  \<open>shouldBlock\<close> is four reads, between which any writes may come. This theory splits the
  operations of \<open>Rule_Manager\<close> into these steps, shows that together they are the operation
  when nobody interferes, and says what a verdict is still worth when somebody does.
\<close>

section \<open>The writes of an operation\<close>

datatype rule_write =
    Insert_ip u32 | Erase_ip u32 | Clear_ips
  | Insert_app AppType | Erase_app AppType | Clear_apps
  | Insert_domain string | Erase_domain string | Clear_domains
  | Insert_port u16 | Erase_port u16 | Clear_ports

fun write_rule :: "rule_write \<Rightarrow> rule_manager \<Rightarrow> rule_manager" where
  "write_rule (Insert_ip ip) rm = blockIP ip rm"
| "write_rule (Erase_ip ip) rm = unblockIP ip rm"
| "write_rule Clear_ips rm = rm\<lparr>blocked_ips := []\<rparr>"
| "write_rule (Insert_app app) rm = blockApp app rm"
| "write_rule (Erase_app app) rm = unblockApp app rm"
| "write_rule Clear_apps rm = rm\<lparr>blocked_apps := []\<rparr>"
| "write_rule (Insert_domain d) rm = blockDomain d rm"
| "write_rule (Erase_domain d) rm = unblockDomain d rm"
| "write_rule Clear_domains rm = rm\<lparr>blocked_domains := [], domain_patterns := []\<rparr>"
| "write_rule (Insert_port p) rm = blockPort p rm"
| "write_rule (Erase_port p) rm = unblockPort p rm"
| "write_rule Clear_ports rm = rm\<lparr>blocked_ports := []\<rparr>"

definition clearAll_writes :: "rule_write list" where
  "clearAll_writes = [Clear_ips, Clear_apps, Clear_domains, Clear_ports]"

definition load_line_writes :: "string \<Rightarrow> rule_write list res" where
  "load_line_writes line =
     (if line = [] \<or> line ! 0 = CHR ''#'' then Inr []
      else case next_token line of
        None \<Rightarrow> Inr []
      | Some (type, rem) \<Rightarrow>
          (case next_token rem of
             None \<Rightarrow> Inr []
           | Some (val, _) \<Rightarrow>
               if type = ''IP'' then andThen (parseIP val) (\<lambda>ip. Inr [Insert_ip ip])
               else if type = ''APP'' then
                 (case find_app val of None \<Rightarrow> Inr [] | Some app \<Rightarrow> Inr [Insert_app app])
               else if type = ''DOMAIN'' then Inr [Insert_domain val]
               else if type = ''PORT'' then
                 andThen (stoi val) (\<lambda>n. Inr [Insert_port (word_of_int n)])
               else Inr []))"

text \<open>
  The writes of a whole load, and the fault that ends it when a line has one: what was
  written before stays.
\<close>

fun load_writes :: "string list \<Rightarrow> rule_write list \<times> fault option" where
  "load_writes [] = ([], None)"
| "load_writes (l # ls) =
     (case load_line_writes l of
        Inl e \<Rightarrow> ([], Some e)
      | Inr ws \<Rightarrow> (let (ws', e) = load_writes ls in (ws @ ws', e)))"

definition loadRules_writes :: "string option \<Rightarrow> rule_write list \<times> fault option" where
  "loadRules_writes file =
     (case file of
        None \<Rightarrow> ([], None)
      | Some text \<Rightarrow> (let (ws, e) = load_writes (getlines [] text) in (clearAll_writes @ ws, e)))"

lemma clearAll_split: "fold write_rule clearAll_writes rm = clearAll rm"
  by (simp add: clearAll_writes_def clearAll_def)

lemma load_line_split:
  "load_line l rm = andThen (load_line_writes l) (\<lambda>ws. Inr (fold write_rule ws rm))"
  by (auto simp: load_line_def load_line_writes_def blockIP_str_def andThen_assoc
      split: option.splits prod.splits)

lemma load_lines_split:
  "load_lines ls rm =
     (case load_writes ls of (ws, None) \<Rightarrow> Inr (fold write_rule ws rm) | (ws, Some e) \<Rightarrow> Inl e)"
proof (induction ls arbitrary: rm)
  case (Cons l ls)
  then show ?case
    by (cases "load_line_writes l") (auto simp: load_line_split split: prod.splits option.splits)
qed simp

text \<open>The same for every operation that changes the rules.\<close>

fun operation_writes :: "rule_op \<Rightarrow> rule_write list \<times> fault option" where
  "operation_writes (Block_ip_text s) =
     (case parseIP s of Inl e \<Rightarrow> ([], Some e) | Inr ip \<Rightarrow> ([Insert_ip ip], None))"
| "operation_writes (Unblock_ip_text s) =
     (case parseIP s of Inl e \<Rightarrow> ([], Some e) | Inr ip \<Rightarrow> ([Erase_ip ip], None))"
| "operation_writes (Add_ip ip) = ([Insert_ip ip], None)"
| "operation_writes (Remove_ip ip) = ([Erase_ip ip], None)"
| "operation_writes (Add_app app) = ([Insert_app app], None)"
| "operation_writes (Remove_app app) = ([Erase_app app], None)"
| "operation_writes (Add_domain d) = ([Insert_domain d], None)"
| "operation_writes (Remove_domain d) = ([Erase_domain d], None)"
| "operation_writes (Add_port p) = ([Insert_port p], None)"
| "operation_writes (Remove_port p) = ([Erase_port p], None)"
| "operation_writes (Load_file content) = loadRules_writes content"
| "operation_writes Clear_all = (clearAll_writes, None)"

lemma operation_split:
  "rule_step a rm =
     (case operation_writes a of (ws, None) \<Rightarrow> Inr (fold write_rule ws rm) | (ws, Some e) \<Rightarrow> Inl e)"
proof (cases a)
  case (Load_file content)
  then show ?thesis
    by (cases content)
      (auto simp: loadRules_def loadRules_writes_def load_lines_split clearAll_split
        split: prod.splits option.splits)
qed (auto simp: blockIP_str_def unblockIP_str_def clearAll_split split: sum.splits)

section \<open>The reads of a verdict\<close>

text \<open>The four lookups of \<open>shouldBlock\<close>, each in the rules as they are at its moment.\<close>

definition shouldBlock_reads ::
  "rule_manager \<Rightarrow> rule_manager \<Rightarrow> rule_manager \<Rightarrow> rule_manager \<Rightarrow>
   u32 \<Rightarrow> u16 \<Rightarrow> AppType \<Rightarrow> string \<Rightarrow> block_reason option" where
  "shouldBlock_reads rm1 rm2 rm3 rm4 ip port app domain =
     (if isIPBlocked rm1 ip then Some \<lparr>reason_type = IP, detail = rm_ipToString ip\<rparr>
      else if isPortBlocked rm2 port
        then Some \<lparr>reason_type = PORT, detail = dec (unat port)\<rparr>
      else if isAppBlocked rm3 app
        then Some \<lparr>reason_type = APP, detail = appTypeToString app\<rparr>
      else if isDomainBlocked rm4 domain then Some \<lparr>reason_type = DOMAIN, detail = domain\<rparr>
      else None)"

lemma shouldBlock_undisturbed:
  "shouldBlock_reads rm rm rm rm ip port app domain = shouldBlock rm ip port app domain"
  by (simp add: shouldBlock_reads_def shouldBlock_def)

text \<open>The rules after the first \<open>i\<close> writes of a history.\<close>

definition rules_at :: "rule_write list \<Rightarrow> rule_manager \<Rightarrow> nat \<Rightarrow> rule_manager" where
  "rules_at ws rm i = fold write_rule (take i ws) rm"

text \<open>The verdict of a call whose reads come after \<open>i1\<close>, \<open>i2\<close>, \<open>i3\<close> and \<open>i4\<close> writes.\<close>

definition shouldBlock_during ::
  "rule_write list \<Rightarrow> rule_manager \<Rightarrow> nat \<Rightarrow> nat \<Rightarrow> nat \<Rightarrow> nat \<Rightarrow>
   u32 \<Rightarrow> u16 \<Rightarrow> AppType \<Rightarrow> string \<Rightarrow> block_reason option" where
  "shouldBlock_during ws rm i1 i2 i3 i4 =
     shouldBlock_reads (rules_at ws rm i1) (rules_at ws rm i2) (rules_at ws rm i3) (rules_at ws rm i4)"

text \<open>The rule that a reason names.\<close>

definition in_force :: "block_reason \<Rightarrow> u32 \<Rightarrow> u16 \<Rightarrow> AppType \<Rightarrow> string \<Rightarrow> rule_manager \<Rightarrow> bool" where
  "in_force r ip port app domain rm \<longleftrightarrow>
     (case reason_type r of
        IP \<Rightarrow> isIPBlocked rm ip | PORT \<Rightarrow> isPortBlocked rm port
      | APP \<Rightarrow> isAppBlocked rm app | DOMAIN \<Rightarrow> isDomainBlocked rm domain)"

lemma shouldBlock_None:
  "shouldBlock rm ip port app domain = None \<longleftrightarrow>
   \<not> isIPBlocked rm ip \<and> \<not> isPortBlocked rm port \<and> \<not> isAppBlocked rm app \<and>
   \<not> isDomainBlocked rm domain"
  by (simp add: shouldBlock_def)

text \<open>C21: what a verdict is worth while the rules change under it. A verdict to block names a
  rule that was in force at some moment of the call; a rule in force throughout the call
  blocks; a packet that no rule meant at any moment of the call passes; and a call no write
  falls into is the atomic one.\<close>

theorem verdict_under_changes:
  assumes "i1 \<le> i2" and "i2 \<le> i3" and "i3 \<le> i4"
  shows "(\<forall>r. shouldBlock_during ws rm i1 i2 i3 i4 ip port app domain = Some r \<longrightarrow>
       (\<exists>i. i1 \<le> i \<and> i \<le> i4 \<and> in_force r ip port app domain (rules_at ws rm i))) \<and>
    (\<forall>r. (\<forall>i. i1 \<le> i \<and> i \<le> i4 \<longrightarrow> in_force r ip port app domain (rules_at ws rm i)) \<longrightarrow>
       shouldBlock_during ws rm i1 i2 i3 i4 ip port app domain \<noteq> None) \<and>
    ((\<forall>i. i1 \<le> i \<and> i \<le> i4 \<longrightarrow> shouldBlock (rules_at ws rm i) ip port app domain = None) \<longrightarrow>
       shouldBlock_during ws rm i1 i2 i3 i4 ip port app domain = None) \<and>
    (i1 = i4 \<longrightarrow> shouldBlock_during ws rm i1 i2 i3 i4 ip port app domain =
       shouldBlock (rules_at ws rm i1) ip port app domain)"
proof (intro conjI allI impI)
  fix r
  assume "shouldBlock_during ws rm i1 i2 i3 i4 ip port app domain = Some r"
  then show "\<exists>i. i1 \<le> i \<and> i \<le> i4 \<and> in_force r ip port app domain (rules_at ws rm i)"
    using assms by (auto simp: shouldBlock_during_def shouldBlock_reads_def in_force_def
        split: if_splits intro: exI [of _ i1] exI [of _ i2] exI [of _ i3] exI [of _ i4])
next
  fix r
  assume "\<forall>i. i1 \<le> i \<and> i \<le> i4 \<longrightarrow> in_force r ip port app domain (rules_at ws rm i)"
  then have "in_force r ip port app domain (rules_at ws rm i)" if "i \<in> {i1, i2, i3, i4}" for i
    using that assms by auto
  then show "shouldBlock_during ws rm i1 i2 i3 i4 ip port app domain \<noteq> None"
    by (cases "reason_type r")
      (auto simp: shouldBlock_during_def shouldBlock_reads_def in_force_def)
next
  assume "\<forall>i. i1 \<le> i \<and> i \<le> i4 \<longrightarrow> shouldBlock (rules_at ws rm i) ip port app domain = None"
  then have "shouldBlock (rules_at ws rm i) ip port app domain = None" if "i \<in> {i1, i2, i3, i4}" for i
    using that assms by auto
  then show "shouldBlock_during ws rm i1 i2 i3 i4 ip port app domain = None"
    by (simp add: shouldBlock_None shouldBlock_during_def shouldBlock_reads_def)
next
  assume "i1 = i4"
  then have "i2 = i1" "i3 = i1" using assms by simp_all
  then show "shouldBlock_during ws rm i1 i2 i3 i4 ip port app domain =
      shouldBlock (rules_at ws rm i1) ip port app domain"
    using \<open>i1 = i4\<close> by (simp add: shouldBlock_during_def shouldBlock_undisturbed)
qed

text \<open>Replacing a domain rule by an address rule while a worker asks.\<close>

theorem verdict_under_changes_witness:
  "shouldBlock_during [Insert_ip 1, Erase_domain ''a.org''] (blockDomain ''a.org'' empty_rules) 0 0 0 1
     1 443 HTTPS ''a.org'' = Some \<lparr>reason_type = DOMAIN, detail = ''a.org''\<rparr> \<and>
   (\<exists>i\<le>1. in_force \<lparr>reason_type = DOMAIN, detail = ''a.org''\<rparr> 1 443 HTTPS ''a.org''
      (rules_at [Insert_ip 1, Erase_domain ''a.org''] (blockDomain ''a.org'' empty_rules) i))"
proof -
  have "shouldBlock_during [Insert_ip 1, Erase_domain ''a.org''] (blockDomain ''a.org'' empty_rules) 0 0 0 1
     1 443 HTTPS ''a.org'' = Some \<lparr>reason_type = DOMAIN, detail = ''a.org''\<rparr>"
    by code_simp
  then show ?thesis
    using verdict_under_changes [of 0 0 0 1 "[Insert_ip 1, Erase_domain ''a.org'']"
        "blockDomain ''a.org'' empty_rules" 1 443 HTTPS "''a.org''"] by blast
qed

section \<open>What is lost\<close>

text \<open>The verdict is not that of any one moment: a packet that is to be blocked before, during
  and after a change of the rules, by the old rule or by the new one, can pass.\<close>

theorem verdict_of_no_moment:
  "\<exists>ws rm i4. shouldBlock_during ws rm 0 0 0 i4 ip port HTTPS ''a.org'' = None \<and>
     i4 \<le> length ws \<and>
     (\<forall>i. shouldBlock (rules_at ws rm i) ip port HTTPS ''a.org'' \<noteq> None)"
proof -
  let ?ws = "[Insert_ip ip, Erase_domain ''a.org'']" and ?rm = "blockDomain ''a.org'' empty_rules"
  have m: "rules_at ?ws ?rm 0 = ?rm" "rules_at ?ws ?rm 1 = blockIP ip ?rm"
    "rules_at ?ws ?rm (Suc (Suc i)) = unblockDomain ''a.org'' (blockIP ip ?rm)" for i
    by (simp_all add: rules_at_def)
  have b: "isDomainBlocked ?rm ''a.org''" "\<not> isIPBlocked ?rm ip" "\<not> isPortBlocked ?rm port"
    "\<not> isAppBlocked ?rm HTTPS"
    by (simp_all add: isDomainBlocked_def blockDomain_def empty_rules_def isIPBlocked_def
        isPortBlocked_def isAppBlocked_def)
  have a: "isIPBlocked (blockIP ip rm) ip" "isIPBlocked (unblockDomain d (blockIP ip rm)) ip" for rm d
    by (simp_all add: isIPBlocked_def blockIP_def unblockDomain_def)
  have n: "\<not> isDomainBlocked (unblockDomain ''a.org'' (blockIP ip ?rm)) ''a.org''"
    by (simp add: isDomainBlocked_def blockDomain_def empty_rules_def unblockDomain_def blockIP_def)
  have "shouldBlock (rules_at ?ws ?rm i) ip port HTTPS ''a.org'' \<noteq> None" for i
  proof -
    consider "i = 0" | "i = 1" | j where "i = Suc (Suc j)"
      by (metis One_nat_def not0_implies_Suc)
    then show ?thesis by cases (use m a b in \<open>simp_all add: shouldBlock_None\<close>)
  qed
  moreover have "shouldBlock_during ?ws ?rm 0 0 0 2 ip port HTTPS ''a.org'' = None"
    using m(1) m(3) [of 0] b n
    by (simp add: shouldBlock_during_def shouldBlock_reads_def numeral_2_eq_2)
  ultimately show ?thesis by (intro exI [of _ ?ws] exI [of _ ?rm] exI [of _ 2]) simp
qed

text \<open>C23: loading rules opens the gate while it lasts. \<open>loadRules\<close> clears the four categories
  before it reads the file, so whatever was blocked and whatever the file blocks again,
  there is a moment in which no rule is in force and a worker that asks then lets its
  packet pass; after the load, without other changes, the rules are exactly those of the
  file, as long as no line of it makes the call fail.\<close>

theorem load_opens_gate:
  assumes "loadRules_writes (Some content) = (ws, e)"
  shows "(\<exists>i \<le> length ws. \<forall>ip port app domain.
       shouldBlock_during ws rm i i i i ip port app domain = None) \<and>
    loadRules (Some content) rm =
      (case e of None \<Rightarrow> Inr (True, rules_at ws rm (length ws)) | Some f \<Rightarrow> Inl f)"
proof -
  obtain vs where v: "load_writes (getlines [] content) = (vs, e)" and w: "ws = clearAll_writes @ vs"
    using assms by (auto simp: loadRules_writes_def split: prod.splits)
  have l: "length clearAll_writes = 4" by (simp add: clearAll_writes_def)
  have c: "rules_at ws rm 4 = clearAll rm"
    using l w clearAll_split by (simp add: rules_at_def)
  have "shouldBlock_during ws rm 4 4 4 4 ip port app domain = None" for ip port app domain
    unfolding shouldBlock_during_def c shouldBlock_undisturbed
    by (simp add: shouldBlock_def clearAll_def isIPBlocked_def isPortBlocked_def isAppBlocked_def
        isDomainBlocked_def)
  moreover have "loadRules (Some content) rm =
      (case e of None \<Rightarrow> Inr (True, rules_at ws rm (length ws)) | Some f \<Rightarrow> Inl f)"
    using v w clearAll_split [of rm]
    by (cases e) (simp_all add: loadRules_def load_lines_split rules_at_def)
  ultimately show ?thesis using l w by (intro conjI exI [of _ 4]) auto
qed

theorem load_opens_gate_witness:
  "\<exists>i \<le> 5. \<forall>port app domain.
     shouldBlock_during [Clear_ips, Clear_apps, Clear_domains, Clear_ports, Insert_ip 1] (blockIP 1 empty_rules)
       i i i i 1 port app domain = None"
proof -
  have "loadRules_writes (Some ''IP 1.0.0.0'') =
      ([Clear_ips, Clear_apps, Clear_domains, Clear_ports, Insert_ip 1], None)"
    by code_simp
  from load_opens_gate [OF this, of "blockIP 1 empty_rules"] obtain i where
      "i \<le> length [Clear_ips, Clear_apps, Clear_domains, Clear_ports, Insert_ip 1]" and
      "\<forall>ip port app domain. shouldBlock_during [Clear_ips, Clear_apps, Clear_domains, Clear_ports, Insert_ip 1]
         (blockIP 1 empty_rules) i i i i ip port app domain = None"
    by blast
  then show ?thesis by (intro exI [of _ i]) simp
qed

end
