(* ===== verification/Wire_Headers.thy ===== *)
theory Wire_Headers
  imports Packet_Parser
begin

text \<open>
  The four header structures that \<open>include/packet_parser.h\<close> declares next to the parser
  (\<open>EthernetHeader\<close>, \<open>IPv4Header\<close>, \<open>TCPHeader\<close>, \<open>UDPHeader\<close>), with the layout a C++
  compiler gives them: every member at the next multiple of its alignment, the size rounded
  up to the alignment of the structure. The parser does not go through them; it reads at
  offsets written out by hand. Shown here: the structures are the headers on the wire, and
  the parser reads what their members say.
\<close>

section \<open>Member types and layout\<close>

datatype ctype = C_u8 | C_u16 | C_u32 | C_array nat

fun csize :: "ctype \<Rightarrow> nat" where
  "csize C_u8 = 1" | "csize C_u16 = 2" | "csize C_u32 = 4" | "csize (C_array n) = n"

fun calign :: "ctype \<Rightarrow> nat" where
  "calign C_u8 = 1" | "calign C_u16 = 2" | "calign C_u32 = 4" | "calign (C_array n) = 1"

definition round_up :: "nat \<Rightarrow> nat \<Rightarrow> nat" where
  "round_up a n = (n + a - 1) div a * a"

text \<open>The offsets of the members, and the end of the last.\<close>

fun member_offsets :: "nat \<Rightarrow> ctype list \<Rightarrow> nat list" where
  "member_offsets p [] = [p]"
| "member_offsets p (t # ts) =
     (let p' = round_up (calign t) p in p' # member_offsets (p' + csize t) ts)"

definition struct_align :: "nat \<Rightarrow> ctype list \<Rightarrow> nat" where
  "struct_align a ts = fold max (map calign ts) a"

definition struct_size :: "nat \<Rightarrow> ctype list \<Rightarrow> nat" where
  "struct_size a ts = round_up (struct_align a ts) (last (member_offsets 0 ts))"

section \<open>The structures\<close>

record EthernetHeader =
  eth_dest_mac :: bytes
  eth_src_mac :: bytes
  eth_ether_type :: u16

record IPv4Header =
  ip4_version_ihl :: u8
  ip4_tos :: u8
  ip4_total_length :: u16
  ip4_identification :: u16
  ip4_flags_fragment :: u16
  ip4_ttl :: u8
  ip4_protocol :: u8
  ip4_checksum :: u16
  ip4_src_ip :: u32
  ip4_dest_ip :: u32

record TCPHeader =
  tcph_src_port :: u16
  tcph_dest_port :: u16
  tcph_seq_number :: u32
  tcph_ack_number :: u32
  tcph_data_offset :: u8
  tcph_flags :: u8
  tcph_window :: u16
  tcph_checksum :: u16
  tcph_urgent_pointer :: u16

record UDPHeader =
  udph_src_port :: u16
  udph_dest_port :: u16
  udph_length :: u16
  udph_checksum :: u16

definition EthernetHeader_members :: "ctype list" where
  "EthernetHeader_members = [C_array 6, C_array 6, C_u16]"

definition IPv4Header_members :: "ctype list" where
  "IPv4Header_members =
     [C_u8, C_u8, C_u16, C_u16, C_u16, C_u8, C_u8, C_u16, C_u32, C_u32]"

definition TCPHeader_members :: "ctype list" where
  "TCPHeader_members = [C_u16, C_u16, C_u32, C_u32, C_u8, C_u8, C_u16, C_u16, C_u16]"

definition UDPHeader_members :: "ctype list" where
  "UDPHeader_members = [C_u16, C_u16, C_u16, C_u16]"

definition ETHERTYPE_IPv6 :: u16 where "ETHERTYPE_IPv6 = 0x86DD"
definition ETHERTYPE_ARP :: u16 where "ETHERTYPE_ARP = 0x0806"

section \<open>A structure laid over the frame\<close>

text \<open>
  What \<open>memcpy\<close> of the structure from position \<open>p\<close> of the frame puts into its members,
  in the byte order of the host.
\<close>

definition member :: "bytes \<Rightarrow> nat \<Rightarrow> ctype list \<Rightarrow> nat \<Rightarrow> nat \<Rightarrow> u8" where
  "member d p ts k i = d ! (p + member_offsets 0 ts ! k + i)"

definition member8 :: "bytes \<Rightarrow> nat \<Rightarrow> ctype list \<Rightarrow> nat \<Rightarrow> u8" where
  "member8 d p ts k = member d p ts k 0"

definition member16 :: "bool \<Rightarrow> bytes \<Rightarrow> nat \<Rightarrow> ctype list \<Rightarrow> nat \<Rightarrow> u16" where
  "member16 le d p ts k = load16 le (member d p ts k 0) (member d p ts k 1)"

definition member32 :: "bool \<Rightarrow> bytes \<Rightarrow> nat \<Rightarrow> ctype list \<Rightarrow> nat \<Rightarrow> u32" where
  "member32 le d p ts k =
     load32 le (member d p ts k 0) (member d p ts k 1) (member d p ts k 2) (member d p ts k 3)"

definition over_EthernetHeader :: "bool \<Rightarrow> bytes \<Rightarrow> nat \<Rightarrow> EthernetHeader" where
  "over_EthernetHeader le d p =
     (let ts = EthernetHeader_members
      in \<lparr>eth_dest_mac = map (member d p ts 0) [0..<6], eth_src_mac = map (member d p ts 1) [0..<6],
          eth_ether_type = member16 le d p ts 2\<rparr>)"

definition over_IPv4Header :: "bool \<Rightarrow> bytes \<Rightarrow> nat \<Rightarrow> IPv4Header" where
  "over_IPv4Header le d p =
     (let ts = IPv4Header_members
      in \<lparr>ip4_version_ihl = member8 d p ts 0, ip4_tos = member8 d p ts 1,
          ip4_total_length = member16 le d p ts 2, ip4_identification = member16 le d p ts 3,
          ip4_flags_fragment = member16 le d p ts 4, ip4_ttl = member8 d p ts 5,
          ip4_protocol = member8 d p ts 6, ip4_checksum = member16 le d p ts 7,
          ip4_src_ip = member32 le d p ts 8, ip4_dest_ip = member32 le d p ts 9\<rparr>)"

definition over_TCPHeader :: "bool \<Rightarrow> bytes \<Rightarrow> nat \<Rightarrow> TCPHeader" where
  "over_TCPHeader le d p =
     (let ts = TCPHeader_members
      in \<lparr>tcph_src_port = member16 le d p ts 0, tcph_dest_port = member16 le d p ts 1,
          tcph_seq_number = member32 le d p ts 2, tcph_ack_number = member32 le d p ts 3,
          tcph_data_offset = member8 d p ts 4, tcph_flags = member8 d p ts 5,
          tcph_window = member16 le d p ts 6, tcph_checksum = member16 le d p ts 7,
          tcph_urgent_pointer = member16 le d p ts 8\<rparr>)"

definition over_UDPHeader :: "bool \<Rightarrow> bytes \<Rightarrow> nat \<Rightarrow> UDPHeader" where
  "over_UDPHeader le d p =
     (let ts = UDPHeader_members
      in \<lparr>udph_src_port = member16 le d p ts 0, udph_dest_port = member16 le d p ts 1,
          udph_length = member16 le d p ts 2, udph_checksum = member16 le d p ts 3\<rparr>)"

lemma layouts:
  "member_offsets 0 EthernetHeader_members = [0, 6, 12, 14]"
  "member_offsets 0 IPv4Header_members = [0, 1, 2, 4, 6, 8, 9, 10, 12, 16, 20]"
  "member_offsets 0 TCPHeader_members = [0, 2, 4, 8, 12, 13, 14, 16, 18, 20]"
  "member_offsets 0 UDPHeader_members = [0, 2, 4, 6, 8]"
  by code_simp+

text \<open>The members of the laid-over structures, by their place in the frame.\<close>

lemma over_members:
  "eth_ether_type (over_EthernetHeader le d p) = load16 le (d ! (p + 12)) (d ! (p + 13))"
  "ip4_version_ihl (over_IPv4Header le d p) = d ! p"
  "ip4_ttl (over_IPv4Header le d p) = d ! (p + 8)"
  "ip4_protocol (over_IPv4Header le d p) = d ! (p + 9)"
  "ip4_src_ip (over_IPv4Header le d p) =
     load32 le (d ! (p + 12)) (d ! (p + 13)) (d ! (p + 14)) (d ! (p + 15))"
  "ip4_dest_ip (over_IPv4Header le d p) =
     load32 le (d ! (p + 16)) (d ! (p + 17)) (d ! (p + 18)) (d ! (p + 19))"
  "tcph_src_port (over_TCPHeader le d p) = load16 le (d ! p) (d ! (p + 1))"
  "tcph_dest_port (over_TCPHeader le d p) = load16 le (d ! (p + 2)) (d ! (p + 3))"
  "tcph_seq_number (over_TCPHeader le d p) =
     load32 le (d ! (p + 4)) (d ! (p + 5)) (d ! (p + 6)) (d ! (p + 7))"
  "tcph_ack_number (over_TCPHeader le d p) =
     load32 le (d ! (p + 8)) (d ! (p + 9)) (d ! (p + 10)) (d ! (p + 11))"
  "tcph_data_offset (over_TCPHeader le d p) = d ! (p + 12)"
  "tcph_flags (over_TCPHeader le d p) = d ! (p + 13)"
  "udph_src_port (over_UDPHeader le d p) = load16 le (d ! p) (d ! (p + 1))"
  "udph_dest_port (over_UDPHeader le d p) = load16 le (d ! (p + 2)) (d ! (p + 3))"
  by (simp_all add: over_EthernetHeader_def over_IPv4Header_def over_TCPHeader_def
      over_UDPHeader_def member_def member8_def member16_def member32_def layouts Let_def
      numeral_eq_Suc)

lemma over_macs:
  "14 \<le> length d \<Longrightarrow> eth_dest_mac (over_EthernetHeader le d 0) = take 6 d"
  "14 \<le> length d \<Longrightarrow> eth_src_mac (over_EthernetHeader le d 0) = take 6 (drop 6 d)"
  by (auto simp: over_EthernetHeader_def member_def layouts Let_def intro!: nth_equalityI)

section \<open>The structures are the headers on the wire\<close>

definition no_padding :: "nat \<Rightarrow> ctype list \<Rightarrow> bool" where
  "no_padding a ts \<longleftrightarrow> struct_size a ts = sum_list (map csize ts)"

lemma headers_wire:
  "struct_size 2 EthernetHeader_members = 14 \<and> struct_size 4 IPv4Header_members = 20 \<and>
   struct_size 4 TCPHeader_members = 20 \<and> struct_size 4 UDPHeader_members = 8 \<and>
   no_padding 2 EthernetHeader_members \<and> no_padding 4 IPv4Header_members \<and>
   no_padding 4 TCPHeader_members \<and> no_padding 4 UDPHeader_members"
  by code_simp

text \<open>The MAC address text of six bytes.\<close>

fun mac_text :: "bytes \<Rightarrow> string" where
  "mac_text [] = []"
| "mac_text [b] = hex2 b"
| "mac_text (b # bs) = hex2 b @ '':'' @ mac_text bs"

lemma six: "length bs = 6 \<Longrightarrow> \<exists>a b c d e f. bs = [a, b, c, d, e, f]"
  by (auto simp: numeral_eq_Suc length_Suc_conv)

lemma mac_unroll:
  assumes "mac + 6 \<le> length m"
  shows "macToString m mac = Inr (mac_text (take 6 (drop mac m)))"
proof -
  have r: "rd m (int (mac + i)) = Inr (take 6 (drop mac m) ! i)" if "i < 6" for i
    using assms that by (subst rd_nth) simp_all
  obtain a b c d e f where s: "take 6 (drop mac m) = [a, b, c, d, e, f]"
    using six [of "take 6 (drop mac m)"] assms by auto
  have v: "rd m (int mac) = Inr a" "rd m (int (Suc mac)) = Inr b" "rd m (int (Suc (Suc mac))) = Inr c"
    "rd m (int (Suc (Suc (Suc mac)))) = Inr d" "rd m (int (Suc (Suc (Suc (Suc mac))))) = Inr e"
    "rd m (int (Suc (Suc (Suc (Suc (Suc mac)))))) = Inr f"
    using r [of 0, unfolded s] r [of 1, unfolded s] r [of 2, unfolded s] r [of 3, unfolded s]
      r [of 4, unfolded s] r [of 5, unfolded s]
    by (simp_all add: numeral_eq_Suc del: of_nat_add of_nat_Suc)
  show ?thesis unfolding s macToString_def
    by (simp add: mac_loop.simps [of m mac] v numeral_eq_Suc del: of_nat_add of_nat_Suc)
qed

section \<open>The parser reads the members\<close>

definition macs_kept :: "parsed_packet \<Rightarrow> (bool \<times> parsed_packet \<times> nat) res \<Rightarrow> bool" where
  "macs_kept p r \<longleftrightarrow>
     (\<forall>ok p' off. r = Inr (ok, p', off) \<longrightarrow> dest_mac p' = dest_mac p \<and> src_mac p' = src_mac p)"

lemma macs_keptI:
  "dest_mac p' = dest_mac p \<Longrightarrow> src_mac p' = src_mac p \<Longrightarrow> macs_kept p (Inr (ok, p', off))"
  "macs_kept p r \<Longrightarrow> macs_kept p s \<Longrightarrow> macs_kept p (if b then r else s)"
  "(\<And>x. macs_kept p (f x)) \<Longrightarrow> macs_kept p (andThen q f)"
  by (auto simp: macs_kept_def)

lemma parseIPv4_macs: "macs_kept p (parseIPv4 le d n p off)"
  unfolding parseIPv4_def Let_def by (intro macs_keptI) simp_all

lemma parse_l4_macs: "macs_kept p (parse_l4 le d n p off)"
  unfolding parse_l4_def parseTCP_def parseUDP_def Let_def by (intro macs_keptI) simp_all

lemma layers_keep_macs:
  assumes "parse_l3 le d n p off = Inr (ok, p', off')"
  shows "dest_mac p' = dest_mac p \<and> src_mac p' = src_mac p"
proof (cases "parseIPv4 le d n p off")
  case (Inr r)
  obtain ok1 p1 off1 where r: "r = (ok1, p1, off1)" by (cases r)
  then have "dest_mac p1 = dest_mac p \<and> src_mac p1 = src_mac p"
    using parseIPv4_macs [of p le d n off] Inr by (auto simp: macs_kept_def)
  then show ?thesis
    using assms Inr r parse_l4_macs [of p1 le d n off1]
    by (auto simp: parse_l3_def macs_kept_def split: if_splits)
qed (use assms in \<open>auto simp: parse_l3_def split: if_splits\<close>)

lemma parse_macs:
  assumes "parse le raw = Inr (True, p)"
  shows "14 \<le> length (raw_data raw) \<and> dest_mac p = mac_text (take 6 (raw_data raw)) \<and>
    src_mac p = mac_text (take 6 (drop 6 (raw_data raw)))"
proof -
  have l: "14 \<le> length (raw_data raw)"
    using assms by (rule_tac ccontr) (simp add: parse_def Let_def parseEthernet_short)
  then have m: "macToString (raw_data raw) 0 = Inr (mac_text (take 6 (raw_data raw)))"
    "macToString (raw_data raw) 6 = Inr (mac_text (take 6 (drop 6 (raw_data raw))))"
    using mac_unroll [of 0 "raw_data raw"] mac_unroll [of 6 "raw_data raw"] by simp_all
  show ?thesis
    using assms l m
    by (auto simp: parse_def Let_def parseEthernet_def rd16_eq set_payload_def
        split: if_splits dest!: layers_keep_macs)
qed

lemma set_payload_rest [simp]:
  "dest_mac (set_payload n p off) = dest_mac p" "src_mac (set_payload n p off) = src_mac p"
  "ether_type (set_payload n p off) = ether_type p" "ip_version (set_payload n p off) = ip_version p"
  "ttl (set_payload n p off) = ttl p" "seq_number (set_payload n p off) = seq_number p"
  "ack_number (set_payload n p off) = ack_number p"
  by (simp_all add: set_payload_def)

text \<open>C24: the header structures are the headers of the frame. Every member of the four is at the
  place its field has on the wire, and their sizes are 14, 20, 20 and 8 bytes; an accepted
  frame has room for them; and what the parser stores of an accepted TCP or UDP frame, although it reads at offsets written by hand, is what the members of the
  structures laid over the frame say: the two MAC addresses and the Ethernet type, version,
  TTL, protocol and addresses of the IP header, and of the header that starts where the IP
  header ends the two ports, and for TCP the sequence numbers, the data offset and the flags;
  the payload is what is behind that header.\<close>

theorem parser_reads_headers:
  assumes "tcp_frame (raw_data raw) \<or> udp_frame (raw_data raw)"
  shows "member_offsets 0 EthernetHeader_members = [0, 6, 12, 14] \<and>
    member_offsets 0 IPv4Header_members = [0, 1, 2, 4, 6, 8, 9, 10, 12, 16, 20] \<and>
    member_offsets 0 TCPHeader_members = [0, 2, 4, 8, 12, 13, 14, 16, 18, 20] \<and>
    member_offsets 0 UDPHeader_members = [0, 2, 4, 6, 8] \<and>
    struct_size 2 EthernetHeader_members = 14 \<and> struct_size 4 IPv4Header_members = 20 \<and>
    struct_size 4 TCPHeader_members = 20 \<and> struct_size 4 UDPHeader_members = 8 \<and>
    (\<exists>p. parse le raw = Inr (True, p) \<and>
    (let d = raw_data raw;
         eth = over_EthernetHeader le d 0;
         ip = over_IPv4Header le d (struct_size 2 EthernetHeader_members);
         ihl = unat (ip4_version_ihl ip AND 0x0F) * 4;
         l4 = struct_size 2 EthernetHeader_members + ihl;
         tcp = over_TCPHeader le d l4;
         udp = over_UDPHeader le d l4
     in struct_size 4 IPv4Header_members \<le> ihl \<and>
        dest_mac p = mac_text (eth_dest_mac eth) \<and> src_mac p = mac_text (eth_src_mac eth) \<and>
        ether_type p = netToHost16 le (eth_ether_type eth) \<and>
        ip_version p = drop_bit 4 (ip4_version_ihl ip) AND 0x0F \<and>
        ttl p = ip4_ttl ip \<and> ip_protocol p = ip4_protocol ip \<and>
        src_ip_str p = ipToString (ip4_src_ip ip) \<and> dest_ip_str p = ipToString (ip4_dest_ip ip) \<and>
        (if has_tcp p
         then l4 + struct_size 4 TCPHeader_members \<le> length d \<and>
           struct_size 4 TCPHeader_members \<le> unat (drop_bit 4 (tcph_data_offset tcp) AND 0x0F) * 4 \<and>
           l4_src_port p = netToHost16 le (tcph_src_port tcp) \<and>
           l4_dest_port p = netToHost16 le (tcph_dest_port tcp) \<and>
           seq_number p = netToHost32 le (tcph_seq_number tcp) \<and>
           ack_number p = netToHost32 le (tcph_ack_number tcp) \<and>
           tcp_flags p = tcph_flags tcp \<and>
           parsed_payload_length p =
             length d - (l4 + unat (drop_bit 4 (tcph_data_offset tcp) AND 0x0F) * 4)
         else has_udp p \<and> l4 + struct_size 4 UDPHeader_members \<le> length d \<and>
           l4_src_port p = netToHost16 le (udph_src_port udp) \<and>
           l4_dest_port p = netToHost16 le (udph_dest_port udp) \<and>
           parsed_payload_length p = length d - (l4 + struct_size 4 UDPHeader_members))))"
proof -
  let ?d = "raw_data raw"
  have s: "struct_size 2 EthernetHeader_members = 14" "struct_size 4 IPv4Header_members = 20"
    "struct_size 4 TCPHeader_members = 20" "struct_size 4 UDPHeader_members = 8"
    using headers_wire by simp_all
  have f: "14 \<le> length ?d" "20 \<le> l3_len ?d" "drop_bit 4 (?d ! 14) AND 0x0F = 4"
    using assms by (auto simp: frame_defs)
  have l: "unat (?d ! 14 AND 0x0F) * 4 = l3_len ?d" by (simp add: l3_len_def)
  then have five: "5 \<le> unat (?d ! 14 AND 0x0F)" using f(2) by simp
  note [simp] = Let_def s over_members over_macs l with_ip_def base_packet_def netToHost16_load16
    netToHost32_load32 set_payload_simps payload_start_def l4_off_def tcp_len_def
  show ?thesis
  proof (cases "tcp_frame ?d")
    case True
    obtain dm sm where p: "parse le raw = Inr (True, set_payload (length ?d)
      (with_tcp ?d (with_ip le ?d (base_packet raw dm sm))) (payload_start ?d))"
      using parse_tcp [OF True] by blast
    have "?d ! 23 = TCP_PROTO" using True by (simp add: frame_defs)
    moreover have "dm = mac_text (take 6 ?d)" "sm = mac_text (take 6 (drop 6 ?d))"
      using parse_macs [OF p] by (simp_all add: with_tcp_def)
    ultimately show ?thesis
      using f five True unfolding layouts s simp_thms
      by (intro exI, rule_tac conjI [OF p]) (auto simp: with_tcp_def tcp_frame_def)
  next
    case False
    then have udp: "udp_frame ?d" using assms by blast
    obtain dm sm where p: "parse le raw = Inr (True, set_payload (length ?d)
      (with_udp ?d (with_ip le ?d (base_packet raw dm sm))) (payload_start ?d))"
      using parse_udp [OF udp] by blast
    have "?d ! 23 = UDP_PROTO" using udp by (simp add: frame_defs)
    moreover have "dm = mac_text (take 6 ?d)" "sm = mac_text (take 6 (drop 6 ?d))"
      using parse_macs [OF p] by (simp_all add: with_udp_def)
    moreover have "\<not> has_tcp empty_packet" by (simp add: empty_packet_def)
    ultimately show ?thesis
      using f five ports_distinct udp unfolding layouts s simp_thms
      by (intro exI, rule_tac conjI [OF p]) (simp add: with_udp_def udp_frame_def)
  qed
qed

theorem parser_reads_headers_witness:
  "\<exists>p. parse True \<lparr>header = \<lparr>ts_sec = 1, ts_usec = 2, incl_len = 57, orig_len = 57\<rparr>,
       raw_data = sample_frame 0x18 [1, 2, 3]\<rparr> = Inr (True, p) \<and>
     dest_mac p = ''aa:bb:cc:dd:ee:ff'' \<and> ttl p = 64 \<and> ip_version p = 4"
proof -
  have t: "tcp_frame (raw_data \<lparr>header = \<lparr>ts_sec = 1, ts_usec = 2, incl_len = 57, orig_len = 57\<rparr>,
       raw_data = sample_frame 0x18 [1, 2, 3]\<rparr>)" by (simp add: sample_frame_layout)
  have s: "struct_size 2 EthernetHeader_members = 14" using headers_wire by simp
  have v: "mac_text (take 6 (sample_frame 0x18 [1, 2, 3])) = ''aa:bb:cc:dd:ee:ff''" by code_simp
  show ?thesis
    using parser_reads_headers [OF disjI1 [OF t], of True] s v
    by (auto simp: Let_def over_members over_macs sample_frame_def)
qed

text \<open>
  What the hand-written reads cost: the frame starts at the start of a vector's memory, and
  no IP header in it can be aligned for the structures (\<open>alignas(4)\<close>), nor are the sequence
  numbers that the parser reads as \<open>uint32_t\<close> in place. \<open>base\<close> is the address of the frame.
\<close>

definition tcp_word_addresses :: "nat \<Rightarrow> bytes \<Rightarrow> nat list" where
  "tcp_word_addresses base d = [base + l4_off d + 4, base + l4_off d + 8]"

text \<open>The parser reads the two sequence numbers of every TCP frame at an address that is not a
  multiple of the alignment of their type, whenever the captured frame itself starts at
  one (which the memory of a vector does).\<close>

theorem tcp_words_misaligned:
  assumes "base mod 4 = 0"
  shows "\<forall>a \<in> set (tcp_word_addresses base d). a mod calign C_u32 = 2"
proof -
  have "l3_len d mod 4 = 0" by (simp add: l3_len_def)
  then have "(base + l4_off d) mod 4 = 2"
    using assms unfolding l4_off_def by presburger
  then show ?thesis unfolding tcp_word_addresses_def by simp presburger
qed

theorem tcp_words_misaligned_witness:
  "tcp_word_addresses 4096 (sample_frame 0x18 []) = [4134, 4138] \<and> (4134 :: nat) mod 4 = 2"
  using tcp_words_misaligned [of 4096 "sample_frame 0x18 []"]
  by (simp add: tcp_word_addresses_def sample_frame_layout)

end
