(* ===== verification/Report_Totals.thy ===== *)
theory Report_Totals
  imports Process_File Reports
begin

text \<open>
  The numbers of the report come from three places that count for themselves: the engine's own
  counters, the load balancers and the workers (\<open>getAggregatedStats\<close> of
  \<open>src/load_balancer.cpp\<close> and \<open>src/fast_path.cpp\<close>). Shown here: in every state of every run
  they agree, up to the jobs that are on their way between two of them.
\<close>

section \<open>The books of the threads\<close>

text \<open>A load balancer has dispatched what it received, but for the job in its hand, and knows to whom.\<close>

definition lb_books :: "load_balancer \<Rightarrow> bool" where
  "lb_books lb \<longleftrightarrow>
     packets_received lb = packets_dispatched lb + word_of_nat (length (opt_list (in_hand lb))) \<and>
     sum_list (per_fp_counts lb) = packets_dispatched lb \<and> length (per_fp_counts lb) = num_fps lb"

definition fp_books :: "fast_path \<Rightarrow> bool" where
  "fp_books fp \<longleftrightarrow> packets_processed fp = packets_forwarded fp + packets_dropped fp"

text \<open>What a worker was given: what it has handled, and what waits in its queue.\<close>

definition given :: "fast_path \<Rightarrow> u64" where
  "given fp = packets_processed fp + word_of_nat (length (queue (input_queue fp)))"

definition books :: "system \<Rightarrow> bool" where
  "books s \<longleftrightarrow>
     (\<forall>lb \<in> set (lbs (tier s)). lb_books lb) \<and> (\<forall>fp \<in> set (workers s). fp_books fp) \<and>
     sum_list (map packets_dispatched (lbs (tier s))) = sum_list (map given (workers s)) \<and>
     sum_list (map packets_forwarded (workers s)) = forwarded_packets (sys_stats s) \<and>
     sum_list (map packets_dropped (workers s)) = dropped_packets (sys_stats s)"

lemma sum_map_change:
  fixes g :: "'a \<Rightarrow> u64"
  shows "i < length xs \<Longrightarrow> sum_list (map g (xs[i := x])) = sum_list (map g xs) + g x - g (xs ! i)"
proof (induction xs arbitrary: i)
  case (Cons a xs)
  then show ?case by (cases i) (auto simp: algebra_simps)
qed simp

lemma sum_change:
  fixes xs :: "u64 list"
  shows "i < length xs \<Longrightarrow> sum_list (xs[i := x]) = sum_list xs + x - xs ! i"
  using sum_map_change [of i xs id x] by simp

lemma books_lb:
  assumes "books s" and "i < length (lbs (tier s))" and "lb_books lb"
    and "packets_dispatched lb = packets_dispatched (lbs (tier s) ! i)"
  shows "books (update_lb i lb s)"
  using assms sum_map_change [OF assms(2), of packets_dispatched lb]
  by (auto simp: books_def dest: set_update_subset_insert [THEN subsetD])

lemma books_lb_nth: "books s \<Longrightarrow> i < length (lbs (tier s)) \<Longrightarrow> lb_books (lbs (tier s) ! i)"
  by (simp add: books_def)

lemma books_fp_nth: "books s \<Longrightarrow> w < length (workers s) \<Longrightarrow> fp_books (workers s ! w)"
  by (simp add: books_def)

lemma books_other [simp]:
  "books (s\<lparr>to_read := js\<rparr>) = books s" "books (s\<lparr>engine_running := b\<rparr>) = books s"
  "books (s\<lparr>lb_alive := bs\<rparr>) = books s" "books (s\<lparr>fp_alive := bs\<rparr>) = books s"
  "books (s\<lparr>writer_alive := b\<rparr>) = books s" "books (s\<lparr>outq := q\<rparr>) = books s"
  "books (s\<lparr>written := ws\<rparr>) = books s" "books (s\<lparr>dropped := ds\<rparr>) = books s"
  "books (s\<lparr>holding := hs\<rparr>) = books s"
  by (simp_all add: books_def)

section \<open>The steps keep the books\<close>

lemma lb_give_counts:
  assumes "lb_give lb qs = Inr (Some (lb', qs'))" and "in_hand lb = Some job" and "lb_books lb"
  shows "lb_books lb' \<and> packets_dispatched lb' = packets_dispatched lb + 1"
proof -
  obtain i where i: "selectFP lb (job_tuple job) = Inr i" using assms(1,2) by (auto simp: lb_give_def)
  then have "i < length (per_fp_counts lb)"
    using assms(3) by (auto simp: selectFP_def lb_books_def split: if_splits)
  then show ?thesis
    using assms i sum_change [of i "per_fp_counts lb" "per_fp_counts lb ! i + 1"]
    by (auto simp: lb_give_def lb_books_def Let_def split: option.splits)
qed

lemma books_dispatch:
  assumes "sound_state l f s" and "books s" and "lb_push_step i s = Inr (Some s')"
  shows "books s'"
proof -
  have t: "topology l f s" "shut_order s" "routed l f (lanes_of s)"
    using assms(1) by (auto simp: sound_state_def)
  have i: "i < length (lbs (tier s))" and h: "in_hand (lbs (tier s) ! i) \<noteq> None"
    using assms(3) by (auto simp: lb_push_step_def split: if_splits)
  then obtain j where j: "in_hand (lbs (tier s) ! i) = Some j" by blast
  have il: "i < l" using i t(1) by (simp add: topology_def)
  define w where "w = route l f (job_tuple j)"
  have w: "w < length (workers s)"
    using t(1) route_bound [of f l "job_tuple j"] by (simp add: topology_def w_def)
  let ?fp = "(workers s ! w)\<lparr>input_queue := enqueue j (input_queue (workers s ! w))\<rparr>"
  obtain lb where s': "s' = update_lb i lb (update_worker w ?fp s)"
    using lb_push_step_eq [OF t il j] assms(3) by (auto simp: w_def split: if_splits)
  obtain lb' qs where g: "lb_give (lbs (tier s) ! i) (map input_queue (workers s)) = Inr (Some (lb', qs))"
    and s'': "lbs (tier s') = (lbs (tier s))[i := lb']"
    using assms(3) i h by (auto simp: lb_push_step_def split: option.splits)
  have "lb = lb'" using s' s'' i by (metis nth_list_update_eq update_lb_simps(11) update_worker_simps(2))
  then have lb: "lb_books lb" "packets_dispatched lb = packets_dispatched (lbs (tier s) ! i) + 1"
    using lb_give_counts [OF g j books_lb_nth [OF assms(2) i]] by simp_all
  have "fp_books ?fp" "given ?fp = given (workers s ! w) + 1"
    using books_fp_nth [OF assms(2) w] by (simp_all add: fp_books_def given_def)
  then show ?thesis
    using assms(2) lb sum_map_change [OF i, of packets_dispatched lb] sum_map_change [OF w, of given ?fp]
      sum_map_change [OF w, of packets_forwarded ?fp] sum_map_change [OF w, of packets_dropped ?fp]
    unfolding s' books_def
    by (auto dest: set_update_subset_insert [THEN subsetD])
qed

lemma books_work:
  assumes "sound_state l f s" and "books s" and "worker_step rules ns t1 t2 w s = Inr (Some s')"
  shows "books s'"
proof -
  obtain jo q out fp where p: "popWithTimeout (input_queue (workers s ! w)) = (jo, q)"
    and r: "run_body ns t1 t2 rules jo ((workers s ! w)\<lparr>input_queue := q\<rparr>) = Inr (out, fp)"
    and w: "w < length (workers s)"
    using worker_step_effect [OF assms(3)] by blast
  have ok: "tracker_inv (conn_tracker ((workers s ! w)\<lparr>input_queue := q\<rparr>))" "\<forall>job. jo = Some job \<longrightarrow> job_ok job"
    using popped_ok [OF _ w p] assms(1) by (auto simp: sound_state_def)
  have q: "length (queue (input_queue (workers s ! w))) = length (queue q) + (if jo = None then 0 else 1)"
    using p by (auto simp: popWithTimeout_eq take_front_def split: list.splits)
  let ?f = "if map_option snd out = Some FORWARD then 1 else 0 :: u64"
  let ?d = "if map_option snd out = Some DROP then 1 else 0 :: u64"
  have c: "packets_processed fp = packets_processed (workers s ! w) + (if jo = None then 0 else 1)"
    "packets_forwarded fp = packets_forwarded (workers s ! w) + ?f"
    "packets_dropped fp = packets_dropped (workers s ! w) + ?d"
    "input_queue fp = q" "map_option fst out = jo"
    "\<forall>job action. out = Some (job, action) \<longrightarrow> action \<in> {FORWARD, DROP}"
    using run_body_result [OF ok, where rules = rules and ?t1.0 = t1 and ?t2.0 = t2 and ns = ns] r by auto
  have st: "forwarded_packets (sys_stats s') = forwarded_packets (sys_stats s) + ?f"
    "dropped_packets (sys_stats s') = dropped_packets (sys_stats s) + ?d"
    "workers s' = (workers s)[w := fp]" "tier s' = tier s"
    using assms(3) p r c(6)
    by (cases out; auto simp: worker_step_def handleOutput_def Let_def split: if_splits)+
  have "packets_processed fp = packets_processed (workers s ! w) + ?f + ?d"
    using c(1,5,6) by (cases out) auto
  then have "fp_books fp" using books_fp_nth [OF assms(2) w] c(2,3) by (simp add: fp_books_def)
  moreover have "given fp = given (workers s ! w)"
    using c(1,4) q by (simp add: given_def)
  ultimately show ?thesis
    using assms(2) st c(2,3) sum_map_change [OF w, of given fp]
      sum_map_change [OF w, of packets_forwarded fp] sum_map_change [OF w, of packets_dropped fp]
    unfolding books_def by (auto dest: set_update_subset_insert [THEN subsetD])
qed

lemma books_start: "books (start_system l f jobs)"
proof -
  have "lb_books lb \<and> packets_dispatched lb = 0" if "lb \<in> set (lbs (tier (start_system l f jobs)))" for lb
    using that by (auto simp: start_system_def lb_startAll_def new_lb_manager_def Let_def
        new_load_balancer_def lb_start_def lb_books_def sum_list_replicate)
  moreover have "fp_books fp \<and> given fp = 0 \<and> packets_forwarded fp = 0 \<and> packets_dropped fp = 0"
    if "fp \<in> set (workers (start_system l f jobs))" for fp
    using that by (auto simp: start_system_def fp_startAll_def new_fps_def new_fast_path_def
        fp_start_def fp_books_def given_def new_queue_def)
  ultimately show ?thesis
    by (simp add: books_def initial_stats_def cong: map_cong)
qed

lemma lb_take_books:
  "lb_books lb \<Longrightarrow> in_hand lb = None \<Longrightarrow>
   lb_books (lb_take lb) \<and> packets_dispatched (lb_take lb) = packets_dispatched lb"
  by (auto simp: lb_take_def lb_books_def popWithTimeout_eq take_front_def split: list.splits)

interpretation books_run: run_invariant "\<lambda>_. books"
proof unfold_locales
  show "books (start_system l f jobs)" for l f jobs by (rule books_start)
next
  fix l f s rules s'
  assume s: "sound_state l f s" "books s" and "step rules s s'"
  from this(3) show "books s'"
  proof (cases rule: step.cases)
    case Read
    then obtain j js i q where r: "to_read s = j # js" "getLBForPacket (tier s) (job_tuple j) = Inr i"
        "s' = update_lb i ((lbs (tier s) ! i)\<lparr>lb_input := q\<rparr>) (s\<lparr>to_read := js\<rparr>)"
      by (auto simp: reader_step_def split: list.splits option.splits)
    have "i < length (lbs (tier s))"
      using r(2) by (auto simp: getLBForPacket_def Let_def split: if_splits)
    then show ?thesis
      using s(2) r(3) books_lb_nth [of s i] by (auto intro!: books_lb simp: lb_books_def)
  next
    case (Lb_pop i)
    then show ?thesis
      using s(2) lb_take_books [OF books_lb_nth [OF s(2), of i]]
      by (auto simp: lb_pop_step_def intro!: books_lb split: if_splits)
  next
    case (Lb_push i)
    then show ?thesis using books_dispatch [OF s] by blast
  next
    case (Work ns t1 t2 w)
    then show ?thesis using books_work [OF s] by blast
  next
    case (Emit w)
    then show ?thesis using s(2) by (auto simp: emit_step_def split: if_splits option.splits)
  next
    case Write
    then show ?thesis using s(2) by (auto simp: writer_step_def split: if_splits option.splits prod.splits)
  next
    case (Lb_stop i)
    then show ?thesis
      using s(2) books_lb_nth [OF s(2), of i]
      by (auto intro!: books_lb simp: lb_stop_def lb_books_def)
  next
    case (Fp_stop w)
    then have "fp_books (fp_stop (workers s ! w))" "given (fp_stop (workers s ! w)) = given (workers s ! w)"
        "packets_forwarded (fp_stop (workers s ! w)) = packets_forwarded (workers s ! w)"
        "packets_dropped (fp_stop (workers s ! w)) = packets_dropped (workers s ! w)"
      using books_fp_nth [OF s(2), of w] by (auto simp: fp_stop_def fp_books_def given_def)
    then show ?thesis
      using s(2) Fp_stop sum_map_change [of w "workers s"]
      by (auto simp: books_def dest: set_update_subset_insert [THEN subsetD])
  qed (use s(2) in simp_all)
qed

section \<open>The totals\<close>

lemma lb_totals_fold:
  "fold (\<lambda>lb (r, d). (r + lb_received (lb_getStats lb), d + lb_dispatched (lb_getStats lb))) xs (a, b) =
   (a + sum_list (map packets_received xs), b + sum_list (map packets_dispatched xs))"
  by (induction xs arbitrary: a b) (simp_all add: lb_getStats_def ac_simps)

lemma lb_sums:
  "lb_getAggregatedStats lbm =
   (sum_list (map packets_received (lbs lbm)), sum_list (map packets_dispatched (lbs lbm)))"
  by (simp add: lb_getAggregatedStats_def lb_totals_fold)

lemma fp_totals_fold:
  "total_processed (fold add_fp ws t) = total_processed t + sum_list (map packets_processed ws) \<and>
   total_forwarded (fold add_fp ws t) = total_forwarded t + sum_list (map packets_forwarded ws) \<and>
   total_dropped (fold add_fp ws t) = total_dropped t + sum_list (map packets_dropped ws)"
  by (induction ws arbitrary: t) (simp_all add: add_fp_def fp_getStats_def Let_def ac_simps)

lemma fp_sums:
  "total_processed (fp_getAggregatedStats ws) = sum_list (map packets_processed ws)"
  "total_forwarded (fp_getAggregatedStats ws) = sum_list (map packets_forwarded ws)"
  "total_dropped (fp_getAggregatedStats ws) = sum_list (map packets_dropped ws)"
  using fp_totals_fold [of ws] by (simp_all add: fp_getAggregatedStats_def)

lemma sum_words:
  "sum_list (map (\<lambda>x. word_of_nat (g x) :: u64) xs) = word_of_nat (sum_list (map g xs))"
  by (induction xs) simp_all

lemma received_sum:
  "\<forall>lb \<in> set xs. lb_books lb \<Longrightarrow>
   sum_list (map packets_received xs) =
     sum_list (map packets_dispatched xs) + word_of_nat (length (concat (map (opt_list \<circ> in_hand) xs)))"
  by (induction xs) (simp_all add: lb_books_def ac_simps)

lemma given_sum:
  "sum_list (map given xs) =
     sum_list (map packets_processed xs) + word_of_nat (length (concat (map (queue \<circ> input_queue) xs)))"
  by (induction xs) (simp_all add: given_def ac_simps)

lemma processed_sum:
  "\<forall>fp \<in> set xs. fp_books fp \<Longrightarrow>
   sum_list (map packets_processed xs) =
     sum_list (map packets_forwarded xs) + sum_list (map packets_dropped xs)"
  by (induction xs) (simp_all add: fp_books_def ac_simps)

text \<open>The report of a state: what the balancers hold and what waits for the workers.\<close>

definition in_hands :: "system \<Rightarrow> packet_job list" where
  "in_hands s = concat (map (opt_list \<circ> in_hand) (lbs (tier s)))"

definition waiting :: "system \<Rightarrow> packet_job list" where
  "waiting s = concat (map (queue \<circ> input_queue) (workers s))"

definition totals_agree :: "lb_manager \<Rightarrow> fast_path list \<Rightarrow> dpi_stats \<Rightarrow> nat \<Rightarrow> nat \<Rightarrow> bool" where
  "totals_agree lbm ws st n m \<longleftrightarrow>
     (let (received, dispatched) = lb_getAggregatedStats lbm; t = fp_getAggregatedStats ws
      in received = dispatched + word_of_nat n \<and>
         dispatched = total_processed t + word_of_nat m \<and>
         total_processed t = total_forwarded t + total_dropped t \<and>
         total_forwarded t = forwarded_packets st \<and> total_dropped t = dropped_packets st)"

lemma books_agree:
  assumes "books s"
  shows "totals_agree (tier s) (workers s) (sys_stats s) (length (in_hands s)) (length (waiting s))"
  using assms received_sum [of "lbs (tier s)"] given_sum [of "workers s"] processed_sum [of "workers s"]
  by (simp add: totals_agree_def lb_sums fp_sums books_def in_hands_def waiting_def)

text \<open>What the reader has, and what the load balancers have not yet taken.\<close>

definition unreceived :: "system \<Rightarrow> packet_job list" where
  "unreceived s = to_read s @ concat (map (queue \<circ> lb_input) (lbs (tier s)))"

lemma map_nth_upt: "map (\<lambda>w. g (xs ! w)) [0..<length xs] = map g xs"
  by (rule nth_equalityI) simp_all

lemma in_flight_size:
  assumes "length (holding s) = length (workers s)"
  shows "length (in_flight s) =
    length (unreceived s) + length (in_hands s) + length (waiting s) +
    length (concat (map opt_list (holding s))) + length (queue (outq s))"
proof -
  have lb: "length (concat (map lb_jobs xs)) =
      length (concat (map (opt_list \<circ> in_hand) xs)) + length (concat (map (queue \<circ> lb_input) xs))" for xs
    by (induction xs) (simp_all add: lb_jobs_def)
  have w: "worker_jobs s = (\<lambda>w. opt_list (holding s ! w) @ (queue \<circ> input_queue) (workers s ! w))"
    by (simp add: worker_jobs_def fun_eq_iff)
  have "length (concat (map (worker_jobs s) [0..<length (workers s)])) =
      sum_list (map (\<lambda>w. length (opt_list (holding s ! w)) + length ((queue \<circ> input_queue) (workers s ! w)))
        [0..<length (workers s)])"
    by (simp add: length_concat w comp_def)
  also have "\<dots> = sum_list (map (\<lambda>w. length (opt_list (holding s ! w))) [0..<length (holding s)]) +
      sum_list (map (\<lambda>w. length ((queue \<circ> input_queue) (workers s ! w))) [0..<length (workers s)])"
    by (simp only: sum_list_addf assms)
  also have "\<dots> = sum_list (map (length \<circ> opt_list) (holding s)) +
      sum_list (map (length \<circ> (queue \<circ> input_queue)) (workers s))"
    using map_nth_upt [of "\<lambda>h. length (opt_list h)" "holding s"]
      map_nth_upt [of "\<lambda>fp. length (queue (input_queue fp))" "workers s"]
    by (simp add: comp_def)
  finally have "length (concat (map (worker_jobs s) [0..<length (workers s)])) =
      length (concat (map opt_list (holding s))) + length (waiting s)"
    by (simp add: length_concat waiting_def comp_def)
  then show ?thesis by (simp add: in_flight_def unreceived_def in_hands_def lb)
qed

lemma totals_of_run:
  assumes "0 < l" and "0 < f" and "f < 2 ^ 31" and "\<forall>job \<in> set jobs. job_ok job"
    and "reachable rules (start_system l f jobs) s"
  shows "totals_agree (tier s) (workers s) (sys_stats s) (length (in_hands s)) (length (waiting s))"
    and "fst (lb_getAggregatedStats (tier s)) + word_of_nat (length (unreceived s)) = word_of_nat (length jobs)"
proof -
  show a: "totals_agree (tier s) (workers s) (sys_stats s) (length (in_hands s)) (length (waiting s))"
    using books_agree [OF books_run.in_every_run [OF assms]] .
  have "length (holding s) = length (workers s)"
    using from_start(1) [OF assms] by (simp add: sound_state_def topology_def)
  then have "length jobs = length (written s) + length (dropped s) + (length (unreceived s) +
      length (in_hands s) + length (waiting s) + length (concat (map opt_list (holding s))) + length (queue (outq s)))"
    using arg_cong [OF conservation [OF assms], of size] in_flight_size [of s] by simp
  then show "fst (lb_getAggregatedStats (tier s)) + word_of_nat (length (unreceived s)) = word_of_nat (length jobs)"
    using a counters [OF assms] by (auto simp: totals_agree_def Let_def ac_simps split: prod.splits)
qed

lemma stopped_hands:
  assumes "sound_state l f s" and "stopped s"
  shows "in_hands s = [] \<and> unreceived s = concat (map (queue \<circ> lb_input) (lbs (tier s)))"
proof -
  have "in_hand lb = None" if "lb \<in> set (lbs (tier s))" for lb
  proof -
    obtain i where "i < length (lbs (tier s))" "lbs (tier s) ! i = lb" using \<open>lb \<in> _\<close> by (auto simp: in_set_conv_nth)
    then show ?thesis
      using assms by (auto simp: sound_state_def shut_order_def stopped_def topology_def)
  qed
  moreover have "to_read s = []"
    using assms by (simp add: sound_state_def shut_order_def stopped_def)
  ultimately show ?thesis by (auto simp: in_hands_def unreceived_def)
qed

section \<open>The report of a processed file\<close>

text \<open>C15: the report adds up. After \<open>processFile\<close>, however the threads ran, the engine has read as
  many packets as the load balancers received and still have queued; these have dispatched
  all they received; what was dispatched is what the workers processed or still have
  queued; the workers forwarded or dropped what they processed; and their sums are the
  engine's own two counters. With empty queues all totals are one number.\<close>

theorem report_adds_up:
  assumes "0 < l" and "0 < f" and "f < 2 ^ 31" and "ready l f rm e"
    and "processFile le rule_files fs can_open e inp outp True e'"
  shows "\<exists>lbm. lb_mgr e' = Some lbm \<and>
    (let (received, dispatched) = lb_getAggregatedStats lbm;
         t = fp_getAggregatedStats (fps e');
         lb_queued = length (concat (map (queue \<circ> lb_input) (lbs lbm)));
         fp_queued = length (concat (map (queue \<circ> input_queue) (fps e')))
     in total_packets (stats e') = received + word_of_nat lb_queued \<and>
        received = dispatched \<and>
        dispatched = total_processed t + word_of_nat fp_queued \<and>
        total_processed t = total_forwarded t + total_dropped t \<and>
        total_forwarded t = forwarded_packets (stats e') \<and>
        total_dropped t = dropped_packets (stats e'))"
proof -
  obtain reader raw jobs out st s e2 where
      r: "readerThreadFunc le fs inp reader raw empty_file initial_stats = Inr (jobs, out, st)"
    and run: "reachable (Some rm) (start_system l f jobs) s" "stopped s"
    and e': "e' = engine_after le out st (written s) s e2"
    using ready_cases [OF assms(1-3,5,4)] by metis
  have ok: "\<forall>job \<in> set jobs. job_ok job" and tot: "total_packets st = word_of_nat (length jobs)"
    using reader_returns [of le fs inp reader raw empty_file initial_stats] r by (auto simp: initial_stats_def)
  note t = totals_of_run [OF assms(1-3) ok run(1)]
  have h: "in_hands s = []" "unreceived s = concat (map (queue \<circ> lb_input) (lbs (tier s)))"
    using stopped_hands [OF from_start(1) [OF assms(1-3) ok run(1)] run(2)] by simp_all
  have "lb_mgr e' = Some (tier s)" "fps e' = workers s" "total_packets (stats e') = total_packets st"
    "forwarded_packets (stats e') = forwarded_packets (sys_stats s)"
    "dropped_packets (stats e') = dropped_packets (sys_stats s)"
    by (simp_all add: e' engine_after_def)
  then show ?thesis
    using t h tot by (auto simp: totals_agree_def waiting_def split: prod.splits)
qed

theorem report_adds_up_witness:
  "\<exists>e e' lbm. processFile True (\<lambda>_. None) (\<lambda>_. Some (pcap_bytes True sample_header [sample_raw])) (\<lambda>_. True)
       e ''in.pcap'' ''out.pcap'' True e' \<and> lb_mgr e' = Some lbm \<and>
     fst (lb_getAggregatedStats lbm) = snd (lb_getAggregatedStats lbm)"
proof -
  let ?fs = "\<lambda>_ :: string. Some (pcap_bytes True sample_header [sample_raw])"
  obtain e where e: "ready 2 2 (asked_rules []) e" using sample_engine by blast
  obtain e' where r: "processFile True (\<lambda>_. None) ?fs (\<lambda>_. True) e ''in.pcap'' ''out.pcap'' True e'"
    using some_run [of 2 2 "asked_rules []" e "\<lambda>_. True" "''out.pcap''" True "\<lambda>_. None" ?fs "''in.pcap''"] e by auto
  obtain lbm where "lb_mgr e' = Some lbm"
    "fst (lb_getAggregatedStats lbm) = snd (lb_getAggregatedStats lbm)"
    using report_adds_up [OF _ _ _ e r] by (fastforce simp: Let_def split: prod.splits)
  then show ?thesis using r by blast
qed

end
