(* ===== verification/Stop_Hang.thy ===== *)
theory Stop_Hang
  imports Pipeline_Verdicts
begin

text \<open>
  \<open>stop\<close> of \<open>src/dpi_engine.cpp\<close> clears the engine's flag before it stops the workers, and the
  output thread may leave as soon as the flag is clear and its queue empty. The workers still
  push to that queue, which nobody empties any more: when it is full they wait, and \<open>stop\<close>,
  which joins them before it shuts the queue down, waits for them. Shown here: such a run.
\<close>

section \<open>A pipeline with one balancer and one worker\<close>

text \<open>
  The state as its six places: what is to be read, the balancer's queue and hand, the worker's
  queue and hand, and the output queue. Everybody is running but, perhaps, the engine's flag
  and the output thread.
\<close>

definition pipe ::
  "packet_job list \<Rightarrow> packet_job list \<Rightarrow> packet_job option \<Rightarrow> packet_job list \<Rightarrow> packet_job option \<Rightarrow>
   packet_job list \<Rightarrow> bool \<Rightarrow> bool \<Rightarrow> system \<Rightarrow> bool" where
  "pipe r a h b g c er wa s \<longleftrightarrow>
     sound_state 1 1 s \<and> to_read s = r \<and> queue (lb_input (lbs (tier s) ! 0)) = a \<and>
     in_hand (lbs (tier s) ! 0) = h \<and> queue (input_queue (workers s ! 0)) = b \<and>
     holding s ! 0 = g \<and> queue (outq s) = c \<and>
     max_size (lb_input (lbs (tier s) ! 0)) = 10000 \<and>
     max_size (input_queue (workers s ! 0)) = 10000 \<and> max_size (outq s) = 10000 \<and>
     lb_alive s ! 0 \<and> fp_alive s ! 0 \<and> engine_running s = er \<and> writer_alive s = wa"

lemma route_one [simp]: "route 1 1 k = 0" "route (Suc 0) (Suc 0) k = 0"
  by (simp_all add: route_def)

lemma pipe_parts:
  assumes "pipe r a h b g c er wa s"
  shows "topology 1 1 s" "shut_order s" "healthy s" "routed 1 1 (lanes_of s)"
    and "length (lbs (tier s)) = 1" "length (workers s) = 1" "length (holding s) = 1"
  using assms by (auto simp: pipe_def sound_state_def topology_def)

lemma pipe_start:
  assumes "\<forall>job \<in> set jobs. job_ok job"
  shows "pipe jobs [] None [] None [] True True (start_system 1 1 jobs)"
  using start_sound [OF _ _ _ assms, of 1 1] start_lb [of 1 0 1 jobs] start_fp [of 0 1 1 jobs]
  by (simp add: pipe_def new_load_balancer_def lb_start_def new_fast_path_def fp_start_def new_queue_def)

lemma pipe_read:
  assumes p: "pipe (j # r) a h b g c er wa s" and "length a < 10000"
  shows "\<exists>s'. step rules s s' \<and> pipe r (a @ [j]) h b g c er wa s'"
proof -
  note t = pipe_parts [OF p]
  have r: "to_read s = j # r" using p by (simp add: pipe_def)
  let ?lb = "(lbs (tier s) ! 0)\<lparr>lb_input := enqueue j (lb_input (lbs (tier s) ! 0))\<rparr>"
  let ?s' = "update_lb 0 ?lb (s\<lparr>to_read := r\<rparr>)"
  have "reader_step s = Inr (Some ?s')"
    using reader_step_eq [OF t(1,2) r] p assms(2) by (simp add: pipe_def)
  then have st: "step rules s ?s'" by (rule step.Read)
  have "sound_state 1 1 ?s'" using step_sound [OF _ st] p by (simp add: pipe_def)
  then have "pipe r (a @ [j]) h b g c er wa ?s'" using p t(5) by (simp add: pipe_def)
  then show ?thesis using st by blast
qed

lemma pipe_take:
  assumes p: "pipe r (j # a) None b g c er wa s"
  shows "\<exists>s'. step rules s s' \<and> pipe r a (Some j) b g c er wa s'"
proof -
  note t = pipe_parts [OF p]
  let ?lb = "lb_take (lbs (tier s) ! 0)"
  have lb: "in_hand ?lb = Some j" "queue (lb_input ?lb) = a" "max_size (lb_input ?lb) = 10000"
    using p by (simp_all add: pipe_def lb_take_def popWithTimeout_eq take_front_def)
  have "lb_pop_step 0 s = Some (update_lb 0 ?lb s)"
    using p t(5) by (simp add: lb_pop_step_def pipe_def)
  then have st: "step rules s (update_lb 0 ?lb s)" by (rule step.Lb_pop)
  have "sound_state 1 1 (update_lb 0 ?lb s)" using step_sound [OF _ st] p by (simp add: pipe_def)
  then have "pipe r a (Some j) b g c er wa (update_lb 0 ?lb s)" using p t(5) lb by (simp add: pipe_def)
  then show ?thesis using st by blast
qed

lemma pipe_give:
  assumes p: "pipe r a (Some j) b g c er wa s" and "length b < 10000"
  shows "\<exists>s'. step rules s s' \<and> pipe r a None (b @ [j]) g c er wa s'"
proof -
  note t = pipe_parts [OF p]
  have h: "in_hand (lbs (tier s) ! 0) = Some j" using p by (simp add: pipe_def)
  let ?fp = "(workers s ! 0)\<lparr>input_queue := enqueue j (input_queue (workers s ! 0))\<rparr>"
  obtain lb where lb: "in_hand lb = None" "lb_input lb = lb_input (lbs (tier s) ! 0)"
      "lb_push_step 0 s = Inr (Some (update_lb 0 lb (update_worker 0 ?fp s)))"
    using lb_push_step_eq [OF t(1,2,4) _ h] p assms(2) by (auto simp: pipe_def)
  then have st: "step rules s (update_lb 0 lb (update_worker 0 ?fp s))" by (intro step.Lb_push)
  have "sound_state 1 1 (update_lb 0 lb (update_worker 0 ?fp s))"
    using step_sound [OF _ st] p by (simp add: pipe_def)
  then have "pipe r a None (b @ [j]) g c er wa (update_lb 0 lb (update_worker 0 ?fp s))"
    using p t(5,6) lb(1,2) by (simp add: pipe_def)
  then show ?thesis using st by blast
qed

text \<open>A worker that has no reason to drop the job will forward it.\<close>

lemma pipe_work:
  assumes p: "pipe r a h (j # b) None c er wa s" and ok: "\<forall>job \<in> set jobs. job_ok job"
    and run: "reachable rules (start_system 1 1 jobs) s" and n: "\<not> may_block rules (job_tuple j)"
  shows "\<exists>s'. step rules s s' \<and> pipe r a h b (Some j) c er wa s'"
proof -
  note t = pipe_parts [OF p]
  have w: "(0 :: nat) < 1 * 1" "fp_alive s ! 0" "holding s ! 0 = None" using p by (simp_all add: pipe_def)
  have q: "queue (input_queue (workers s ! 0)) = j # b" using p by (simp add: pipe_def)
  from t(1,3) w show ?thesis
  proof (cases rule: worker_step_cases [where rules = rules and ns = "[]" and ?t1.0 = 0 and ?t2.0 = 0])
    case (idle fp')
    then show ?thesis using q by simp
  next
    case (drop j' js fp')
    then have "reachable rules (start_system 1 1 jobs) ((update_worker 0 fp' s)
         \<lparr>sys_stats := (sys_stats s)\<lparr>dropped_packets := dropped_packets (sys_stats s) + 1\<rparr>,
          dropped := dropped s @ [j']\<rparr>)"
      using reachable.Next [OF run step.Work] by blast
    from dropped_justified [OF _ _ _ ok this] have "may_block rules (job_tuple j')" by simp
    then show ?thesis using drop(1) q n by simp
  next
    case (forward j' js fp')
    let ?s' = "(update_worker 0 fp' s)
         \<lparr>sys_stats := (sys_stats s)\<lparr>forwarded_packets := forwarded_packets (sys_stats s) + 1\<rparr>,
          holding := (holding s)[0 := Some j']\<rparr>"
    have st: "step rules s ?s'" using forward(3) by (rule step.Work)
    have "sound_state 1 1 ?s'" using step_sound [OF _ st] p by (simp add: pipe_def)
    moreover have "js = b" "j' = j" "input_queue fp' = (input_queue (workers s ! 0))\<lparr>queue := b\<rparr>"
      using forward(1,2) q by (simp_all add: same_queue_as_def)
    ultimately have "pipe r a h b (Some j) c er wa ?s'"
      using p t(6,7) by (simp add: pipe_def)
    then show ?thesis using st by blast
  qed
qed

lemma pipe_emit:
  assumes p: "pipe r a h b (Some j) c er wa s" and "length c < 10000"
  shows "\<exists>s'. step rules s s' \<and> pipe r a h b None (c @ [j]) er wa s'"
proof -
  note t = pipe_parts [OF p]
  have g: "holding s ! 0 = Some j" using p by (simp add: pipe_def)
  let ?s' = "s\<lparr>outq := enqueue j (outq s), holding := (holding s)[0 := None]\<rparr>"
  have "emit_step 0 s = Some ?s'"
    using emit_step_eq [OF t(1,2) _ g] p assms(2) by (simp add: pipe_def)
  then have st: "step rules s ?s'" by (rule step.Emit)
  have "sound_state 1 1 ?s'" using step_sound [OF _ st] p by (simp add: pipe_def)
  then have "pipe r a h b None (c @ [j]) er wa ?s'" using p t(7) by (simp add: pipe_def)
  then show ?thesis using st by blast
qed

section \<open>Filling the queues\<close>

lemma pipe_feed:
  assumes "pipe (js @ r) [] None b None c er wa s" and "length b + length js \<le> 10000"
  shows "\<exists>s'. reachable rules s s' \<and> pipe r [] None (b @ js) None c er wa s'"
  using assms
proof (induction js arbitrary: b s)
  case Nil
  then show ?case using reachable.Start by fastforce
next
  case (Cons j js)
  obtain s1 where s1: "step rules s s1" "pipe (js @ r) [j] None b None c er wa s1"
    using pipe_read [of j "js @ r" "[]" None b None c er wa s rules] Cons.prems by auto
  obtain s2 where s2: "step rules s1 s2" "pipe (js @ r) [] (Some j) b None c er wa s2"
    using pipe_take [OF s1(2)] by blast
  obtain s3 where s3: "step rules s2 s3" "pipe (js @ r) [] None (b @ [j]) None c er wa s3"
    using pipe_give [OF s2(2)] Cons.prems by auto
  have "reachable rules s s3"
    using reachable.Next [OF reachable.Next [OF reachable.Next [OF reachable.Start s1(1)] s2(1)] s3(1)] .
  then show ?case using Cons.IH [OF s3(2)] Cons.prems(2) reachable_trans by fastforce
qed

lemma pipe_flush:
  assumes "pipe r a h js None c er wa s" and "length c + length js \<le> 10000"
    and "\<forall>job \<in> set jobs. job_ok job" and "reachable rules (start_system 1 1 jobs) s"
    and "\<forall>j \<in> set js. \<not> may_block rules (job_tuple j)"
  shows "\<exists>s'. reachable rules s s' \<and> pipe r a h [] None (c @ js) er wa s'"
  using assms
proof (induction js arbitrary: c s)
  case Nil
  then show ?case using reachable.Start by fastforce
next
  case (Cons j js)
  obtain s1 where s1: "step rules s s1" "pipe r a h js (Some j) c er wa s1"
    using pipe_work [OF Cons.prems(1,3,4)] Cons.prems(5) by auto
  obtain s2 where s2: "step rules s1 s2" "pipe r a h js None (c @ [j]) er wa s2"
    using pipe_emit [OF s1(2)] Cons.prems(2) by auto
  have r: "reachable rules s s2" using reachable.Next [OF reachable.Next [OF reachable.Start s1(1)] s2(1)] .
  then have "reachable rules (start_system 1 1 jobs) s2" using reachable_trans Cons.prems(4) by blast
  then show ?case
    using Cons.IH [OF s2(2)] Cons.prems(2,3,5) reachable_trans [OF _ r] by fastforce
qed

section \<open>The hang\<close>

text \<open>A full output queue, nobody to empty it, and a worker waiting to push to it.\<close>

definition hanging :: "system \<Rightarrow> bool" where
  "hanging s \<longleftrightarrow>
     (\<exists>j. holding s ! 0 = Some j) \<and> 0 < length (holding s) \<and> 0 < length (fp_alive s) \<and> fp_alive s ! 0 \<and>
     \<not> writer_alive s \<and> \<not> is_shutdown (outq s) \<and> length (queue (outq s)) = max_size (outq s)"

lemma worker_step_others:
  assumes "worker_step rules ns t1 t2 w s = Inr (Some s')"
  shows "outq s' = outq s \<and> fp_alive s' = fp_alive s \<and> writer_alive s' = writer_alive s \<and>
    length (holding s') = length (holding s) \<and> (\<forall>v. v \<noteq> w \<longrightarrow> holding s' ! v = holding s ! v)"
proof -
  obtain jo q where p: "popWithTimeout (input_queue (workers s ! w)) = (jo, q)" by fastforce
  obtain out fp where r: "run_body ns t1 t2 rules jo ((workers s ! w)\<lparr>input_queue := q\<rparr>) = Inr (out, fp)"
    using assms by (auto simp: worker_step_def p split: if_splits)
  show ?thesis
    using assms by (cases out) (auto simp: worker_step_def p r handleOutput_def Let_def split: if_splits)
qed

lemma hanging_step:
  assumes "step rules s s'" and "hanging s"
  shows "hanging s'"
  using assms(1)
proof (cases rule: step.cases)
  case (Lb_push i)
  then show ?thesis using assms(2) by (auto simp: hanging_def lb_push_step_def split: if_splits option.splits)
next
  case (Work ns t1 t2 w)
  then have "holding s ! w = None" by (auto simp: worker_step_def split: if_splits)
  then have "w \<noteq> 0" using assms(2) by (metis hanging_def option.distinct(1))
  then show ?thesis using worker_step_others [OF Work] assms(2) by (auto simp: hanging_def)
next
  case (Emit w)
  then show ?thesis using assms(2) by (auto simp: hanging_def emit_step_def push_def split: if_splits option.splits)
next
  case Write
  then show ?thesis using assms(2) by (simp add: hanging_def writer_step_def)
next
  case (Fp_exit w)
  then have "w \<noteq> 0" using assms(2) by (metis hanging_def option.distinct(1))
  then show ?thesis using assms(2) Fp_exit by (simp add: hanging_def)
next
  case Out_shutdown
  then show ?thesis using assms(2) by (auto simp: hanging_def)
qed (use assms(2) in \<open>auto simp: hanging_def reader_step_def lb_pop_step_def split: list.splits option.splits if_splits\<close>)

lemma hanging_forever: "reachable rules s s' \<Longrightarrow> hanging s \<Longrightarrow> hanging s'"
  by (induction rule: reachable.induct) (auto dest: hanging_step)

text \<open>C18: \<open>stop\<close> can hang. On one balancer and one worker, with 10001 packets that the rules let
  through, there is a run in which the reader has read them all, \<open>stop\<close> has cleared the
  engine's flag and the output thread, finding its queue empty for the moment, has left;
  the worker then fills the output queue and waits for room that nobody will make. From
  then on, whatever the threads do, the worker never leaves, so \<open>stop\<close> never joins it.\<close>

theorem stop_can_hang:
  assumes "length jobs = 10001" and "\<forall>job \<in> set jobs. job_ok job"
    and "\<forall>job \<in> set jobs. \<not> may_block rules (job_tuple job)"
  shows "\<exists>s. reachable rules (start_system 1 1 jobs) s \<and> to_read s = [] \<and> \<not> engine_running s \<and>
    (\<forall>s'. reachable rules s s' \<longrightarrow> fp_alive s' ! 0 \<and> \<not> is_shutdown (outq s'))"
proof -
  let ?s0 = "start_system 1 1 jobs"
  let ?js = "take 10000 jobs"
  have "length (drop 10000 jobs) = Suc 0" using assms(1) by simp
  then obtain j where "drop 10000 jobs = [j]" unfolding length_Suc_conv by auto
  then have j: "jobs = ?js @ [j]" using append_take_drop_id [of 10000 jobs] by simp
  have len: "length ?js = 10000" using assms(1) by simp
  have sub: "\<forall>x \<in> set ?js. \<not> may_block rules (job_tuple x)" "\<not> may_block rules (job_tuple j)"
    using assms(3) j by (auto dest: in_set_takeD) (metis in_set_conv_decomp j)
  have "pipe (?js @ [j]) [] None [] None [] True True ?s0"
    using pipe_start [OF assms(2)] j by simp
  then obtain s1 where s1: "reachable rules ?s0 s1" "pipe [j] [] None ?js None [] True True s1"
    using pipe_feed [of ?js "[j]" "[]" "[]" True True ?s0 rules] len by auto
  obtain s2 where s2: "step rules s1 s2" "pipe [] [j] None ?js None [] True True s2"
    using pipe_read [OF s1(2), of rules] by auto
  let ?s3 = "s2\<lparr>engine_running := False\<rparr>"
  let ?s4 = "?s3\<lparr>writer_alive := False\<rparr>"
  have st3: "step rules s2 ?s3" using s2(2) by (intro step.Stop) (simp add: pipe_def)
  have st4: "step rules ?s3 ?s4" using s2(2) by (intro step.Writer_exit) (simp_all add: pipe_def)
  have r4: "reachable rules ?s0 ?s4"
    using reachable.Next [OF reachable.Next [OF reachable.Next [OF s1(1) s2(1)] st3] st4] .
  have "sound_state 1 1 ?s4"
    using step_sound [OF _ st4] step_sound [OF _ st3] s2(2) by (simp add: pipe_def)
  then have "pipe [] [j] None ?js None [] False False ?s4" using s2(2) by (simp add: pipe_def)
  then obtain s5 where s5: "reachable rules ?s4 s5" "pipe [] [j] None [] None ?js False False s5"
    using pipe_flush [of "[]" "[j]" None ?js "[]" False False ?s4 jobs rules] len assms(2) r4 sub by auto
  obtain s6 where s6: "step rules s5 s6" "pipe [] [] (Some j) [] None ?js False False s6"
    using pipe_take [OF s5(2)] by blast
  obtain s7 where s7: "step rules s6 s7" "pipe [] [] None [j] None ?js False False s7"
    using pipe_give [OF s6(2)] by auto
  have r7: "reachable rules ?s0 s7"
    using reachable.Next [OF reachable.Next [OF reachable_trans [OF s5(1) r4] s6(1)] s7(1)] .
  obtain s8 where s8: "step rules s7 s8" "pipe [] [] None [] (Some j) ?js False False s8"
    using pipe_work [OF s7(2) assms(2) r7 sub(2)] by blast
  have "hanging s8"
    using s8(2) len pipe_parts [OF s8(2)] by (auto simp: hanging_def pipe_def shut_order_def topology_def)
  then have "\<forall>s'. reachable rules s8 s' \<longrightarrow> fp_alive s' ! 0 \<and> \<not> is_shutdown (outq s')"
    using hanging_forever by (auto simp: hanging_def)
  moreover have "reachable rules ?s0 s8" using reachable.Next [OF r7 s8(1)] .
  ultimately show ?thesis using s8(2) by (auto simp: pipe_def)
qed

theorem stop_can_hang_witness:
  "\<exists>s. reachable None (start_system 1 1 (replicate 10001 (job_of (flow 1) SYN []))) s \<and>
    \<not> engine_running s \<and> (\<forall>s'. reachable None s s' \<longrightarrow> fp_alive s' ! 0)"
proof -
  have "\<forall>job \<in> set (replicate 10001 (job_of (flow 1) SYN [])). job_ok job \<and> \<not> may_block None (job_tuple job)"
    using job_of_ok by (simp add: may_block_def)
  then show ?thesis
    using stop_can_hang [of "replicate 10001 (job_of (flow 1) SYN [])" None, OF length_replicate] by blast
qed

end
