(* ===== verification/Engine_Shutdown.thy ===== *)
theory Engine_Shutdown
  imports Process_File Reports
begin

text \<open>
  The end of an engine's life (\<open>src/dpi_engine.cpp\<close>, \<open>src/load_balancer.cpp\<close>,
  \<open>src/fast_path.cpp\<close>): \<open>stopAll\<close> of both tiers, \<open>stop\<close> of the engine as what it leaves behind
  once the threads have been joined, the destructors, which call them again, and the small
  accessors of the managers. \<open>Pipeline\<close> has the same calls as steps between those of the
  threads; shown here is that the two views agree and that stopping twice is stopping once.
\<close>

section \<open>The managers\<close>

definition lb_stopAll :: "lb_manager \<Rightarrow> lb_manager" where
  "lb_stopAll lbm = lbm\<lparr>lbs := map lb_stop (lbs lbm)\<rparr>"

definition fp_stopAll :: "fast_path list \<Rightarrow> fast_path list" where
  "fp_stopAll ws = map fp_stop ws"

text \<open>A pointer to a worker's queue is the worker's index, as in \<open>Load_Balancer\<close>.\<close>

definition getQueuePtrs :: "fast_path list \<Rightarrow> nat list" where
  "getQueuePtrs ws = fold (\<lambda>(i, fp) ptrs. ptrs @ [i]) (enumerate 0 ws) []"

definition getNumFPs :: "fast_path list \<Rightarrow> nat" where
  "getNumFPs ws = length ws"

definition getNumLBs :: "lb_manager \<Rightarrow> nat" where
  "getNumLBs lbm = length (lbs lbm)"

lemma fold_push: "fold (\<lambda>(i, fp) ptrs. ptrs @ [i]) xs acc = acc @ map fst xs"
  by (induction xs arbitrary: acc) auto

text \<open>The pointers \<open>initialize\<close> gives to the load balancers are those of \<open>getQueuePtrs\<close>.\<close>

lemma getQueuePtrs_eq: "getQueuePtrs ws = [0..<getNumFPs ws]"
  by (simp add: getQueuePtrs_def getNumFPs_def fold_push map_fst_enumerate)

section \<open>The engine\<close>

text \<open>\<open>stop\<close>, when every thread it joins has returned.\<close>

definition engine_stop :: "engine \<Rightarrow> engine" where
  "engine_stop e =
     (if \<not> running e then e
      else e\<lparr>running := False, lb_mgr := map_option lb_stopAll (lb_mgr e),
             fps := fp_stopAll (fps e), output_queue := shutdown (output_queue e)\<rparr>)"

definition engine_classificationReport :: "nat list \<Rightarrow> nat list \<Rightarrow> engine \<Rightarrow> string" where
  "engine_classificationReport ns na e =
     (if lb_mgr e = None then [] else generateClassificationReport ns na (fps e))"

definition engine_getStats :: "engine \<Rightarrow> dpi_stats" where
  "engine_getStats e = stats e"

text \<open>
  The destructors of the tiers call \<open>stopAll\<close>, that of the engine \<open>stop\<close>, after which those of
  its members run.
\<close>

definition engine_delete :: "engine \<Rightarrow> engine" where
  "engine_delete e =
     (let e = engine_stop e
      in e\<lparr>lb_mgr := map_option lb_stopAll (lb_mgr e), fps := fp_stopAll (fps e)\<rparr>)"

lemma lb_stop_again: "lb_stop (lb_stop lb) = lb_stop lb"
  by (simp add: lb_stop_def)

lemma fp_stop_again: "fp_stop (fp_stop fp) = fp_stop fp"
  by (simp add: fp_stop_def)

lemma stopAll_again: "lb_stopAll (lb_stopAll lbm) = lb_stopAll lbm" "fp_stopAll (fp_stopAll ws) = fp_stopAll ws"
  by (simp_all add: lb_stopAll_def fp_stopAll_def lb_stop_again fp_stop_again)

lemma stopAll_stopped:
  "\<forall>lb \<in> set (lbs lbm). \<not> lb_running lb \<Longrightarrow> lb_stopAll lbm = lbm"
  "\<forall>fp \<in> set ws. \<not> fp_running fp \<Longrightarrow> fp_stopAll ws = ws"
  by (simp_all add: lb_stopAll_def fp_stopAll_def lb_stop_def fp_stop_def map_idI)

section \<open>Both views agree\<close>

lemma reachable_step: "step rules s s' \<Longrightarrow> reachable rules s s'"
  by (rule reachable.Next [OF reachable.Start])

text \<open>\<open>stopAll\<close> is the stopping steps, one after the other.\<close>

lemma lb_stop_sweep:
  assumes "\<not> engine_running s" and "n \<le> length (lbs (tier s))"
  shows "reachable rules s
    (s\<lparr>tier := (tier s)\<lparr>lbs := map lb_stop (take n (lbs (tier s))) @ drop n (lbs (tier s))\<rparr>\<rparr>)"
  using assms(2)
proof (induction n)
  case 0
  then show ?case by (simp add: reachable.Start)
next
  case (Suc n)
  let ?xs = "lbs (tier s)"
  let ?s = "s\<lparr>tier := (tier s)\<lparr>lbs := map lb_stop (take n ?xs) @ drop n ?xs\<rparr>\<rparr>"
  have n: "n < length ?xs" using Suc.prems by simp
  have at: "(map lb_stop (take n ?xs) @ drop n ?xs) ! n = ?xs ! n"
    using n by (simp add: nth_append)
  have "(map lb_stop (take n ?xs) @ drop n ?xs)[n := lb_stop (?xs ! n)] =
      map lb_stop (take (Suc n) ?xs) @ drop (Suc n) ?xs"
    using n by (simp add: list_update_append take_Suc_conv_app_nth flip: Cons_nth_drop_Suc)
  moreover have "step rules ?s (update_lb n (lb_stop (lbs (tier ?s) ! n)) ?s)"
    using assms(1) n by (intro step.Lb_stop) simp_all
  ultimately have "step rules ?s (s\<lparr>tier := (tier s)\<lparr>lbs := map lb_stop (take (Suc n) ?xs) @ drop (Suc n) ?xs\<rparr>\<rparr>)"
    using at by (simp add: update_lb_def)
  then show ?case using reachable.Next Suc by auto
qed

lemma fp_stop_sweep:
  assumes "\<forall>i < length (lb_alive s). \<not> lb_alive s ! i" and "n \<le> length (workers s)"
  shows "reachable rules s (s\<lparr>workers := map fp_stop (take n (workers s)) @ drop n (workers s)\<rparr>)"
  using assms(2)
proof (induction n)
  case 0
  then show ?case by (simp add: reachable.Start)
next
  case (Suc n)
  let ?xs = "workers s"
  let ?s = "s\<lparr>workers := map fp_stop (take n ?xs) @ drop n ?xs\<rparr>"
  have n: "n < length ?xs" using Suc.prems by simp
  have at: "(map fp_stop (take n ?xs) @ drop n ?xs) ! n = ?xs ! n"
    using n by (simp add: nth_append)
  have "(map fp_stop (take n ?xs) @ drop n ?xs)[n := fp_stop (?xs ! n)] =
      map fp_stop (take (Suc n) ?xs) @ drop (Suc n) ?xs"
    using n by (simp add: list_update_append take_Suc_conv_app_nth flip: Cons_nth_drop_Suc)
  moreover have "step rules ?s (update_worker n (fp_stop (workers ?s ! n)) ?s)"
    using assms(1) n by (intro step.Fp_stop) simp_all
  ultimately have "step rules ?s (s\<lparr>workers := map fp_stop (take (Suc n) ?xs) @ drop (Suc n) ?xs\<rparr>)"
    using at by (simp add: update_worker_def)
  then show ?case using reachable.Next Suc by auto
qed

theorem stopAll_is_the_steps:
  "(\<not> engine_running s \<longrightarrow> reachable rules s (s\<lparr>tier := lb_stopAll (tier s)\<rparr>)) \<and>
   ((\<forall>i < length (lb_alive s). \<not> lb_alive s ! i) \<longrightarrow>
      reachable rules s (s\<lparr>workers := fp_stopAll (workers s)\<rparr>))"
  using lb_stop_sweep [of s "length (lbs (tier s))" rules] fp_stop_sweep [of s "length (workers s)" rules]
  by (simp add: lb_stopAll_def fp_stopAll_def)

lemma stopped_tiers:
  assumes "sound_state l f s" and "stopped s"
  shows "lb_stopAll (tier s) = tier s \<and> fp_stopAll (workers s) = workers s"
proof -
  have "\<not> lb_running lb" if "lb \<in> set (lbs (tier s))" for lb
    using that assms by (auto simp: in_set_conv_nth sound_state_def shut_order_def stopped_def topology_def)
  moreover have "\<not> fp_running fp" if "fp \<in> set (workers s)" for fp
    using that assms by (auto simp: in_set_conv_nth sound_state_def shut_order_def stopped_def topology_def)
  ultimately show ?thesis using stopAll_stopped by blast
qed

text \<open>C?: stopping twice is stopping once, and destroying an engine that has processed a file
  changes nothing: \<open>processFile\<close> has stopped every balancer and every worker, shut all the
  queues down and closed the file, so neither the destructor of the engine nor those of the
  tiers find anything to stop.\<close>

theorem delete_after_processFile:
  assumes "0 < l" and "0 < f" and "f < 2 ^ 31" and "ready l f rm e"
    and "processFile le rule_files fs can_open e inp outp True e'"
  shows "engine_delete e' = e' \<and> engine_stop (engine_stop e) = engine_stop e \<and>
    \<not> running e' \<and> is_shutdown (output_queue e') \<and> \<not> out_open (output_file e') \<and>
    (\<exists>lbm. lb_mgr e' = Some lbm \<and> (\<forall>lb \<in> set (lbs lbm). \<not> lb_running lb)) \<and>
    (\<forall>fp \<in> set (fps e'). \<not> fp_running fp)"
proof -
  obtain reader raw jobs out st s e2 where
      r: "readerThreadFunc le fs inp reader raw empty_file initial_stats = Inr (jobs, out, st)"
    and run: "reachable (Some rm) (start_system l f jobs) s" "stopped s"
    and e': "e' = engine_after le out st (written s) s e2"
    using ready_cases [OF assms(1-3,5,4)] by metis
  have ok: "\<forall>job \<in> set jobs. job_ok job"
    using reader_returns [of le fs inp reader raw empty_file initial_stats] r by auto
  have snd: "sound_state l f s" using from_start(1) [OF assms(1-3) ok run(1)] .
  have f: "\<not> running e'" "lb_mgr e' = Some (tier s)" "fps e' = workers s" "output_queue e' = outq s"
    "\<not> out_open (output_file e')"
    by (simp_all add: e' engine_after_def)
  have "engine_delete e' = e'"
    using f stopped_tiers [OF snd run(2)] by (simp add: engine_delete_def engine_stop_def Let_def)
  moreover have "\<forall>lb \<in> set (lbs (tier s)). \<not> lb_running lb" "\<forall>fp \<in> set (workers s). \<not> fp_running fp"
    using snd run(2) by (auto simp: in_set_conv_nth sound_state_def shut_order_def stopped_def topology_def)
  moreover have "is_shutdown (outq s)" using run(2) by (simp add: stopped_def)
  ultimately show ?thesis using f by (simp add: engine_stop_def)
qed

theorem delete_after_processFile_witness:
  "\<exists>e e'. processFile True (\<lambda>_. None) (\<lambda>_. Some (pcap_bytes True sample_header [sample_raw])) (\<lambda>_. True)
       e ''in.pcap'' ''out.pcap'' True e' \<and> engine_delete e' = e'"
proof -
  let ?fs = "\<lambda>_ :: string. Some (pcap_bytes True sample_header [sample_raw])"
  obtain e where e: "ready 2 2 (asked_rules []) e" using sample_engine by blast
  obtain e' where r: "processFile True (\<lambda>_. None) ?fs (\<lambda>_. True) e ''in.pcap'' ''out.pcap'' True e'"
    using some_run [of 2 2 "asked_rules []" e "\<lambda>_. True" "''out.pcap''" True "\<lambda>_. None" ?fs "''in.pcap''"] e by auto
  have "engine_delete e' = e'"
    using delete_after_processFile [OF _ _ _ e r] by simp
  then show ?thesis using r by blast
qed

end
