(* ===== verification/Live_Rules.thy ===== *)
theory Live_Rules
  imports Rule_Races Flow_Runs
begin

text \<open>
  The pipeline of \<open>src/dpi_engine.cpp\<close> while its caller changes the rules: between the steps of
  the threads any write of \<open>Rule_Races\<close> may come, and a worker that decides a packet may
  have made each of its four lookups at another moment. The theorems about \<open>Pipeline\<close> fix the
  rules of a run; here is what remains when they move.
\<close>

section \<open>A verdict of several moments is one of mixed rules\<close>

definition rules_mix ::
  "rule_manager \<Rightarrow> rule_manager \<Rightarrow> rule_manager \<Rightarrow> rule_manager \<Rightarrow> rule_manager" where
  "rules_mix r1 r2 r3 r4 =
     \<lparr>blocked_ips = blocked_ips r1, blocked_apps = blocked_apps r3,
      blocked_domains = blocked_domains r4, domain_patterns = domain_patterns r4,
      blocked_ports = blocked_ports r2\<rparr>"

lemma mix_lookups [simp]:
  "isIPBlocked (rules_mix r1 r2 r3 r4) ip = isIPBlocked r1 ip"
  "isPortBlocked (rules_mix r1 r2 r3 r4) port = isPortBlocked r2 port"
  "isAppBlocked (rules_mix r1 r2 r3 r4) app = isAppBlocked r3 app"
  "isDomainBlocked (rules_mix r1 r2 r3 r4) domain = isDomainBlocked r4 domain"
  by (simp_all add: rules_mix_def isIPBlocked_def isPortBlocked_def isAppBlocked_def isDomainBlocked_def)

text \<open>So a worker whose lookups are at four moments behaves as one with the mixed rules at one.\<close>

lemma mix_verdict:
  "shouldBlock (rules_mix r1 r2 r3 r4) ip port app domain =
   shouldBlock_reads r1 r2 r3 r4 ip port app domain"
  by (simp add: shouldBlock_def shouldBlock_reads_def)

section \<open>Runs under changing rules\<close>

text \<open>
  \<open>h\<close> holds the rules there have been, the newest first. A step of a thread may use any mix of
  them, which allows every real run (a worker's lookups are at moments of the run, in order).
\<close>

inductive live_run :: "rule_manager \<Rightarrow> system \<Rightarrow> rule_manager list \<Rightarrow> system \<Rightarrow> bool" for rm0 s0 where
  Live: "live_run rm0 s0 [rm0] s0"
| Thread_moves: "live_run rm0 s0 h s \<Longrightarrow> {r1, r2, r3, r4} \<subseteq> set h \<Longrightarrow>
    step (Some (rules_mix r1 r2 r3 r4)) s s' \<Longrightarrow> live_run rm0 s0 h s'"
| Rules_change: "live_run rm0 s0 h s \<Longrightarrow> live_run rm0 s0 (write_rule a (hd h) # h) s"

text \<open>A run under fixed rules is one without changes.\<close>

lemma mix_same: "rules_mix rm rm rm rm = rm"
  by (simp add: rules_mix_def)

lemma fixed_rules_run: "reachable (Some rm) s0 s \<Longrightarrow> live_run rm s0 [rm] s"
proof (induction rule: reachable.induct)
  case (Next s s')
  then show ?case using live_run.Thread_moves [of rm s0 "[rm]" s rm rm rm rm s'] by (simp add: mix_same)
qed (rule live_run.Live)

text \<open>Some rules of the history let the packet pass, by address and by port.\<close>

definition once_permitted :: "rule_manager list \<Rightarrow> packet_job \<Rightarrow> bool" where
  "once_permitted h j \<longleftrightarrow>
     (\<exists>r \<in> set h. \<not> isIPBlocked r (src_ip (job_tuple j))) \<and>
     (\<exists>r \<in> set h. \<not> isPortBlocked r (dst_port (job_tuple j)))"

text \<open>Rules of the history that are against a flow known as \<open>a\<close>: some at some moment, or one of the four
  kinds of rule at all moments.\<close>

definition once_against :: "rule_manager list \<Rightarrow> five_tuple \<Rightarrow> AppType \<times> string \<Rightarrow> bool" where
  "once_against h k a \<longleftrightarrow> (\<exists>r \<in> set h. objects (Some r) k a)"

definition always_against :: "rule_manager list \<Rightarrow> five_tuple \<Rightarrow> AppType \<times> string \<Rightarrow> bool" where
  "always_against h k a \<longleftrightarrow>
     (\<forall>r \<in> set h. isIPBlocked r (src_ip k)) \<or> (\<forall>r \<in> set h. isPortBlocked r (dst_port k)) \<or>
     (\<forall>r \<in> set h. isAppBlocked r (fst a)) \<or> (\<forall>r \<in> set h. isDomainBlocked r (snd a))"

text \<open>The rules a step may be under.\<close>

definition mixes :: "rule_manager list \<Rightarrow> rule_manager option set" where
  "mixes h = {Some (rules_mix r1 r2 r3 r4) | r1 r2 r3 r4. {r1, r2, r3, r4} \<subseteq> set h}"

lemma mix_against:
  assumes "rules \<in> mixes h"
  shows "always_against h k a \<Longrightarrow> objects rules k a" and "objects rules k a \<Longrightarrow> once_against h k a"
proof -
  obtain r1 r2 r3 r4 where r: "rules = Some (rules_mix r1 r2 r3 r4)" "{r1, r2, r3, r4} \<subseteq> set h"
    using assms by (auto simp: mixes_def)
  have o: "objects (Some r) k a \<longleftrightarrow> isIPBlocked r (src_ip k) \<or> isPortBlocked r (dst_port k) \<or>
      isAppBlocked r (fst a) \<or> isDomainBlocked r (snd a)" for r
    using shouldBlock_None [of r "src_ip k" "dst_port k" "fst a" "snd a"] by (auto simp: objects_def)
  show "always_against h k a \<Longrightarrow> objects rules k a" "objects rules k a \<Longrightarrow> once_against h k a"
    using r(2) unfolding r(1) once_against_def always_against_def o mix_lookups by blast+
qed

lemma mix_permits:
  "{r1, r2, r3, r4} \<subseteq> set h \<Longrightarrow> permits (Some (rules_mix r1 r2 r3 r4)) j \<Longrightarrow> once_permitted h j"
  by (auto simp: permits_def once_permitted_def)

lemma clean_mono: "clean P s \<Longrightarrow> (\<And>j. P j \<Longrightarrow> Q j) \<Longrightarrow> clean Q s"
  unfolding clean_def by blast

lemma live_invariant:
  assumes "live_run rm0 s0 h s" and "sound_state l f s0" and "lane_ok l f jobs (lanes_of s0)"
    and "clean (once_permitted [rm0]) s0"
  shows "sound_state l f s \<and> lane_ok l f jobs (lanes_of s) \<and> clean (once_permitted h) s"
  using assms
proof (induction rule: live_run.induct)
  case (Thread_moves h s r1 r2 r3 r4 s')
  then have i: "sound_state l f s" "lane_ok l f jobs (lanes_of s)" "clean (once_permitted h) s" by blast+
  have "move l f (lanes_of s) (lanes_of s')" "sound_state l f s'"
    using step_sound [OF i(1) Thread_moves.hyps(3)] by blast+
  moreover have "lane_ok l f jobs (lanes_of s')"
    using move_lane_ok [OF calculation(1) _ i(2)] i(1) by (simp add: sound_state_def)
  moreover have "clean (once_permitted h) s'"
    by (rule clean_step [OF i(1,3) Thread_moves.hyps(3)]) (rule mix_permits [OF Thread_moves.hyps(2)])
  ultimately show ?case by blast
next
  case (Rules_change h s a)
  then have "clean (once_permitted h) s" by blast
  then have "clean (once_permitted (write_rule a (hd h) # h)) s"
    by (auto elim!: clean_mono simp: once_permitted_def)
  then show ?case using Rules_change by blast
qed blast

lemma live_start: "clean P (start_system l f jobs)"
  by (simp add: clean_def new_queue_def)

lemma live_sound:
  assumes "0 < l" and "0 < f" and "f < 2 ^ 31" and "\<forall>job \<in> set jobs. job_ok job"
    and "live_run rm0 (start_system l f jobs) h s"
  shows "sound_state l f s" and "lane_ok l f jobs (lanes_of s)" and "clean (once_permitted h) s"
  using live_invariant [OF assms(5) start_sound [OF assms(1-4)] start_lane_ok [OF assms(1,2)] live_start] by blast+

text \<open>A flow sees a run of its machine under rules that are mixed of those of the history.\<close>

lemma live_flow:
  assumes "0 < l" and "0 < f" and "f < 2 ^ 31" and "\<forall>job \<in> set jobs. job_ok job"
    and "live_run rm0 (start_system l f jobs) h s" and "set h \<subseteq> set h'"
  shows "flow_runs (mixes h') k (fresh_flow (of_flow k jobs)) (view_of l f k s)"
  using assms(5,6)
proof (induction rule: live_run.induct)
  case Live
  then show ?case by (simp add: view_start [OF assms(1,2)])
next
  case (Thread_moves h s r1 r2 r3 r4 s')
  have "sound_state l f s" by (rule live_sound(1) [OF assms(1-4) Thread_moves.hyps(1)])
  then have v: "view_of l f k s' = view_of l f k s \<or>
      flow_move (Some (rules_mix r1 r2 r3 r4)) k (view_of l f k s) (view_of l f k s')"
    by (rule view_step [OF _ Thread_moves.hyps(3)])
  have "{r1, r2, r3, r4} \<subseteq> set h'" using Thread_moves.hyps(2) Thread_moves.prems by (rule subset_trans)
  then have "Some (rules_mix r1 r2 r3 r4) \<in> mixes h'" unfolding mixes_def by blast
  then show ?case using v Thread_moves.IH [OF Thread_moves.prems] by (metis (no_types, lifting) rtranclp.rtrancl_into_rtrancl)
qed auto

lemma live_flow_verdicts:
  assumes "0 < l" and "0 < f" and "f < 2 ^ 31" and "\<forall>job \<in> set jobs. job_ok job"
    and "live_run rm0 (start_system l f jobs) h s"
  shows "of_flow k jobs = pre @ post \<Longrightarrow> \<forall>j \<in> set pre. \<not> told (\<lambda>a. \<not> always_against h k a) j \<Longrightarrow>
      subseq (of_flow k (written s)) (filter (\<lambda>j. \<not> told (always_against h k) j) pre @ post)"
    and "\<not> once_against h k (UNKNOWN, []) \<Longrightarrow> \<forall>j \<in> set (of_flow k jobs). \<not> told (once_against h k) j \<Longrightarrow>
      of_flow k (dropped s) = []"
proof -
  have run: "flow_runs (mixes h) k (fresh_flow (of_flow k jobs)) (view_of l f k s)"
    by (rule live_flow [OF assms order_refl])
  show "subseq (of_flow k (written s)) (filter (\<lambda>j. \<not> told (always_against h k) j) pre @ post)"
    if "of_flow k jobs = pre @ post" "\<forall>j \<in> set pre. \<not> told (\<lambda>a. \<not> always_against h k a) j"
  proof -
    have "held_back (always_against h k) pre post (view_of l f k s)"
      using held_back_runs [OF run] held_back_start [OF that(2)] mix_against(1) that(1) by auto
    then have "subseq (fl_passed (view_of l f k s)) (filter (\<lambda>j. \<not> told (always_against h k) j) pre @ post)"
      by (rule held_back_passed)
    moreover have "subseq (of_flow k (written s)) (fl_passed (view_of l f k s))"
      by (simp add: prefix_imp_subseq)
    ultimately show ?thesis using subseq_order.trans by blast
  qed
  show "of_flow k (dropped s) = []"
    if "\<not> once_against h k (UNKNOWN, [])" "\<forall>j \<in> set (of_flow k jobs). \<not> told (once_against h k) j"
  proof -
    have "harmless (once_against h k) (view_of l f k s)"
      using harmless_runs [OF run _ that(1) harmless_start [OF that(2)]] mix_against(2) by blast
    then show ?thesis by (simp add: harmless_def)
  qed
qed

text \<open>The order and the number of the packets do not depend on the rules.\<close>

lemma lane_conserves:
  assumes "sound_state l f s" and "lane_ok l f jobs (lanes_of s)"
  shows "subseq (of_flow k (written s)) (of_flow k jobs)"
    and "mset (of_flow k (written s)) + mset (of_flow k (dropped s)) \<subseteq># mset (of_flow k jobs)"
proof -
  have ok: "subseq (lane l f k (lanes_of s)) (of_flow k jobs)"
    "mset (lane l f k (lanes_of s)) + mset (of_flow k (dropped s)) = mset (of_flow k jobs)"
    using assms(2) by (auto simp: lane_ok_def)
  have "subseq (of_flow k (written s)) (lane l f k (lanes_of s))"
    by (simp add: lane_def prefix_imp_subseq)
  then show "subseq (of_flow k (written s)) (of_flow k jobs)" using ok(1) by (rule subseq_order.trans)
  show "mset (of_flow k (written s)) + mset (of_flow k (dropped s)) \<subseteq># mset (of_flow k jobs)"
    unfolding ok(2) [symmetric] by (simp add: lane_def)
qed

text \<open>C22: changing the rules while the engine runs is safe. However the changes fall between the
  steps of the threads and between the lookups of one verdict:
  a packet that is written had an address and a port that were not blocked at some moment of the
  run; of the first part of a flow, as far as every name in it was blocked by one kind of rule throughout
  (always by its application, say, or always by its domain), no packet with such a name is written; a packet is dropped only if at
  some moment some rule was against its flow, unknown or known as what one of its own packets says;
  a flow that loses none is written in full once nothing is under way; the packets of each
  flow come out in order and none twice; and no thread faults.\<close>

theorem rules_change_safely:
  assumes "0 < l" and "0 < f" and "f < 2 ^ 31" and "\<forall>job \<in> set jobs. job_ok job"
    and "live_run rm0 (start_system l f jobs) h s"
  shows "(\<forall>j \<in> set (written s).
       (\<exists>r \<in> set h. \<not> isIPBlocked r (src_ip (job_tuple j))) \<and>
       (\<exists>r \<in> set h. \<not> isPortBlocked r (dst_port (job_tuple j)))) \<and>
    (\<forall>k pre post. of_flow k jobs = pre @ post \<and> (\<forall>j \<in> set pre. \<not> told (\<lambda>a. \<not> always_against h k a) j) \<longrightarrow>
       subseq (of_flow k (written s)) (filter (\<lambda>j. \<not> told (always_against h k) j) pre @ post)) \<and>
    (\<forall>j \<in> set (dropped s). \<exists>r \<in> set h. \<exists>a.
       (a = (UNKNOWN, []) \<or> (\<exists>i \<in> set (of_flow (job_tuple j) jobs). job_class i = Some a)) \<and>
       shouldBlock r (src_ip (job_tuple j)) (dst_port (job_tuple j)) (fst a) (snd a) \<noteq> None) \<and>
    (\<forall>k. of_flow k (dropped s) = [] \<and> in_flight s = [] \<longrightarrow> of_flow k (written s) = of_flow k jobs) \<and>
    (\<forall>k. subseq (of_flow k (written s)) (of_flow k jobs) \<and>
       mset (of_flow k (written s)) + mset (of_flow k (dropped s)) \<subseteq># mset (of_flow k jobs)) \<and>
    (\<forall>rules ns t1 t2 w i. returns (worker_step rules ns t1 t2 w s) \<and> returns (lb_push_step i s) \<and>
       returns (reader_step s))"
proof -
  note i = live_sound [OF assms] and v = live_flow_verdicts [OF assms]
  have "\<exists>r \<in> set h. \<exists>a. (a = (UNKNOWN, []) \<or> (\<exists>i \<in> set (of_flow (job_tuple j) jobs). job_class i = Some a)) \<and>
      shouldBlock r (src_ip (job_tuple j)) (dst_port (job_tuple j)) (fst a) (snd a) \<noteq> None"
    if "j \<in> set (dropped s)" for j
  proof -
    let ?k = "job_tuple j"
    have "of_flow ?k (dropped s) \<noteq> []" using that by (auto simp: of_flow_def filter_empty_conv)
    then have "once_against h ?k (UNKNOWN, []) \<or> (\<exists>i \<in> set (of_flow ?k jobs). told (once_against h ?k) i)"
      using v(2) by blast
    then obtain a where "once_against h ?k a"
        "a = (UNKNOWN, []) \<or> (\<exists>i \<in> set (of_flow ?k jobs). job_class i = Some a)"
      by (auto simp: told_def split: option.splits)
    moreover from this(1) obtain r where "r \<in> set h" "shouldBlock r (src_ip ?k) (dst_port ?k) (fst a) (snd a) \<noteq> None"
      by (auto simp: once_against_def objects_def)
    ultimately show ?thesis by blast
  qed
  then have d: "\<forall>j \<in> set (dropped s). \<exists>r \<in> set h. \<exists>a.
      (a = (UNKNOWN, []) \<or> (\<exists>i \<in> set (of_flow (job_tuple j) jobs). job_class i = Some a)) \<and>
      shouldBlock r (src_ip (job_tuple j)) (dst_port (job_tuple j)) (fst a) (snd a) \<noteq> None"
    by blast
  have w: "\<forall>j \<in> set (written s).
       (\<exists>r \<in> set h. \<not> isIPBlocked r (src_ip (job_tuple j))) \<and>
       (\<exists>r \<in> set h. \<not> isPortBlocked r (dst_port (job_tuple j)))"
    using i(3) by (simp add: clean_def once_permitted_def)
  have f: "\<forall>rules ns t1 t2 w i. returns (worker_step rules ns t1 t2 w s) \<and> returns (lb_push_step i s) \<and>
       returns (reader_step s)"
    using no_step_faults [OF i(1)] by (simp add: returns_def)
  show ?thesis
    by (intro conjI w d f) (use v(1) flow_complete [OF i(2)] lane_conserves [OF i(1,2)] in blast)+
qed

text \<open>A name is blocked, an address is blocked before the threads start, and all packets are dealt with:
  the ClientHello for the name does not come out, and the other flow loses nothing.\<close>

lemma later_steps:
  assumes "reachable (Some (hd h)) s s'" and "live_run rm0 s0 h s"
  shows "live_run rm0 s0 h s'"
  using assms(1)
proof (induction rule: reachable.induct)
  case (Next s1 s2)
  have "h \<noteq> []" using assms(2) by (induction rule: live_run.induct) simp_all
  then show ?case
    using live_run.Thread_moves [OF Next(3), of "hd h" "hd h" "hd h" "hd h"] Next(2) by (simp add: mix_same)
qed (rule assms(2))

theorem rules_change_safely_witness:
  "\<exists>s h. live_run (blockDomain ''a.org'' empty_rules)
      (start_system 2 2 [job_of (flow 1) SYN [], hello_job, job_of (flow 2) SYN []]) h s \<and> length h = 2 \<and>
     of_flow (flow 2) (written s) = [job_of (flow 2) SYN []] \<and> hello_job \<notin> set (written s)"
proof -
  let ?jobs = "[job_of (flow 1) SYN [], hello_job, job_of (flow 2) SYN []]"
  let ?r0 = "blockDomain ''a.org'' empty_rules"
  let ?h = "[blockIP 7 ?r0, ?r0]"
  have ok: "\<forall>job \<in> set ?jobs. job_ok job" using job_of_ok by simp
  then have "sound_state 2 2 (start_system 2 2 ?jobs)" by (intro start_sound) auto
  then obtain s where s: "reachable (Some (blockIP 7 ?r0)) (start_system 2 2 ?jobs) s" "in_flight s = []"
    using drain [of 2 2 "start_system 2 2 ?jobs"] by auto
  have "live_run ?r0 (start_system 2 2 ?jobs) [write_rule (Insert_ip 7) (hd [?r0]), ?r0] (start_system 2 2 ?jobs)"
    by (rule live_run.Rules_change [OF live_run.Live])
  then have run: "live_run ?r0 (start_system 2 2 ?jobs) ?h s" using later_steps [of ?h] s(1) by simp
  have n: "0 < (2 :: nat)" "(2 :: nat) < 2 ^ 31" by simp_all
  note safe = rules_change_safely [OF n(1) n(1) n(2) ok run]
  have c: "job_class (job_of (flow 1) SYN []) = None" "job_class (job_of (flow 2) SYN []) = None"
      "job_class hello_job = Some (sniToAppType ''a.org'', ''a.org'')"
    using hello_class by (simp_all add: job_class_def hello_bytes_def del: One_nat_def)
  have r: "shouldBlock r (src_ip (flow 2)) (dst_port (flow 2)) UNKNOWN [] = None" if "r \<in> set ?h" for r
    using that by (auto simp: shouldBlock_def isIPBlocked_def isPortBlocked_def isAppBlocked_def
        isDomainBlocked_def blockDomain_def blockIP_def empty_rules_def flow_def)
  have k: "flow 1 \<noteq> flow 2" by (simp add: flow_def)
  have "of_flow (flow 2) (dropped s) = []"
  proof -
    have "j \<notin> set (dropped s)" if j: "job_tuple j = flow 2" for j
    proof
      assume "j \<in> set (dropped s)"
      then obtain r a where "r \<in> set ?h" "a = (UNKNOWN, []) \<or> (\<exists>i \<in> set (of_flow (flow 2) ?jobs). job_class i = Some a)"
          "shouldBlock r (src_ip (flow 2)) (dst_port (flow 2)) (fst a) (snd a) \<noteq> None"
        using safe j by metis
      then show False using r k c(2) by (auto simp del: not_None_eq)
    qed
    then show ?thesis by (auto simp: of_flow_def filter_empty_conv)
  qed
  then have "of_flow (flow 2) (written s) = of_flow (flow 2) ?jobs" using safe s(2) by blast
  moreover have only: "subseq (of_flow (flow 1) (written s)) [job_of (flow 1) SYN []]"
  proof -
    have al: "always_against ?h (flow 1) (sniToAppType ''a.org'', ''a.org'')"
      by (simp add: always_against_def isDomainBlocked_def blockDomain_def blockIP_def empty_rules_def)
    have "of_flow (flow 1) ?jobs = [job_of (flow 1) SYN [], hello_job] @ []" using k by simp
    moreover have "\<forall>j \<in> set [job_of (flow 1) SYN [], hello_job]. \<not> told (\<lambda>a. \<not> always_against ?h (flow 1) a) j"
      using c al by (simp add: told_def)
    ultimately have "subseq (of_flow (flow 1) (written s))
        (filter (\<lambda>j. \<not> told (always_against ?h (flow 1)) j) [job_of (flow 1) SYN [], hello_job] @ [])"
      by (rule conjunct1 [OF conjunct2 [OF safe], rule_format, OF conjI])
    then show ?thesis using c al by (simp add: told_def)
  qed
  have "hello_job \<noteq> job_of (flow 1) SYN []" using c(1,3) by (metis option.distinct(1))
  then have "hello_job \<notin> set (of_flow (flow 1) (written s))"
    using list_emb_set [OF only, of hello_job] by auto
  then have "hello_job \<notin> set (written s)" by (simp add: of_flow_def)
  moreover have "of_flow (flow 2) ?jobs = [job_of (flow 2) SYN []]" using k by simp
  moreover have "length ?h = 2" by simp
  ultimately show ?thesis using run by metis
qed

end
