(* ===== verification/Steady_Runs.thy ===== *)
theory Steady_Runs
  imports Flow_Runs
begin

text \<open>
  What happens to a flow when its entry is not lost on the way (\<open>src/fast_path.cpp\<close>,
  \<open>src/connection_tracker.cpp\<close>): the capture has no more flows than a table has room for, the
  workers run for no longer than the timeout of \<open>cleanupStale\<close>, and the flow is not closed.
  Then the verdicts do not depend on the threads, on the clock or on the machine of TCP states
  at all. They are a function of the flow's packets, which needs neither: \<open>admitted\<close>.
\<close>

section \<open>The verdicts on a flow as a function of its packets\<close>

text \<open>A packet that says nothing of its flow: no payload, or none that names or tells anything.\<close>

definition silent :: "packet_job \<Rightarrow> bool" where
  "silent j \<longleftrightarrow> job_class j = None"

text \<open>The packets of the flow \<open>k\<close> that pass. As long as they say nothing, the flow is an unknown one, and
  the first packet that says something settles all that follow.\<close>

fun admitted :: "rule_manager option \<Rightarrow> five_tuple \<Rightarrow> packet_job list \<Rightarrow> packet_job list" where
  "admitted rules k [] = []"
| "admitted rules k (j # js) =
     (case job_class j of
        None \<Rightarrow> if objects rules k (UNKNOWN, []) then [] else j # admitted rules k js
      | Some a \<Rightarrow> if objects rules k a then [] else j # js)"

definition cut_off :: "rule_manager option \<Rightarrow> five_tuple \<Rightarrow> packet_job list \<Rightarrow> packet_job list" where
  "cut_off rules k js = drop (length (admitted rules k js)) js"

lemma admitted_cut_off: "admitted rules k js @ cut_off rules k js = js"
proof -
  have "prefix (admitted rules k js) js"
    by (induction js) (auto split: option.split)
  then show ?thesis unfolding cut_off_def by (metis prefixE append_eq_conv_conj)
qed

text \<open>What is known of the flow in the end: what the first packet says that says something, if the flow
  is not blocked before it.\<close>

fun learned :: "rule_manager option \<Rightarrow> five_tuple \<Rightarrow> packet_job list \<Rightarrow> AppType \<times> string" where
  "learned rules k [] = (UNKNOWN, [])"
| "learned rules k (j # js) =
     (case job_class j of
        None \<Rightarrow> if objects rules k (UNKNOWN, []) then (UNKNOWN, []) else learned rules k js
      | Some a \<Rightarrow> a)"

text \<open>One packet more.\<close>

lemma admitted_snoc:
  "admitted rules k (js @ [j]) =
     (if admitted rules k js \<noteq> js then admitted rules k js
      else if list_all silent js then js @ admitted rules k [j] else js @ [j])"
  by (induction js) (auto simp: silent_def [abs_def] split: option.split)

lemma learned_snoc:
  "learned rules k (js @ [j]) =
     (if admitted rules k js = js \<and> list_all silent js
      then (case job_class j of None \<Rightarrow> (UNKNOWN, []) | Some a \<Rightarrow> a) else learned rules k js)"
  by (induction js) (auto simp: silent_def [abs_def] split: option.split)

lemma one_more:
  "admitted rules k (js @ [j]) = js @ [j] \<Longrightarrow>
     admitted rules k js = js \<and> cut_off rules k (js @ [j]) = [] \<and> cut_off rules k js = []"
  "admitted rules k (js @ [j]) \<noteq> js @ [j] \<Longrightarrow>
     admitted rules k (js @ [j]) = admitted rules k js \<and> cut_off rules k (js @ [j]) = cut_off rules k js @ [j]"
proof -
  have short: "length (admitted rules k js) \<le> length js"
    using arg_cong [OF admitted_cut_off [of rules k js], of length] by simp
  show "admitted rules k (js @ [j]) = js @ [j] \<Longrightarrow>
     admitted rules k js = js \<and> cut_off rules k (js @ [j]) = [] \<and> cut_off rules k js = []"
    using short by (auto simp: admitted_snoc cut_off_def simp del: admitted.simps split: if_splits)
  show "admitted rules k (js @ [j]) \<noteq> js @ [j] \<Longrightarrow>
     admitted rules k (js @ [j]) = admitted rules k js \<and> cut_off rules k (js @ [j]) = cut_off rules k js @ [j]"
    using short by (auto simp: admitted_snoc cut_off_def split: if_splits option.splits)
qed

section \<open>The entry of a flow that is not closed\<close>

definition closes :: "packet_job \<Rightarrow> bool" where
  "closes j \<longleftrightarrow> protocol (job_tuple j) = TCP_PROTO \<and> (job_flags j AND RST \<noteq> 0 \<or> job_flags j AND FIN \<noteq> 0)"

text \<open>What the entry tells of the packets so far.\<close>

definition tells :: "rule_manager option \<Rightarrow> five_tuple \<Rightarrow> packet_job list \<Rightarrow> connection \<Rightarrow> bool" where
  "tells rules k js c \<longleftrightarrow>
     \<not> fin_seen c \<and> conn_state c \<noteq> CLOSED \<and> (app_type c, conn_sni c) = learned rules k js \<and>
     (conn_state c = BLOCKED \<longleftrightarrow> admitted rules k js \<noteq> js) \<and>
     (conn_state c = CLASSIFIED \<longrightarrow> \<not> list_all silent js \<and> \<not> objects rules k (app_type c, conn_sni c)) \<and>
     (conn_state c \<in> {NEW, ESTABLISHED} \<longrightarrow> list_all silent js \<and> app_type c = UNKNOWN \<and> conn_sni c = [])"

lemma tells_new: "tells rules k [] (new_connection k t)"
  by (simp add: tells_def new_connection_def)

lemma tracked_open:
  assumes "\<not> closes j" and "\<not> fin_seen c"
  shows "\<not> fin_seen (tracked now j c)"
    and "conn_state (tracked now j c) = conn_state c \<or> conn_state c = NEW \<and> conn_state (tracked now j c) = ESTABLISHED"
    and "app_type (tracked now j c) = app_type c" and "conn_sni (tracked now j c) = conn_sni c"
  using assms tracked_frame(1,2)
  by (auto simp: tracked_def Let_def closes_def touch_def updateTCPState_state updateTCPState_flags)

lemma tells_tracked:
  assumes "tells rules k js c" and "\<not> closes j"
  shows "tells rules k js (tracked now j c)"
  using assms tracked_open [OF assms(2), of c now] unfolding tells_def by auto

text \<open>One packet: the verdict is that of \<open>admitted\<close>.\<close>

lemma tells_step:
  assumes "tells rules k js c" and "job_tuple j = k" and "\<not> closes j" and "flow_step rules now j c = (c', a)"
  shows "tells rules k (js @ [j]) c'" and "a = (if admitted rules k (js @ [j]) = js @ [j] then FORWARD else DROP)"
proof -
  let ?c = "tracked now j c"
  have t: "tells rules k js ?c" by (rule tells_tracked [OF assms(1,3)])
  consider (blocked) "conn_state ?c = BLOCKED" | (classified) "conn_state ?c = CLASSIFIED"
    | (unsaid) "conn_state ?c \<in> {NEW, ESTABLISHED}"
    using t by (cases "conn_state ?c") (auto simp: tells_def)
  then have "tells rules k (js @ [j]) c' \<and> a = (if admitted rules k (js @ [j]) = js @ [j] then FORWARD else DROP)"
  proof cases
    case blocked
    then have "(c', a) = (?c, DROP)" using assms(4) by (simp add: flow_step_def Let_def)
    moreover have "admitted rules k (js @ [j]) \<noteq> js @ [j]"
      using blocked t one_more(1) [of rules k js j] by (auto simp: tells_def)
    ultimately show ?thesis using t blocked by (auto simp: tells_def learned_snoc)
  next
    case classified
    then have n: "\<not> objects rules k (app_type ?c, conn_sni ?c)" "\<not> list_all silent js" "admitted rules k js = js"
      using t by (auto simp: tells_def)
    then have "admitted rules k (js @ [j]) = js @ [j]" by (simp add: admitted_snoc)
    moreover have "(c', a) = (?c, FORWARD)"
      using assms(2,4) classified n(1) by (auto simp: flow_step_def Let_def inspected_def rule_hit_objects split: if_splits)
    ultimately show ?thesis using t classified by (auto simp: tells_def learned_snoc)
  next
    case unsaid
    then have o: "list_all silent js" "app_type ?c = UNKNOWN" "conn_sni ?c = []" "admitted rules k js = js" "\<not> fin_seen ?c"
      using t by (auto simp: tells_def)
    show ?thesis
    proof (cases "job_class j")
      case None
      then have i: "inspected j ?c = ?c" "silent j" by (simp_all add: inspected_job_class silent_def)
      show ?thesis
        using assms(2,4) unsaid o i None
        by (auto simp: flow_step_def Let_def rule_hit_objects tells_def learned_snoc admitted_snoc mark_blocked_def split: if_splits)
    next
      case (Some b)
      then have i: "inspected j ?c = classify b ?c" "\<not> silent j" "conn_state ?c \<noteq> CLASSIFIED" "conn_state ?c \<noteq> BLOCKED"
        using unsaid by (auto simp: inspected_job_class silent_def)
      have st: "app_type (classify b ?c) = fst b" "conn_sni (classify b ?c) = snd b"
          "conn_state (classify b ?c) = CLASSIFIED" "fin_seen (classify b ?c) = fin_seen ?c"
        using i(3) by (simp_all add: classify_def)
      show ?thesis
        using assms(2,4) o i st Some
        by (auto simp: flow_step_def Let_def rule_hit_objects tells_def learned_snoc admitted_snoc mark_blocked_def split: if_splits)
    qed
  qed
  then show "tells rules k (js @ [j]) c'" "a = (if admitted rules k (js @ [j]) = js @ [j] then FORWARD else DROP)"
    by blast+
qed

section \<open>A flow whose entry is not lost\<close>

text \<open>A move that forgets at most an entry that is closed.\<close>

definition steady_move :: "rule_manager option \<Rightarrow> five_tuple \<Rightarrow> flow_view \<Rightarrow> flow_view \<Rightarrow> bool" where
  "steady_move rules k v v' \<longleftrightarrow> flow_move rules k v v' \<and>
     (fl_entry v' = None \<longrightarrow> (\<forall>c. fl_entry v = Some c \<longrightarrow> conn_state c = CLOSED))"

text \<open>
  \<open>pre\<close> is the part of the flow up to the first packet that closes it. While it lasts, the verdicts
  are those of \<open>admitted\<close>; afterwards anything may happen to the packets of \<open>post\<close>.
\<close>

definition past_end ::
  "rule_manager option \<Rightarrow> five_tuple \<Rightarrow> packet_job list \<Rightarrow> packet_job list \<Rightarrow> flow_view \<Rightarrow> bool" where
  "past_end rules k pre post v \<longleftrightarrow>
     (\<exists>xs ys. fl_passed v = admitted rules k pre @ xs \<and> fl_refused v = cut_off rules k pre @ ys \<and>
        mset xs + mset ys + mset (fl_pending v) = mset post)"

definition on_track ::
  "rule_manager option \<Rightarrow> five_tuple \<Rightarrow> packet_job list \<Rightarrow> packet_job list \<Rightarrow> flow_view \<Rightarrow> bool" where
  "on_track rules k pre post v \<longleftrightarrow>
     (\<exists>js todo. pre = js @ todo \<and> fl_pending v = todo @ post \<and>
        fl_passed v = admitted rules k js \<and> fl_refused v = cut_off rules k js \<and>
        (case fl_entry v of None \<Rightarrow> js = [] | Some c \<Rightarrow> tells rules k js c))"

lemma on_track_start: "on_track rules k pre post (fresh_flow (pre @ post))"
  by (simp add: on_track_def fresh_flow_def cut_off_def)

text \<open>At the end of \<open>pre\<close> the first of the two turns into the second.\<close>

lemma on_track_past_end:
  "on_track rules k pre post v \<Longrightarrow> fl_pending v = post \<Longrightarrow> past_end rules k pre post v"
  by (auto simp: on_track_def past_end_def)

lemma past_end_move:
  assumes "flow_move rules k v v'" and "past_end rules k pre post v"
  shows "past_end rules k pre post v'"
proof -
  obtain xs ys where v: "fl_passed v = admitted rules k pre @ xs" "fl_refused v = cut_off rules k pre @ ys"
      "mset xs + mset ys + mset (fl_pending v) = mset post"
    using assms(2) by (auto simp: past_end_def)
  from assms(1) show ?thesis
  proof cases
    case (Pass j js t2 t1 c)
    then show ?thesis using v by (auto simp: past_end_def intro!: exI [of _ "xs @ [j]"] exI [of _ ys])
  next
    case (Refuse j js t2 t1 c)
    then show ?thesis using v by (auto simp: past_end_def intro!: exI [of _ xs] exI [of _ "ys @ [j]"])
  qed (use assms(2) in \<open>simp add: past_end_def\<close>)
qed

text \<open>The verdict on the next packet before the flow is closed.\<close>

lemma entry_tells:
  "(case e of None \<Rightarrow> js = [] | Some c \<Rightarrow> tells rules k js c) \<Longrightarrow> tells rules k js (entry_or_new k t e)"
  by (auto simp: entry_or_new_def tells_new split: option.splits)

lemma on_track_next:
  assumes "pre = js @ j # todo" and "fl_pending v = j # todo @ post" and "\<not> closes j" and "job_tuple j = k"
    and "fl_passed v = admitted rules k js" and "fl_refused v = cut_off rules k js"
    and "tells rules k js c0" and "flow_step rules t j c0 = (c, a)"
  shows "on_track rules k pre post
    (if a = FORWARD then v\<lparr>fl_passed := fl_passed v @ [j], fl_pending := todo @ post, fl_entry := Some c\<rparr>
     else v\<lparr>fl_refused := fl_refused v @ [j], fl_pending := todo @ post, fl_entry := Some c\<rparr>)"
proof -
  note t = tells_step [OF assms(7,4,3,8)]
  have "pre = (js @ [j]) @ todo" using assms(1) by simp
  then show ?thesis
    using t assms(5,6) one_more [of rules k js j] unfolding on_track_def
    by (intro exI [of _ "js @ [j]"] exI [of _ todo]) auto
qed

lemma on_track_move:
  assumes "steady_move rules k v v'" and "\<forall>j \<in> set pre. \<not> closes j" and "on_track rules k pre post v"
    and "fl_pending v \<noteq> post \<or> post = []"
  shows "on_track rules k pre post v'"
proof -
  have m: "flow_move rules k v v'" using assms(1) by (simp add: steady_move_def)
  obtain js todo where v: "pre = js @ todo" "fl_pending v = todo @ post" "fl_passed v = admitted rules k js"
      "fl_refused v = cut_off rules k js" "case fl_entry v of None \<Rightarrow> js = [] | Some c \<Rightarrow> tells rules k js c"
    using assms(3) by (auto simp: on_track_def)
  have step: "on_track rules k pre post
      (if a = FORWARD then v\<lparr>fl_passed := fl_passed v @ [j], fl_pending := rs, fl_entry := Some c\<rparr>
       else v\<lparr>fl_refused := fl_refused v @ [j], fl_pending := rs, fl_entry := Some c\<rparr>)"
    if j: "fl_pending v = j # rs" "job_tuple j = k" "flow_step rules t2 j (entry_or_new k t1 (fl_entry v)) = (c, a)"
    for j rs t1 t2 c a
  proof -
    have "todo \<noteq> []" using j(1) v(2) assms(4) by auto
    then obtain todo' where "todo = j # todo'" "rs = todo' @ post" using j(1) v(2) by (cases todo) auto
    then show ?thesis
      using on_track_next [OF _ _ _ j(2) v(3,4) entry_tells [OF v(5)] j(3), of pre todo' post] assms(2) v(1,2)
      by (cases "a = FORWARD") simp_all
  qed
  from m show ?thesis
  proof cases
    case Forget
    have "fl_entry v = None"
      using assms(1) v(5) Forget by (auto simp: steady_move_def tells_def split: option.splits)
    then have "v' = v" using Forget by simp
    then show ?thesis using assms(3) by simp
  next
    case (Pass j rs t2 t1 c)
    then show ?thesis using step [OF Pass(2-4)] by simp
  next
    case (Refuse j rs t2 t1 c)
    then show ?thesis using step [OF Refuse(2-4)] by simp
  qed
qed

definition settled ::
  "rule_manager option \<Rightarrow> five_tuple \<Rightarrow> packet_job list \<Rightarrow> packet_job list \<Rightarrow> flow_view \<Rightarrow> bool" where
  "settled rules k pre post v \<longleftrightarrow> on_track rules k pre post v \<or> past_end rules k pre post v \<and> post \<noteq> []"

lemma settled_move:
  assumes "steady_move rules k v v'" and "\<forall>j \<in> set pre. \<not> closes j" and "settled rules k pre post v"
  shows "settled rules k pre post v'"
  using on_track_move [OF assms(1,2)] on_track_past_end past_end_move assms(1,3)
  unfolding settled_def steady_move_def by metis

section \<open>Tables that lose no entry\<close>

text \<open>Five minutes in nanoseconds, the timeout of \<open>cleanupStale\<close> in \<open>run\<close>.\<close>

definition window :: "time_point \<Rightarrow> time_point set" where
  "window T = {T..T + 300000000000}"

definition table_ok :: "time_point \<Rightarrow> five_tuple set \<Rightarrow> tracker \<Rightarrow> bool" where
  "table_ok T K t \<longleftrightarrow> max_connections t = 100000 \<and> fst ` set (connections t) \<subseteq> K \<and>
     (\<forall>k c. conn_at t k = Some c \<longrightarrow> last_seen c \<in> window T)"

definition loses_closed_only :: "tracker \<Rightarrow> tracker \<Rightarrow> bool" where
  "loses_closed_only t t' \<longleftrightarrow>
     (\<forall>k c. conn_at t k = Some c \<and> conn_at t' k = None \<longrightarrow> conn_state c = CLOSED)"

lemma seconds_in_window:
  assumes "t \<in> window T" and "u \<in> window T"
  shows "seconds (t - u) \<le> 300"
  using assms by (auto simp: seconds_def window_def)

lemma cleanup_table:
  assumes "tracker_inv t" and "table_ok T K t" and "now \<in> window T"
  shows "table_ok T K (snd (cleanupStale 300 now t))" and "loses_closed_only t (snd (cleanupStale 300 now t))"
proof -
  let ?t = "snd (cleanupStale 300 now t)"
  have c: "connections ?t = filter (\<lambda>(k, c). \<not> stale 300 now c) (connections t)"
    by (simp add: cleanupStale_def cleanup_loop_eq)
  have m: "conn_at ?t k = (case conn_at t k of None \<Rightarrow> None | Some c \<Rightarrow> if \<not> stale 300 now c then Some c else None)" for k
    unfolding c using assms(1) by (intro map_of_filter_value) (simp add: tracker_inv_def)
  have st: "stale 300 now c \<longleftrightarrow> conn_state c = CLOSED" if "conn_at t k = Some c" for k c
    using that assms(2) seconds_in_window [OF assms(3), of "last_seen c"] by (auto simp: stale_def table_ok_def)
  show "loses_closed_only t ?t"
    unfolding loses_closed_only_def m using st by (auto split: if_splits)
  have "last_seen c \<in> window T" if "conn_at ?t k = Some c" for k c
    using that assms(2) unfolding m by (auto simp: table_ok_def split: option.splits if_splits)
  moreover have "fst ` set (connections ?t) \<subseteq> K" using assms(2) unfolding c table_ok_def by auto
  ultimately show "table_ok T K ?t" using assms(2) by (simp add: table_ok_def)
qed

lemma tracked_last_seen [simp]: "last_seen (tracked now j c) = now"
proof -
  have "last_seen (updateTCPState fs c) = last_seen c" for fs c by (simp add: updateTCPState_def)
  then show ?thesis by (simp add: tracked_def Let_def touch_def)
qed

lemma flow_step_last_seen: "flow_step rules now j c = (c', a) \<Longrightarrow> last_seen c' = now"
  by (auto simp: flow_step_def Let_def inspected_def classify_def mark_blocked_def split: if_splits option.splits)

text \<open>With room for all flows nothing is evicted.\<close>

lemma acquire_keys:
  assumes "tracker_inv t" and "table_ok T K t" and "finite K" and "card K \<le> 100000" and "k \<in> K"
  shows "fst ` set (connections (snd (getOrCreateConnection ns now k t))) = insert k (fst ` set (connections t))"
proof (cases "conn_at t k")
  case (Some c)
  then have "k \<in> fst ` set (connections t)" by (metis domI dom_map_of_conv_image_fst)
  then show ?thesis using getOrCreate_known [OF Some] by auto
next
  case None
  then have n: "k \<notin> fst ` set (connections t)" by (simp add: map_of_eq_None_iff)
  have "length (connections t) = card (fst ` set (connections t))"
    using assms(1) by (metis tracker_inv_def distinct_card length_map list.set_map)
  also have "\<dots> < card K" using assms(2,3,5) n by (intro psubset_card_mono) (auto simp: table_ok_def)
  finally have "length (connections t) < max_connections t" using assms(2,4) by (simp add: table_ok_def)
  then show ?thesis using None by (simp add: getOrCreateConnection_def)
qed

lemma body_table:
  assumes "tracker_inv (conn_tracker fp)" and "\<forall>job. jo = Some job \<longrightarrow> job_ok job \<and> job_tuple job \<in> K"
    and "run_body ns t1 t2 rules jo fp = Inr (out, fp')" and "{t1, t2} \<subseteq> window T"
    and "table_ok T K (conn_tracker fp)" and "finite K" and "card K \<le> 100000"
  shows "table_ok T K (conn_tracker fp') \<and> loses_closed_only (conn_tracker fp) (conn_tracker fp')"
proof (cases jo)
  case None
  then have "conn_tracker fp' = snd (cleanupStale 300 t1 (conn_tracker fp))"
    using assms(3) by (auto simp: run_body_def)
  then show ?thesis using cleanup_table [OF assms(1,5), of t1] assms(4) by simp
next
  case (Some job)
  let ?t = "conn_tracker fp" and ?t' = "conn_tracker fp'" and ?k = "job_tuple job"
  have jok: "job_ok job" using assms(2) Some by simp
  obtain c' a where v: "flow_step rules t2 job (entry_or_new ?k t1 (conn_at ?t ?k)) = (c', a)"
      "out = Some (job, a)" "visits ?k ?t ?t' c'"
    using run_body_step [OF assms(1) jok assms(3) [unfolded Some]] unfolding entry_or_new_def by auto
  have o: "\<And>k. k \<noteq> ?k \<Longrightarrow> conn_at ?t' k \<in> {conn_at ?t k, None}" and me: "conn_at ?t' ?k = Some c'"
    using v(3) by (auto simp: visits_iff)
  have sh: "shape ?t' = shape (snd (getOrCreateConnection ns t1 ?k ?t))"
    using run_body_shape [OF assms(3)] Some by simp
  then have "map fst (connections ?t') = map fst (connections (snd (getOrCreateConnection ns t1 ?k ?t)))"
    by (simp add: shape_def)
  from arg_cong [OF this, of set] have keys: "fst ` set (connections ?t') = insert ?k (fst ` set (connections ?t))"
    using acquire_keys [OF assms(1,5-7), of ?k ns t1] assms(2) Some by simp
  have "conn_at ?t' k \<noteq> None" if "conn_at ?t k \<noteq> None" for k
    using that keys by (auto simp: map_of_eq_None_iff)
  then have l: "loses_closed_only ?t ?t'" unfolding loses_closed_only_def by (metis option.distinct(1))
  have "last_seen c \<in> window T" if "conn_at ?t' k = Some c" for k c
    using that o [of k] me flow_step_last_seen [OF v(1)] assms(4,5)
    by (cases "k = ?k") (auto simp: table_ok_def)
  moreover have "max_connections ?t' = 100000"
    using arg_cong [OF sh, of fst] assms(5) by (simp add: shape_def table_ok_def)
  moreover have "fst ` set (connections ?t') \<subseteq> K"
    using assms(2,5) Some unfolding keys table_ok_def by blast
  ultimately show ?thesis using l by (simp add: table_ok_def)
qed

section \<open>Runs of less than five minutes on few flows\<close>

lemma popped_place:
  assumes "w < length (workers s)" and "popWithTimeout (input_queue (workers s ! w)) = (Some job, q)"
  shows "job \<in> set (in_flight s)" and "job \<in> set (worker_jobs s w)"
proof -
  have "job \<in> set (worker_jobs s w)"
    using assms(2) by (auto simp: worker_jobs_def popWithTimeout_eq take_front_def split: list.splits if_splits)
  then show "job \<in> set (in_flight s)" "job \<in> set (worker_jobs s w)" using assms(1) by (auto simp: in_flight_def)
qed

text \<open>Each worker has a table for its own flows.\<close>

definition own_flows :: "nat \<Rightarrow> nat \<Rightarrow> packet_job list \<Rightarrow> nat \<Rightarrow> five_tuple set" where
  "own_flows l f jobs w = {k \<in> job_tuple ` set jobs. route l f k = w}"

definition tables_ok :: "time_point \<Rightarrow> nat \<Rightarrow> nat \<Rightarrow> packet_job list \<Rightarrow> system \<Rightarrow> bool" where
  "tables_ok T l f jobs s \<longleftrightarrow>
     (\<forall>w < length (workers s). table_ok T (own_flows l f jobs w) (conn_tracker (workers s ! w)))"

lemma own_flows_card: "card (own_flows l f jobs w) \<le> card (job_tuple ` set jobs)" "finite (own_flows l f jobs w)"
  by (auto simp: own_flows_def intro!: card_mono)

lemma tables_step:
  assumes "sound_state l f s" and "step_within (window T) rules s s'" and "tables_ok T l f jobs s"
    and "set (in_flight s) \<subseteq> set jobs" and "card (job_tuple ` set jobs) \<le> 100000"
  shows "tables_ok T l f jobs s'"
    and "\<forall>w < length (workers s). loses_closed_only (conn_tracker (workers s ! w)) (conn_tracker (workers s' ! w))"
proof -
  have same: "loses_closed_only t t" for t by (auto simp: loses_closed_only_def)
  consider (other) "map conn_tracker (workers s') = map conn_tracker (workers s)"
    | (work) ns t1 t2 w where "{t1, t2} \<subseteq> window T" "worker_step rules ns t1 t2 w s = Inr (Some s')"
    using assms(2) unfolding step_within_def by blast
  then have "tables_ok T l f jobs s' \<and>
    (\<forall>w < length (workers s). loses_closed_only (conn_tracker (workers s ! w)) (conn_tracker (workers s' ! w)))"
  proof cases
    case other
    then have "length (workers s') = length (workers s)"
        "\<And>w. w < length (workers s) \<Longrightarrow> conn_tracker (workers s' ! w) = conn_tracker (workers s ! w)"
      by (metis length_map) (metis other length_map nth_map)
    then show ?thesis using assms(3) same by (simp add: tables_ok_def)
  next
    case (work ns t1 t2 w)
    let ?K = "own_flows l f jobs w"
    obtain jo q out fp where e: "popWithTimeout (input_queue (workers s ! w)) = (jo, q)"
        "run_body ns t1 t2 rules jo ((workers s ! w)\<lparr>input_queue := q\<rparr>) = Inr (out, fp)" "w < length (workers s)"
        "workers s' = (workers s)[w := fp]"
      using worker_step_effect [OF work(2)] by blast
    have h: "healthy s" using assms(1) by (simp add: sound_state_def)
    note ok = popped_ok [OF h e(3,1)]
    have "job_tuple job \<in> ?K" if "jo = Some job" for job
      using popped_place [OF e(3)] e(1) that own_jobs [OF assms(1) e(3)] assms(4) by (auto simp: own_flows_def)
    then have "\<forall>job. jo = Some job \<longrightarrow> job_ok job \<and> job_tuple job \<in> ?K" using ok by simp
    moreover have "table_ok T ?K (conn_tracker ((workers s ! w)\<lparr>input_queue := q\<rparr>))"
      using assms(3) e(3) by (simp add: tables_ok_def)
    moreover have "card ?K \<le> 100000" using own_flows_card(1) assms(5) by (rule order.trans)
    ultimately have "table_ok T ?K (conn_tracker fp) \<and> loses_closed_only (conn_tracker (workers s ! w)) (conn_tracker fp)"
      using body_table [OF conjunct1 [OF ok] _ e(2) work(1) _ own_flows_card(2) [of l f jobs w]] by simp
    then show ?thesis
      using assms(3) e(3,4) same by (auto simp: tables_ok_def nth_list_update)
  qed
  then show "tables_ok T l f jobs s'"
    "\<forall>w < length (workers s). loses_closed_only (conn_tracker (workers s ! w)) (conn_tracker (workers s' ! w))"
    by blast+
qed

text \<open>A run of the threads from the start whose workers read the clock within five minutes, on a
  capture with no more flows than a table has room for.\<close>

definition steady_run :: "time_point \<Rightarrow> rule_manager option \<Rightarrow> nat \<Rightarrow> nat \<Rightarrow> packet_job list \<Rightarrow> system \<Rightarrow> bool" where
  "steady_run T rules l f jobs s \<longleftrightarrow>
     card (job_tuple ` set jobs) \<le> 100000 \<and> rtranclp (step_within (window T) rules) (start_system l f jobs) s"

lemma steady_reachable: "steady_run T rules l f jobs s \<Longrightarrow> reachable rules (start_system l f jobs) s"
  using within_reachable by (auto simp: steady_run_def)

lemma steady_induct [consumes 2, case_names start step]:
  assumes "steady_run T rules l f jobs s" and "0 < l \<and> 0 < f \<and> f < 2 ^ 31 \<and> (\<forall>job \<in> set jobs. job_ok job)"
    and start: "P (fresh_flow (of_flow k jobs))"
    and step: "\<And>v v'. steady_move rules k v v' \<Longrightarrow> P v \<Longrightarrow> P v'"
  shows "P (view_of l f k s) \<and> tables_ok T l f jobs s"
proof -
  have few: "card (job_tuple ` set jobs) \<le> 100000" and c: "0 < l" "0 < f" "f < 2 ^ 31" "\<forall>job \<in> set jobs. job_ok job"
    using assms(1,2) by (auto simp: steady_run_def)
  have "rtranclp (step_within (window T) rules) (start_system l f jobs) s" using assms(1) by (simp add: steady_run_def)
  then show ?thesis
  proof (induction rule: rtranclp_induct)
    case base
    have "tables_ok T l f jobs (start_system l f jobs)"
      unfolding tables_ok_def
    proof (intro allI impI)
      fix w assume "w < length (workers (start_system l f jobs))"
      then obtain n where "conn_tracker (workers (start_system l f jobs) ! w) = new_tracker n 100000"
        using start_idle [OF nth_mem] by blast
      then show "table_ok T (own_flows l f jobs w) (conn_tracker (workers (start_system l f jobs) ! w))"
        by (simp add: table_ok_def new_tracker_def)
    qed
    then show ?case using start by (simp add: view_start [OF c(1,2)])
  next
    case (step s s')
    let ?w = "route l f k"
    have r: "reachable rules (start_system l f jobs) s" by (rule within_reachable [OF step(1)])
    have snd: "sound_state l f s" by (rule from_start(1) [OF c r])
    have st: "step rules s s'" using step(2) by (simp add: step_within_def)
    have "mset (in_flight s) \<subseteq># mset jobs" using conservation [OF c r] by (metis mset_subset_eq_add_right)
    then have "set (in_flight s) \<subseteq> set jobs" by (metis set_mset_mono set_mset_mset)
    note tables = tables_step [OF snd step(2) _ this few]
    have "?w < length (workers s)"
      using snd route_bound [OF c(2,1)] by (simp add: sound_state_def topology_def)
    then have "loses_closed_only (conn_tracker (workers s ! ?w)) (conn_tracker (workers s' ! ?w))"
      using tables(2) step(3) by simp
    then have "view_of l f k s' = view_of l f k s \<or> steady_move rules k (view_of l f k s) (view_of l f k s')"
      using view_step [OF snd st, of k] by (auto simp: steady_move_def loses_closed_only_def)
    then show ?case using assms(4) step(3) tables(1) by metis
  qed
qed

lemma steady_settled:
  assumes "0 < l" and "0 < f" and "f < 2 ^ 31" and "\<forall>job \<in> set jobs. job_ok job" and "steady_run T rules l f jobs s"
    and "of_flow k jobs = pre @ post" and "\<forall>j \<in> set pre. \<not> closes j"
  shows "settled rules k pre post (view_of l f k s)" and "tables_ok T l f jobs s"
proof -
  have "settled rules k pre post (view_of l f k s) \<and> tables_ok T l f jobs s"
    using assms(5)
  proof (rule steady_induct)
    show "settled rules k pre post (fresh_flow (of_flow k jobs))"
      using on_track_start assms(6) by (simp add: settled_def)
  qed (use assms(1-4,7) settled_move in \<open>simp_all\<close>)
  then show "settled rules k pre post (view_of l f k s)" "tables_ok T l f jobs s" by blast+
qed

text \<open>At the end each worker's table holds flows that come to it, and each of them that is not closed, with
  what is learned of it.\<close>

lemma final_entry:
  assumes "0 < l" and "0 < f" and "f < 2 ^ 31" and "\<forall>job \<in> set jobs. job_ok job" and "steady_run T rules l f jobs s"
    and "in_flight s = []" and "\<forall>j \<in> set (of_flow k jobs). \<not> closes j"
  shows "case conn_at (conn_tracker (workers s ! route l f k)) k of
      None \<Rightarrow> of_flow k jobs = [] | Some c \<Rightarrow> tells rules k (of_flow k jobs) c"
proof -
  have "fl_pending (view_of l f k s) = []"
    using done_view(1) [OF from_start(1) [OF assms(1-4) steady_reachable [OF assms(5)]] assms(6)] .
  moreover have "settled rules k (of_flow k jobs) [] (view_of l f k s)"
    using assms(7) by (intro steady_settled(1) [OF assms(1-5)]) auto
  ultimately show ?thesis by (auto simp: settled_def on_track_def)
qed

lemma final_keys:
  assumes "0 < l" and "0 < f" and "f < 2 ^ 31" and "\<forall>job \<in> set jobs. job_ok job" and "steady_run T rules l f jobs s"
    and "w < length (workers s)"
  shows "fst ` set (connections (conn_tracker (workers s ! w))) \<subseteq> own_flows l f jobs w"
  using steady_settled(2) [OF assms(1-5), of undefined "[]" "of_flow undefined jobs"] assms(6)
  by (auto simp: tables_ok_def table_ok_def)

lemma steady_verdicts:
  assumes "0 < l" and "0 < f" and "f < 2 ^ 31" and "\<forall>job \<in> set jobs. job_ok job" and "steady_run T rules l f jobs s"
    and "of_flow k jobs = pre @ post" and "\<forall>j \<in> set pre. \<not> closes j" and "in_flight s = []"
  shows "\<exists>xs ys. of_flow k (written s) = admitted rules k pre @ xs \<and> of_flow k (dropped s) = cut_off rules k pre @ ys \<and>
    mset xs + mset ys = mset post"
proof -
  have d: "fl_pending (view_of l f k s) = []" "fl_passed (view_of l f k s) = of_flow k (written s)"
    using done_view [OF from_start(1) [OF assms(1-4) steady_reachable [OF assms(5)]] assms(8)] by blast+
  have "settled rules k pre post (view_of l f k s)" by (rule steady_settled(1) [OF assms(1-7)])
  then show ?thesis
    unfolding settled_def on_track_def past_end_def d view_fields(2) by (elim disjE exE conjE) auto
qed

text \<open>C8: the verdicts on a flow, exactly. Let the capture have at most 100000 flows and the workers run for
  at most five minutes. However the threads interleave, the packets of a flow up to the first
  FIN or RST get the verdicts of \<open>admitted\<close>: a first part of them is written, in order, and the
  rest is dropped, and where the cut is depends on what the packets say alone, not on the
  handshake, on other flows or on the schedule. Only what follows the FIN or RST is open, and in
  a flow without one nothing is.\<close>

theorem flow_verdicts_exact:
  assumes "0 < l" and "0 < f" and "f < 2 ^ 31" and "\<forall>job \<in> set jobs. job_ok job"
    and "card (job_tuple ` set jobs) \<le> 100000" and "rtranclp (step_within (window T) rules) (start_system l f jobs) s"
    and "of_flow k jobs = pre @ post" and "\<forall>j \<in> set pre. \<not> closes j" and "in_flight s = []"
  shows "\<exists>xs ys. of_flow k (written s) = admitted rules k pre @ xs \<and> of_flow k (dropped s) = cut_off rules k pre @ ys \<and>
    mset xs + mset ys = mset post"
  by (rule steady_verdicts [OF assms(1-4) _ assms(7-9)]) (use assms(5,6) in \<open>simp add: steady_run_def\<close>)

text \<open>There are such runs: all steps may come at one moment.\<close>

lemma step_within_window: "step_within {T} rules s s' \<Longrightarrow> step_within (window T) rules s s'"
  by (auto simp: step_within_def window_def)

lemma run_within_window:
  "rtranclp (step_within {T} rules) s s' \<Longrightarrow> rtranclp (step_within (window T) rules) s s'"
  using step_within_window by (metis rtranclp_mono predicate2I predicate2D)

lemma steady_drain:
  assumes "sound_state l f s" and "engine_running s"
  shows "\<exists>s'. rtranclp (step_within (window T) rules) s s' \<and> in_flight s' = []"
  using drain_at [OF assms, of T rules] run_within_window by blast

text \<open>A handshake, a ClientHello for a blocked name, and what follows it.\<close>

theorem flow_verdicts_exact_witness:
  "\<exists>s. rtranclp (step_within (window 0) (Some (blockDomain ''a.org'' empty_rules)))
       (start_system 2 2 [job_of (flow 1) SYN [], hello_job, job_of (flow 1) ACK [1, 2]]) s \<and>
     of_flow (flow 1) (written s) = [job_of (flow 1) SYN []] \<and>
     of_flow (flow 1) (dropped s) = [hello_job, job_of (flow 1) ACK [1, 2]]"
proof -
  let ?jobs = "[job_of (flow 1) SYN [], hello_job, job_of (flow 1) ACK [1, 2]]"
  let ?rules = "Some (blockDomain ''a.org'' empty_rules)"
  have ok: "\<forall>job \<in> set ?jobs. job_ok job" using job_of_ok by simp
  then have "sound_state 2 2 (start_system 2 2 ?jobs)" by (intro start_sound) auto
  then obtain s where s: "rtranclp (step_within (window 0) ?rules) (start_system 2 2 ?jobs) s" "in_flight s = []"
    using steady_drain [of 2 2 "start_system 2 2 ?jobs"] by auto
  have nc: "\<forall>j \<in> set ?jobs. \<not> closes j"
    by (simp add: closes_def RST_def FIN_def SYN_def ACK_def PSH_def)
  have o: "\<not> objects ?rules (flow 1) (UNKNOWN, [])" "objects ?rules (flow 1) (sniToAppType ''a.org'', ''a.org'')"
    by (simp_all add: objects_def shouldBlock_def isIPBlocked_def isPortBlocked_def isAppBlocked_def
        isDomainBlocked_def blockDomain_def empty_rules_def del: One_nat_def)
  have c: "job_class (job_of (flow 1) SYN []) = None" "job_class hello_job = Some (sniToAppType ''a.org'', ''a.org'')"
    using hello_class by (simp_all add: job_class_def hello_bytes_def del: One_nat_def)
  have a: "admitted ?rules (flow 1) ?jobs = [job_of (flow 1) SYN []]" using o c by simp
  then have b: "cut_off ?rules (flow 1) ?jobs = [hello_job, job_of (flow 1) ACK [1, 2]]"
    by (simp add: cut_off_def del: admitted.simps)
  have card: "card (job_tuple ` set ?jobs) \<le> 100000" by simp
  have fl: "of_flow (flow 1) ?jobs = ?jobs @ []" by simp
  show ?thesis
    using flow_verdicts_exact [OF _ _ _ ok card s(1) fl nc s(2)] a b s(1) by (auto simp del: admitted.simps)
qed

end
