(* ===== verification/Exact_Program.thy ===== *)
theory Exact_Program
  imports Program_Verdicts Steady_Runs Reports
begin

text \<open>
  What the program does to a capture whose flows all fit into the tables and are not closed: the
  output file packet by packet (\<open>src/main.cpp\<close>, \<open>src/dpi_engine.cpp\<close>), and the classification
  report (\<open>FPManager::generateClassificationReport\<close> of \<open>src/fast_path.cpp\<close>) that \<open>processFile\<close>
  prints at the end, both as functions of the capture.
\<close>

section \<open>The numbers of the classification report\<close>

abbreviation entries :: "nat list \<Rightarrow> fast_path list \<Rightarrow> connection list" where
  "entries ns ws \<equiv> all_connections ns (map (Some \<circ> conn_tracker) ws)"

lemma fold_count_class:
  "fold count_class cs s =
     s\<lparr>app_counts := fold bump (map app_type cs) (app_counts s),
       total_classified := total_classified s + length (filter (\<lambda>c. app_type c \<noteq> UNKNOWN) cs),
       total_unknown := total_unknown s + length (filter (\<lambda>c. app_type c = UNKNOWN) cs)\<rparr>"
  by (induction cs arbitrary: s) (simp_all add: count_class_def Let_def)

lemma classification_counts_eq:
  "classification_counts ns ws =
     \<lparr>app_counts = fold bump (map app_type (entries ns ws)) [],
      total_classified = length (filter (\<lambda>c. app_type c \<noteq> UNKNOWN) (entries ns ws)),
      total_unknown = length (filter (\<lambda>c. app_type c = UNKNOWN) (entries ns ws))\<rparr>"
proof -
  have "fold (\<lambda>fp. forEach ns count_class (conn_tracker fp)) ws s = fold count_class (entries ns ws) s" for s
    by (induction ws arbitrary: s) (simp_all add: forEach_def all_connections_def)
  then show ?thesis by (simp add: classification_counts_def fold_count_class)
qed

lemma length_filter_entries:
  "length (filter P (entries ns ws)) =
     (\<Sum>w < length ws. length (filter (\<lambda>(k, c). P c) (connections (conn_tracker (ws ! w)))))"
proof -
  have "mset (filter P (entries ns ws)) = mset (filter P (entries [] ws))"
    using all_connections_perm [of ns "map (Some \<circ> conn_tracker) ws"] by (simp only: mset_filter)
  then have "length (filter P (entries ns ws)) = length (filter P (entries [] ws))" by (rule mset_eq_length)
  also have "\<dots> = sum_list (map (\<lambda>fp. length (filter (\<lambda>(k, c). P c) (connections (conn_tracker fp)))) ws)"
  proof (induction ws)
    case (Cons fp ws)
    have "reorder [] xs = xs" for xs :: conn_map by (cases xs) simp_all
    then show ?case using Cons by (simp add: all_connections_def filter_map comp_def case_prod_beta)
  qed (simp add: all_connections_def)
  also have "\<dots> = (\<Sum>w < length ws. length (filter (\<lambda>(k, c). P c) (connections (conn_tracker (ws ! w)))))"
    by (simp add: sum_list_sum_nth atLeast0LessThan)
  finally show ?thesis .
qed

text \<open>A table with one entry for each key: counting entries is counting keys.\<close>

lemma count_keys:
  assumes "distinct (map fst m)" and "\<And>k c. (k, c) \<in> set m \<Longrightarrow> P c \<longleftrightarrow> Q k"
  shows "length (filter (\<lambda>(k, c). P c) m) = card {k \<in> fst ` set m. Q k}"
proof -
  have "filter (\<lambda>(k, c). P c) m = filter (\<lambda>(k, c). Q k) m" using assms(2) by (intro filter_cong) auto
  then have "length (filter (\<lambda>(k, c). P c) m) = length (filter Q (map fst m))"
    by (simp add: filter_map comp_def case_prod_unfold)
  also have "\<dots> = card (set (filter Q (map fst m)))"
    using assms(1) by (intro distinct_card [symmetric] distinct_filter)
  finally show ?thesis by simp
qed

lemma sum_fibres:
  fixes r :: "'a \<Rightarrow> nat"
  assumes "finite A"
  shows "(\<Sum>w < n. card {k \<in> A. r k = w}) = card {k \<in> A. r k < n}"
proof (induction n)
  case (Suc n)
  have "{k \<in> A. r k < Suc n} = {k \<in> A. r k < n} \<union> {k \<in> A. r k = n}" by auto
  moreover have "card ({k \<in> A. r k < n} \<union> {k \<in> A. r k = n}) = card {k \<in> A. r k < n} + card {k \<in> A. r k = n}"
    using assms by (intro card_Un_disjoint) auto
  ultimately show ?case using Suc by simp
qed simp

text \<open>The flows of a capture, and those of them that end up known as \<open>a\<close>.\<close>

definition flows :: "packet_job list \<Rightarrow> five_tuple set" where
  "flows jobs = job_tuple ` set jobs"

definition flows_known_as :: "rule_manager option \<Rightarrow> packet_job list \<Rightarrow> AppType \<Rightarrow> five_tuple set" where
  "flows_known_as rules jobs a = {k \<in> flows jobs. fst (learned rules k (of_flow k jobs)) = a}"

text \<open>The entries that are of the kind \<open>P\<close> at the end: all flows of the kind \<open>Q\<close> that are never closed, and
  perhaps closed ones.\<close>

lemma entries_between:
  assumes "0 < l" and "0 < f" and "f < 2 ^ 31" and "\<forall>job \<in> set jobs. job_ok job" and "steady_run T rules l f jobs s"
    and "in_flight s = []" and "\<And>k c. tells rules k (of_flow k jobs) c \<Longrightarrow> P c \<longleftrightarrow> Q k"
    and lasts: "\<And>k. lasts k \<longleftrightarrow> (\<forall>j \<in> set (of_flow k jobs). \<not> closes j)"
  shows "card {k \<in> flows jobs. lasts k \<and> Q k} \<le> length (filter P (entries ns (workers s)))"
    and "length (filter P (entries ns (workers s))) \<le> card {k \<in> flows jobs. lasts k \<longrightarrow> Q k}"
proof -
  let ?low = "{k \<in> flows jobs. lasts k \<and> Q k}" and ?up = "{k \<in> flows jobs. lasts k \<longrightarrow> Q k}"
  let ?n = "\<lambda>w. length (filter (\<lambda>(k, c). P c) (connections (conn_tracker (workers s ! w))))"
  have snd: "sound_state l f s" by (rule from_start(1) [OF assms(1-4) steady_reachable [OF assms(5)]])
  then have len: "length (workers s) = l * f" and h: "healthy s" by (auto simp: sound_state_def topology_def)
  have fin: "finite (flows jobs)" by (simp add: flows_def)
  have worker: "card {k \<in> ?low. route l f k = w} \<le> ?n w \<and> ?n w \<le> card {k \<in> ?up. route l f k = w}"
    if w: "w < l * f" for w
  proof -
    let ?m = "connections (conn_tracker (workers s ! w))"
    let ?K = "{k \<in> fst ` set ?m. P (the (map_of ?m k))}"
    have d: "distinct (map fst ?m)" using h w len by (simp add: healthy_def tracker_inv_def)
    have n: "?n w = card ?K" by (rule count_keys [OF d]) (use d in simp)
    have known: "k \<in> fst ` set ?m \<and> (P (the (map_of ?m k)) \<longleftrightarrow> Q k)" if kk: "k \<in> flows jobs" "lasts k" "route l f k = w" for k
    proof -
      have "of_flow k jobs \<noteq> []" using kk(1) by (auto simp: flows_def of_flow_def filter_empty_conv)
      then obtain c where c: "map_of ?m k = Some c" "tells rules k (of_flow k jobs) c"
        using final_entry [OF assms(1-6), of k] kk(2,3) unfolding lasts by (auto split: option.splits)
      then show ?thesis using assms(7) by (auto dest: map_of_SomeD intro: rev_image_eqI)
    qed
    have own: "k \<in> flows jobs \<and> route l f k = w" if "k \<in> fst ` set ?m" for k
      using final_keys [OF assms(1-5), of w] that w len by (auto simp: own_flows_def flows_def)
    have "{k \<in> ?low. route l f k = w} \<subseteq> ?K" using known by blast
    moreover have "?K \<subseteq> {k \<in> ?up. route l f k = w}" using known own by blast
    ultimately show ?thesis unfolding n using fin by (auto intro!: card_mono)
  qed
  have all: "card A = (\<Sum>w < l * f. card {k \<in> A. route l f k = w})" if "finite A" for A
    using sum_fibres [OF that, of "route l f" "l * f"] route_bound [OF assms(2,1)] by simp
  have e: "length (filter P (entries ns (workers s))) = (\<Sum>w < l * f. ?n w)"
    unfolding length_filter_entries len ..
  have "finite ?low" "finite ?up" using fin by simp_all
  then show "card ?low \<le> length (filter P (entries ns (workers s)))"
      "length (filter P (entries ns (workers s))) \<le> card ?up"
    unfolding e using all worker by (auto intro!: sum_mono)
qed

lemma entries_of_flows:
  assumes "0 < l" and "0 < f" and "f < 2 ^ 31" and "\<forall>job \<in> set jobs. job_ok job" and "steady_run T rules l f jobs s"
    and "in_flight s = []" and "\<forall>j \<in> set jobs. \<not> closes j"
    and "\<And>k c. tells rules k (of_flow k jobs) c \<Longrightarrow> P c \<longleftrightarrow> Q k"
  shows "length (filter P (entries ns (workers s))) = card {k \<in> flows jobs. Q k}"
  using entries_between [where lasts = "\<lambda>_. True", OF assms(1-6,8)] assms(7)
  by (intro antisym) (auto simp: of_flow_def)

text \<open>The active connections of the main report.\<close>

lemma active_connections:
  "total_connections (fp_getAggregatedStats ws) = word_of_nat (length (entries ns ws))"
proof -
  have "total_connections (fold add_fp ws t) = total_connections t + word_of_nat (length (entries ns ws))" for t
  proof (induction ws arbitrary: t)
    case (Cons fp ws)
    then show ?case
      by (simp add: add_fp_def fp_getStats_def getActiveCount_def all_connections_def Let_def ac_simps)
  qed (simp add: all_connections_def)
  then show ?thesis by (simp add: fp_getAggregatedStats_def)
qed

definition report_of_flows ::
  "rule_manager option \<Rightarrow> packet_job list \<Rightarrow> nat list \<Rightarrow> fast_path list \<Rightarrow> bool" where
  "report_of_flows rules jobs ns ws \<longleftrightarrow>
     (let c = classification_counts ns ws
      in (\<forall>a. map_of (app_counts c) a =
           (let n = card (flows_known_as rules jobs a) in if n = 0 then None else Some n)) \<and>
         total_unknown c = card (flows_known_as rules jobs UNKNOWN) \<and> class_total c = card (flows jobs) \<and>
         total_connections (fp_getAggregatedStats ws) = word_of_nat (card (flows jobs)))"

lemma report_of_run:
  assumes "0 < l" and "0 < f" and "f < 2 ^ 31" and "\<forall>job \<in> set jobs. job_ok job" and "steady_run T rules l f jobs s"
    and "in_flight s = []" and "\<forall>j \<in> set jobs. \<not> closes j"
  shows "report_of_flows rules jobs ns (workers s)"
proof -
  note e = entries_of_flows [OF assms]
  have app: "length (filter (\<lambda>c. app_type c = a) (entries ns (workers s))) = card (flows_known_as rules jobs a)" for a
    unfolding flows_known_as_def by (rule e) (auto simp: tells_def dest: arg_cong [of _ _ fst])
  then have "count_list (map app_type (entries ns (workers s))) a = card (flows_known_as rules jobs a)" for a
    by (simp add: count_list_map_length)
  moreover have "length (entries ns (workers s)) = card (flows jobs)"
    using e [of "\<lambda>_. True" "\<lambda>_. True" ns] by simp
  moreover have "class_total (classification_counts ns (workers s)) = length (entries ns (workers s))"
    using sum_length_filter_compl [of "\<lambda>c. app_type c \<noteq> UNKNOWN" "entries ns (workers s)"]
    by (simp add: class_total_def classification_counts_eq)
  ultimately show ?thesis
    using app [of UNKNOWN] active_connections [of "workers s" ns]
    by (simp add: report_of_flows_def classification_counts_eq fold_bump Let_def)
qed

section \<open>From jobs to packets\<close>

text \<open>The packets of a flow as jobs. Their numbers do not matter.\<close>

definition as_jobs :: "bool \<Rightarrow> raw_packet list \<Rightarrow> packet_job list" where
  "as_jobs le ps = map (\<lambda>p. frame_job le p 0) ps"

abbreviation flow_as_jobs :: "bool \<Rightarrow> five_tuple \<Rightarrow> raw_packet list \<Rightarrow> packet_job list" where
  "flow_as_jobs le k ps \<equiv> as_jobs le (flow_packets le k ps)"

lemma admitted_cong:
  assumes "map job_class js = map job_class js'"
  shows "length (admitted rules k js) = length (admitted rules k js')" and "learned rules k js = learned rules k js'"
proof -
  have "list_all2 (\<lambda>i j. job_class i = job_class j) js js'"
    using assms by (simp add: list_all2_conv_all_nth list_eq_iff_nth_eq)
  then have "length (admitted rules k js) = length (admitted rules k js') \<and> learned rules k js = learned rules k js'"
    by (induction rule: list_all2_induct) (auto split: option.split dest: list_all2_lengthD)
  then show "length (admitted rules k js) = length (admitted rules k js')" "learned rules k js = learned rules k js'"
    by blast+
qed

lemma frame_job_number:
  "job_class (frame_job le raw i) = job_class (frame_job le raw 0)"
  "job_tuple (frame_job le raw i) = frame_tuple le raw"
  "closes (frame_job le raw i) = closes (frame_job le raw 0)"
  by (simp_all add: frame_tuple_def job_class_def payload_of_def frame_job_def closes_def Let_def)

lemma flow_job_classes:
  "map job_class (of_flow k (number_jobs le (filter flow_frame ps) i)) = map job_class (flow_as_jobs le k ps)"
  using frame_job_number
  by (induction ps arbitrary: i) (auto simp: as_jobs_def flow_packets_def)

lemma flow_job_closes:
  "map closes (of_flow k (number_jobs le (filter flow_frame ps) i)) = map closes (flow_as_jobs le k ps)"
  using frame_job_number
  by (induction ps arbitrary: i) (auto simp: as_jobs_def flow_packets_def)

lemma number_jobs_flows: "flows (number_jobs le raws i) = frame_tuple le ` set raws"
  using frame_job_number(2) by (induction raws arbitrary: i) (auto simp: flows_def)

lemma admitted_take: "admitted rules k js = take (length (admitted rules k js)) js"
  using admitted_cut_off [of rules k js] by (metis append_eq_conv_conj)

text \<open>What is written of a flow, as packets.\<close>

lemma flow_written:
  assumes "0 < l" and "0 < f" and "f < 2 ^ 31" and "good_capture le h ps c"
    and "steady_run T rules l f (number_jobs le (filter flow_frame ps) 0) s" and "in_flight s = []"
    and "flow_packets le k ps = pre @ post" and "\<forall>j \<in> set (as_jobs le pre). \<not> closes j"
  shows "\<exists>qs. map job_raw (of_flow k (written s)) =
      take (length (admitted rules k (as_jobs le pre))) (map rewritten pre) @ qs \<and>
    mset qs \<subseteq># mset (map rewritten post)"
proof -
  let ?jobs = "number_jobs le (filter flow_frame ps) 0" and ?n = "length pre"
  let ?pre = "take ?n (of_flow k ?jobs)" and ?post = "drop ?n (of_flow k ?jobs)"
  have ok: "\<forall>job \<in> set ?jobs. job_ok job" by (rule number_jobs_ok) simp
  have raw: "map job_raw ?pre = map rewritten pre" "map job_raw ?post = map rewritten post"
    using flow_jobs [OF assms(4), of k] assms(7) by (simp_all flip: take_map drop_map)
  have cls: "map job_class ?pre = map job_class (as_jobs le pre)" "map closes ?pre = map closes (as_jobs le pre)"
    using flow_job_classes [of k le ps 0] flow_job_closes [of k le ps 0] assms(7)
    by (simp_all add: as_jobs_def flip: take_map)
  have "\<forall>j \<in> set ?pre. \<not> closes j" using arg_cong [OF cls(2), of set] assms(8) by auto
  then obtain xs ys where v: "of_flow k (written s) = admitted rules k ?pre @ xs" "mset xs + mset ys = mset ?post"
    using steady_verdicts [OF assms(1-3) ok assms(5) _ _ assms(6), of k ?pre ?post] by auto
  have "admitted rules k ?pre = take (length (admitted rules k (as_jobs le pre))) ?pre"
    using admitted_take [of rules k ?pre] admitted_cong(1) [OF cls(1), of rules k] by simp
  then have "map job_raw (admitted rules k ?pre) = take (length (admitted rules k (as_jobs le pre))) (map rewritten pre)"
    using raw(1) by (metis take_map)
  moreover have "mset xs \<subseteq># mset ?post" using v(2) by (metis mset_subset_eq_add_left)
  then have "mset (map job_raw xs) \<subseteq># mset (map rewritten post)"
    unfolding raw(2) [symmetric] mset_map by (rule image_mset_subseteq_mono)
  ultimately show ?thesis using v(1) by (intro exI [of _ "map job_raw xs"]) simp
qed

text \<open>A flow that is never closed, and the number a report gives for an application.\<close>

definition lasting :: "bool \<Rightarrow> raw_packet list \<Rightarrow> five_tuple \<Rightarrow> bool" where
  "lasting le ps k \<longleftrightarrow> (\<forall>j \<in> set (flow_as_jobs le k ps). \<not> closes j)"

definition known_as :: "bool \<Rightarrow> rule_manager option \<Rightarrow> raw_packet list \<Rightarrow> AppType \<Rightarrow> five_tuple \<Rightarrow> bool" where
  "known_as le rules ps a k \<longleftrightarrow> fst (learned rules k (flow_as_jobs le k ps)) = a"

definition reported :: "class_counts \<Rightarrow> AppType \<Rightarrow> nat" where
  "reported c a = (case map_of (app_counts c) a of None \<Rightarrow> 0 | Some n \<Rightarrow> n)"

lemma reported_count: "reported (classification_counts ns ws) a = length (filter (\<lambda>c. app_type c = a) (entries ns ws))"
  by (simp add: reported_def classification_counts_eq fold_bump Let_def count_list_map_length)

lemma class_total_entries: "class_total (classification_counts ns ws) = length (entries ns ws)"
  using sum_length_filter_compl [of "\<lambda>c. app_type c \<noteq> UNKNOWN" "entries ns ws"]
  by (simp add: class_total_def classification_counts_eq)

lemma report_between:
  assumes "0 < l" and "0 < f" and "f < 2 ^ 31"
    and "steady_run T rules l f (number_jobs le (filter flow_frame ps) 0) s" and "in_flight s = []"
    and "F = frame_tuple le ` set (filter flow_frame ps)"
  shows "card {k \<in> F. lasting le ps k \<and> known_as le rules ps a k} \<le> reported (classification_counts ns (workers s)) a"
    and "reported (classification_counts ns (workers s)) a \<le> card {k \<in> F. lasting le ps k \<longrightarrow> known_as le rules ps a k}"
    and "card {k \<in> F. lasting le ps k} \<le> class_total (classification_counts ns (workers s))"
    and "class_total (classification_counts ns (workers s)) \<le> card F"
proof -
  let ?jobs = "number_jobs le (filter flow_frame ps) 0"
  have ok: "\<forall>job \<in> set ?jobs. job_ok job" by (rule number_jobs_ok) simp
  have F: "flows ?jobs = F" using assms(6) number_jobs_flows [of le "filter flow_frame ps" 0] by simp
  have lasts: "lasting le ps k \<longleftrightarrow> (\<forall>j \<in> set (of_flow k ?jobs). \<not> closes j)" for k
    using arg_cong [OF flow_job_closes [of k le ps 0], of set] by (auto simp: lasting_def)
  have known: "fst (learned rules k (of_flow k ?jobs)) = a \<longleftrightarrow> known_as le rules ps a k" for k a
    using admitted_cong(2) [OF flow_job_classes [of k le ps 0], of rules k] by (simp add: known_as_def)
  have tells: "tells rules k (of_flow k ?jobs) c \<Longrightarrow> app_type c = a \<longleftrightarrow> known_as le rules ps a k" for k c a
    using known [of k a] by (auto simp: tells_def dest: arg_cong [of _ _ fst])
  note between = entries_between [OF assms(1-3) ok assms(4,5) _ lasts, unfolded F]
  show "card {k \<in> F. lasting le ps k \<and> known_as le rules ps a k} \<le> reported (classification_counts ns (workers s)) a"
      "reported (classification_counts ns (workers s)) a \<le> card {k \<in> F. lasting le ps k \<longrightarrow> known_as le rules ps a k}"
    unfolding reported_count
    by (rule between [of "\<lambda>c. app_type c = a" "known_as le rules ps a"]; erule tells)+
  show "card {k \<in> F. lasting le ps k} \<le> class_total (classification_counts ns (workers s))"
      "class_total (classification_counts ns (workers s)) \<le> card F"
    unfolding class_total_entries using between [of "\<lambda>_. True" "\<lambda>_. True" ns] by simp_all
qed

section \<open>Properties\<close>

text \<open>C14: the classification report counts the flows of the capture. At the end of a run of at most
  five minutes on a capture of at most 100000 flows, none with a FIN or RST, the report has
  for each application the number of flows that are known as it, by the first of their packets
  that says something (and as unknown, if there is none or a rule on the address, the port or unknown
  applications came first); its total and the active connections of the main report are the
  number of flows; and none of this depends on the threads or on the order in which the tables are read.\<close>

theorem report_counts_flows:
  assumes "0 < l" and "0 < f" and "f < 2 ^ 31" and "\<forall>job \<in> set jobs. job_ok job"
    and "steady_run T rules l f jobs s" and "in_flight s = []" and "\<forall>j \<in> set jobs. \<not> closes j"
  shows "(\<forall>a. map_of (app_counts (classification_counts ns (workers s))) a =
      (let n = card {k \<in> job_tuple ` set jobs. fst (learned rules k (of_flow k jobs)) = a}
       in if n = 0 then None else Some n)) \<and>
    total_unknown (classification_counts ns (workers s)) =
      card {k \<in> job_tuple ` set jobs. fst (learned rules k (of_flow k jobs)) = UNKNOWN} \<and>
    class_total (classification_counts ns (workers s)) = card (job_tuple ` set jobs) \<and>
    total_connections (fp_getAggregatedStats (workers s)) = word_of_nat (card (job_tuple ` set jobs))"
  using report_of_run [OF assms, of ns]
  by (simp add: report_of_flows_def flows_known_as_def flows_def Let_def)

text \<open>A handshake and a ClientHello for a name nobody blocks.\<close>

theorem report_counts_flows_witness:
  "\<exists>s. steady_run 0 None 2 2 [job_of (flow 1) SYN [], hello_job, job_of (flow 2) SYN []] s \<and>
     class_total (classification_counts [] (workers s)) = 2 \<and> total_unknown (classification_counts [] (workers s)) = 1"
proof -
  let ?jobs = "[job_of (flow 1) SYN [], hello_job, job_of (flow 2) SYN []]"
  have ok: "\<forall>job \<in> set ?jobs. job_ok job" using job_of_ok by simp
  then have "sound_state 2 2 (start_system 2 2 ?jobs)" by (intro start_sound) auto
  then obtain s where s: "rtranclp (step_within (window 0) None) (start_system 2 2 ?jobs) s" "in_flight s = []"
    using steady_drain [of 2 2 "start_system 2 2 ?jobs"] by auto
  have f: "flow 1 \<noteq> flow 2" by (simp add: flow_def)
  have r: "steady_run 0 None 2 2 ?jobs s" using s(1) by (auto simp: steady_run_def card_insert_if)
  have nc: "\<forall>j \<in> set ?jobs. \<not> closes j" by (simp add: closes_def RST_def FIN_def SYN_def PSH_def)
  have app: "sniToAppType ''a.org'' \<noteq> UNKNOWN" by code_simp
  have c: "job_class (job_of t SYN []) = None" "job_class hello_job = Some (sniToAppType ''a.org'', ''a.org'')" for t
    using hello_class by (simp_all add: job_class_def hello_bytes_def del: One_nat_def)
  have l: "learned None (flow 1) (of_flow (flow 1) ?jobs) = (sniToAppType ''a.org'', ''a.org'')"
      "learned None (flow 2) (of_flow (flow 2) ?jobs) = (UNKNOWN, [])"
    using c f by (simp_all add: objects_def del: One_nat_def)
  have "{k \<in> job_tuple ` set ?jobs. fst (learned None k (of_flow k ?jobs)) = UNKNOWN} = {flow 2}"
    using l app f by (auto simp del: of_flow_simps One_nat_def)
  then have "card {k \<in> job_tuple ` set ?jobs. fst (learned None k (of_flow k ?jobs)) = UNKNOWN} = 1" by simp
  moreover have "card (job_tuple ` set ?jobs) = 2" using f by simp
  ultimately show ?thesis using report_counts_flows [OF _ _ _ ok r s(2) nc, of "[]"] r by auto
qed

text \<open>C3: what \<open>main\<close> does to a capture of at most 100000 flows, in the host's byte order and with any
  options. It can return 0 with this output and this report. Output: split the packets of a flow
  before its first FIN or RST, or anywhere earlier; of the first part exactly the
  packets that \<open>admitted\<close> gives are written, a beginning of it in order and with their bytes unchanged, and
  behind them only packets of the second part, so of a flow without FIN and RST the output is
  exactly what \<open>admitted\<close> says. Report: the number given for an application lies between the number
  of flows without FIN and RST that are known as it and that number together with the flows
  that have one (which may or may not still be in a table), and the total
  between the number of flows without and the number of all; so without FIN and RST in the capture the
  numbers are exact. All these are functions of the input file and the command line alone.\<close>

theorem main_exact:
  assumes "\<forall>c \<in> set cs. fits_option c" and "asked_lbs cs * asked_fps cs \<le> 2147483647"
    and "0 < asked_lbs cs" and "0 < asked_fps cs" and "good_capture le h ps (fs inp)" and "can_open outp"
    and "F = frame_tuple le ` set (filter flow_frame ps)" and "card F \<le> 100000"
  shows "\<exists>e qs. main_program le rule_files fs can_open (command prog inp outp cs) 0 (Some e) \<and>
    out_bytes (output_file e) = pcap_bytes le h qs \<and>
    (\<forall>k pre post. flow_packets le k ps = pre @ post \<and> (\<forall>j \<in> set (as_jobs le pre). \<not> closes j) \<longrightarrow>
       (\<exists>qs'. filter (\<lambda>q. frame_tuple le q = k) qs =
           take (length (admitted (cli_rules cs) k (as_jobs le pre))) (map rewritten pre) @ qs' \<and>
         mset qs' \<subseteq># mset (map rewritten post))) \<and>
    (\<forall>ns a. card {k \<in> F. lasting le ps k \<and> known_as le (cli_rules cs) ps a k} \<le> reported (classification_counts ns (fps e)) a \<and>
       reported (classification_counts ns (fps e)) a \<le> card {k \<in> F. lasting le ps k \<longrightarrow> known_as le (cli_rules cs) ps a k} \<and>
       card {k \<in> F. lasting le ps k} \<le> class_total (classification_counts ns (fps e)) \<and>
       class_total (classification_counts ns (fps e)) \<le> card F)"
proof -
  let ?jobs = "number_jobs le (filter flow_frame ps) 0"
  note f31 = asked_fps_bound [OF assms(2,3)] and fit = capture_fits [where c = "fs inp", OF assms(5)]
  obtain e s s1 where m: "main_program le rule_files fs can_open (command prog inp outp cs) 0 (Some e)"
      and s: "run_behind le h ps cs e s" "fps e = workers s"
      and s1: "rtranclp (step_within {0} (cli_rules cs)) (start_system (asked_lbs cs) (asked_fps cs) ?jobs) s1"
        "in_flight s1 = []" "results s = results s1"
    using main_runs(1) [where can_open = can_open and fs = fs and T = 0, OF assms(1-6)] by blast
  have run: "steady_run 0 (cli_rules cs) (asked_lbs cs) (asked_fps cs) ?jobs s1"
    using run_within_window [OF s1(1)] assms(7,8) number_jobs_flows [of le "filter flow_frame ps" 0]
    by (simp add: steady_run_def flows_def)
  have same: "written s = written s1" "map conn_tracker (workers s) = map conn_tracker (workers s1)"
    using s1(3) by (simp_all add: results_def)
  have "entries ns (workers s) = entries ns (workers s1)" for ns by (metis map_map same(2))
  then have counts: "classification_counts ns (fps e) = classification_counts ns (workers s1)" for ns
    by (simp add: classification_counts_eq s(2))
  have t: "\<forall>j \<in> set (written s). job_tuple j = frame_tuple le (job_raw j)"
    using run_written(2) [OF assms(3,4) f31 fit] s(1) unfolding run_behind_def by blast
  have "filter (\<lambda>q. frame_tuple le q = k) (map job_raw (written s)) = map job_raw (of_flow k (written s1))" for k
    using of_flow_raw [OF t, of k] same(1) by simp
  then have out: "\<exists>qs'. filter (\<lambda>q. frame_tuple le q = k) (map job_raw (written s)) =
        take (length (admitted (cli_rules cs) k (as_jobs le pre))) (map rewritten pre) @ qs' \<and>
      mset qs' \<subseteq># mset (map rewritten post)"
    if "flow_packets le k ps = pre @ post" "\<forall>j \<in> set (as_jobs le pre). \<not> closes j" for k pre post
    using flow_written [OF assms(3,4) f31 assms(5) run s1(2) that] by simp
  have "out_bytes (output_file e) = pcap_bytes le h (map job_raw (written s))"
    using s(1) unfolding run_behind_def by blast
  then show ?thesis
    unfolding counts
    by (intro exI [of _ e] exI [of _ "map job_raw (written s)"] conjI m)
      (use out report_between [OF assms(3,4) f31 run s1(2) assms(7)] counts in auto)
qed

theorem main_exact_witness:
  "\<exists>e qs. main_program True (\<lambda>_. None) (\<lambda>_. Some (pcap_bytes True sample_header [hello_raw])) (\<lambda>_. True)
       [''aegis'', ''in.pcap'', ''out.pcap'', ''--block-domain'', ''b.org''] 0 (Some e) \<and>
     out_bytes (output_file e) = pcap_bytes True sample_header qs \<and>
     filter (\<lambda>q. frame_tuple True q = frame_tuple True hello_raw) qs = [rewritten hello_raw] \<and>
     reported (classification_counts [] (fps e)) (sniToAppType ''a.org'') = 1"
proof -
  let ?cs = "[Block_domain ''b.org'']" and ?k = "frame_tuple True hello_raw" and ?j = "frame_job True hello_raw 0"
  let ?fs = "\<lambda>_ :: string. Some (pcap_bytes True sample_header [hello_raw])" and ?a = "sniToAppType ''a.org''"
  have r: "command ''aegis'' ''in.pcap'' ''out.pcap'' ?cs =
      [''aegis'', ''in.pcap'', ''out.pcap'', ''--block-domain'', ''b.org'']" by simp
  have a: "asked_lbs ?cs = 2" "asked_fps ?cs = 2" by (simp_all add: asked_lbs_def asked_fps_def)
  have j: "as_jobs True [hello_raw] = [?j]" "flow_packets True ?k [hello_raw] = [hello_raw] @ []"
    using hello_flow by (simp_all add: as_jobs_def)
  have "flow_frame hello_raw" using hello_flow by (simp add: flow_packets_def split: if_splits)
  then have F: "{?k} = frame_tuple True ` set (filter flow_frame [hello_raw])" by simp
  have nc: "\<not> closes ?j"
    by (simp add: closes_def frame_job_def Let_def hello_raw_def sample_frame_layout sample_frame_nth RST_def FIN_def)
  have "\<not> isDomainBlocked (asked_rules ?cs) ''a.org''" by code_simp
  then have o: "\<not> objects (cli_rules ?cs) ?k (?a, ''a.org'')"
    by (simp add: asked_objects asked_ips_def asked_apps_def)
  have ad: "admitted (cli_rules ?cs) ?k [?j] = [?j]" "learned (cli_rules ?cs) ?k [?j] = (?a, ''a.org'')"
    using o by (simp_all add: hello_raw_class)
  have "known_as True (cli_rules ?cs) [hello_raw] ?a ?k" "lasting True [hello_raw] ?k"
    using j ad(2) nc by (simp_all add: known_as_def lasting_def)
  then have K: "{k \<in> {?k}. lasting True [hello_raw] k \<and> known_as True (cli_rules ?cs) [hello_raw] ?a k} = {?k}"
      "{k \<in> {?k}. lasting True [hello_raw] k \<longrightarrow> known_as True (cli_rules ?cs) [hello_raw] ?a k} = {?k}" by auto
  have ok: "\<forall>c \<in> set ?cs. fits_option c" by simp
  note m = main_exact [of ?cs True sample_header "[hello_raw]" ?fs "''in.pcap''" "\<lambda>_. True" "''out.pcap''" "{?k}"
      "\<lambda>_. None" "''aegis''", OF ok _ _ _ hello_capture _ F, unfolded a r]
  obtain e qs where e: "main_program True (\<lambda>_. None) ?fs (\<lambda>_. True)
        [''aegis'', ''in.pcap'', ''out.pcap'', ''--block-domain'', ''b.org''] 0 (Some e)"
      "out_bytes (output_file e) = pcap_bytes True sample_header qs"
    and v: "\<forall>k pre post. flow_packets True k [hello_raw] = pre @ post \<and> (\<forall>j \<in> set (as_jobs True pre). \<not> closes j) \<longrightarrow>
       (\<exists>qs'. filter (\<lambda>q. frame_tuple True q = k) qs =
           take (length (admitted (cli_rules ?cs) k (as_jobs True pre))) (map rewritten pre) @ qs' \<and>
         mset qs' \<subseteq># mset (map rewritten post))"
    and n: "\<forall>ns a. card {k \<in> {?k}. lasting True [hello_raw] k \<and> known_as True (cli_rules ?cs) [hello_raw] a k} \<le>
         reported (classification_counts ns (fps e)) a \<and>
       reported (classification_counts ns (fps e)) a \<le>
         card {k \<in> {?k}. lasting True [hello_raw] k \<longrightarrow> known_as True (cli_rules ?cs) [hello_raw] a k}"
    using m by auto
  have "filter (\<lambda>q. frame_tuple True q = ?k) qs = [rewritten hello_raw]"
    using v [rule_format, OF conjI [OF j(2)]] nc j(1) ad(1) by simp
  moreover have "reported (classification_counts [] (fps e)) ?a = 1"
    using n [rule_format, of ?a "[]"] unfolding K by simp
  ultimately show ?thesis using e by blast
qed

end
