(* ===== verification/Split_Hello.thy ===== *)
theory Split_Hello
  imports Steady_Runs
begin

text \<open>
  How far the name of a flow is known (\<open>src/sni_extractor.cpp\<close>, \<open>src/fast_path.cpp\<close>). The worker
  looks at each TCP segment by itself: \<open>isTLSClientHello\<close> refuses a record that does not end in the
  segment, \<open>inspectPayload\<close> then takes the port for the application and never looks again.
\<close>

section \<open>A segment that holds a part of a ClientHello\<close>

lemma hello_parts:
  "hello_bytes h = (CONTENT_TYPE_HANDSHAKE # put16 (record_version h) @ put16_len (handshake_header h @ hello_body h)) @
     handshake_header h @ hello_body h"
  by (simp add: hello_bytes_def)

lemma length_hello_bytes: "length (hello_bytes h) = 9 + length (hello_body h)"
  by (simp add: hello_bytes_def handshake_header_def Let_def)

lemma part_not_recognised:
  assumes "hello_ok h" and "n < length (hello_bytes h)"
  shows "isTLSClientHello (take n (hello_bytes h)) 0 n = Inr False"
proof (cases "n < 9")
  case True
  then show ?thesis by (simp add: isTLSClientHello_def)
next
  case False
  let ?r = "word_of_nat (length (handshake_header h @ hello_body h)) :: u16"
  let ?t = "take (n - 5) (handshake_header h @ hello_body h)"
  let ?m = "CONTENT_TYPE_HANDSHAKE # put16 (record_version h) @ put16 ?r @ ?t"
  have m: "take n (hello_bytes h) = ?m"
    using False unfolding hello_parts take_append by simp
  have "readUint16BE ?m 1 = Inr (record_version h)"
    using read_after(2) [of "[CONTENT_TYPE_HANDSHAKE]" "record_version h" "put16 ?r @ ?t"] by simp
  moreover have "readUint16BE ?m 3 = Inr ?r"
    using read_after(2) [of "CONTENT_TYPE_HANDSHAKE # put16 (record_version h)" ?r ?t] by simp
  moreover have "rd ?m 0 = Inr CONTENT_TYPE_HANDSHAKE" by (simp add: rd_def)
  moreover have "unat ?r > n - 5"
  proof -
    have l: "length (handshake_header h @ hello_body h) = 4 + length (hello_body h)"
      by (simp add: handshake_header_def Let_def)
    have "unat ?r = 4 + length (hello_body h)"
      unfolding l using assms(1) by (intro unat_of16) (simp add: hello_ok_def)
    then show ?thesis using assms(2) False length_hello_bytes [of h] by simp
  qed
  ultimately show ?thesis
    using False assms(1) unfolding m by (simp add: isTLSClientHello_def hello_ok_def not_less)
qed

text \<open>What such a segment says of its flow, and what a whole ClientHello says.\<close>

lemma part_class:
  assumes "hello_ok h" and "n < length (hello_bytes h)" and "dst_port k = 443" and "src_port k \<noteq> 53"
  shows "payload_class k (take n (hello_bytes h)) = Some (HTTPS, [])"
  using part_not_recognised [OF assms(1,2)] assms(2-4)
  by (simp add: payload_class_def tls_name_def http_name_def dns_name_def found_def sni_extract_def min_absorb2)

lemma whole_class:
  assumes "hello_ok h" and "dst_port k = 443"
  shows "payload_class k (hello_bytes h @ tail_bytes) = Some (sniToAppType (server_name h), server_name h)"
  using sni_extract_hello [OF assms(1) refl] assms(2) by (simp add: payload_class_def tls_name_def found_def)

lemma class_of_payload: "payload_of j \<noteq> [] \<Longrightarrow> job_class j = payload_class (job_tuple j) (payload_of j)"
  by (auto simp: job_class_def payload_of_def view_def)

lemma admitted_silent:
  "\<forall>i \<in> set pre. silent i \<Longrightarrow> \<not> objects rules k (UNKNOWN, []) \<Longrightarrow>
   admitted rules k (pre @ js) = pre @ admitted rules k js"
  by (induction pre) (auto simp: silent_def)

section \<open>Properties\<close>

text \<open>C27: splitting a ClientHello evades the rules on names. Take a flow to port 443 without FIN and RST that
  begins with packets that say nothing (a handshake), and rules that block the name in a
  ClientHello, or its application, but neither the flow as such nor HTTPS. If the next packet
  has the whole ClientHello, only the packets before it get out. If it has any proper part
  from its beginning, and the rest of the ClientHello comes in the next segment, the flow passes,
  whatever else it holds: on every interleaving all its packets are written.\<close>

theorem split_hello_evades:
  assumes "0 < l" and "0 < f" and "f < 2 ^ 31" and "\<forall>job \<in> set jobs. job_ok job"
    and "steady_run T rules l f jobs s" and "in_flight s = []"
    and "hello_ok h" and "dst_port k = 443" and "src_port k \<noteq> 53"
    and "of_flow k jobs = pre @ j # js" and "\<forall>i \<in> set pre. silent i" and "\<forall>i \<in> set (of_flow k jobs). \<not> closes i"
    and "\<not> objects rules k (UNKNOWN, [])" and "\<not> objects rules k (HTTPS, [])"
    and "objects rules k (sniToAppType (server_name h), server_name h)"
  shows "(payload_of j = hello_bytes h @ tail_bytes \<longrightarrow> of_flow k (written s) = pre \<and> of_flow k (dropped s) = j # js) \<and>
    (0 < n \<and> n < length (hello_bytes h) \<and> payload_of j = take n (hello_bytes h) \<longrightarrow>
       of_flow k (written s) = of_flow k jobs \<and> of_flow k (dropped s) = [])"
proof -
  have w: "of_flow k (written s) = admitted rules k (of_flow k jobs) \<and>
      of_flow k (dropped s) = cut_off rules k (of_flow k jobs)"
    using steady_verdicts [where post = "[]", OF assms(1-5) _ assms(12,6)] by simp
  have a: "admitted rules k (of_flow k jobs) = pre @ admitted rules k (j # js)"
    unfolding assms(10) by (rule admitted_silent [OF assms(11,13)])
  have "job_tuple j = k"
    using arg_cong [OF assms(10), of set] by (auto simp: of_flow_def)
  then have c: "payload_of j \<noteq> [] \<Longrightarrow> job_class j = payload_class k (payload_of j)" using class_of_payload by blast
  have whole: "admitted rules k (j # js) = []" if p: "payload_of j = hello_bytes h @ tail_bytes"
  proof -
    have "hello_bytes h \<noteq> []" by (simp add: hello_bytes_def)
    then have "job_class j = Some (sniToAppType (server_name h), server_name h)"
      using c p whole_class [OF assms(7,8)] by simp
    then show ?thesis using assms(15) by simp
  qed
  have part: "admitted rules k (j # js) = j # js" if p: "0 < n" "n < length (hello_bytes h)" "payload_of j = take n (hello_bytes h)"
  proof -
    have "take n (hello_bytes h) \<noteq> []" using p(1,2) by auto
    then have "job_class j = Some (HTTPS, [])" using c p(3) part_class [OF assms(7) p(2) assms(8,9)] by simp
    then show ?thesis using assms(14) by simp
  qed
  show ?thesis using w a whole part assms(10) by (auto simp: cut_off_def simp del: admitted.simps)
qed

text \<open>The same ClientHello, whole and cut after 20 bytes.\<close>

theorem split_hello_evades_witness:
  "\<exists>s s'. steady_run 0 (Some (blockDomain ''a.org'' empty_rules)) 2 2 [job_of (flow 1) SYN [], hello_job] s \<and>
     of_flow (flow 1) (written s) = [job_of (flow 1) SYN []] \<and>
     steady_run 0 (Some (blockDomain ''a.org'' empty_rules)) 2 2
       [job_of (flow 1) SYN [], job_of (flow 1) PSH (take 20 (hello_bytes sample_hello)),
        job_of (flow 1) PSH (drop 20 (hello_bytes sample_hello))] s' \<and>
     length (of_flow (flow 1) (written s')) = 3"
proof -
  let ?rules = "Some (blockDomain ''a.org'' empty_rules)" and ?syn = "job_of (flow 1) SYN []"
  let ?p = "job_of (flow 1) PSH (take 20 (hello_bytes sample_hello))"
    and ?q = "job_of (flow 1) PSH (drop 20 (hello_bytes sample_hello))"
  have h: "hello_ok sample_hello" "20 < length (hello_bytes sample_hello)" "server_name sample_hello = ''a.org''"
    by (simp_all add: hello_ok_def sample_hello_def hello_bytes_def hello_body_def all_extensions_def sni_data_def
        handshake_header_def EXTENSION_SNI_def)
  have o: "\<not> objects ?rules (flow 1) (UNKNOWN, [])" "\<not> objects ?rules (flow 1) (HTTPS, [])"
      "objects ?rules (flow 1) (sniToAppType (server_name sample_hello), server_name sample_hello)"
    by (simp_all add: h(3) objects_def shouldBlock_def isIPBlocked_def isPortBlocked_def isAppBlocked_def
        isDomainBlocked_def blockDomain_def empty_rules_def del: One_nat_def)
  have ports: "dst_port (flow 1) = 443" "src_port (flow 1) \<noteq> 53" by (simp_all add: flow_def)
  have quiet: "\<forall>i \<in> set [?syn]. silent i" by (simp add: silent_def job_class_def payload_of_def)
  have run: "\<exists>s. steady_run 0 ?rules 2 2 js s \<and> in_flight s = []"
    if "\<forall>job \<in> set js. job_ok job" "card (job_tuple ` set js) \<le> 100000" for js
  proof -
    have "sound_state 2 2 (start_system 2 2 js)" using that(1) by (intro start_sound) auto
    then show ?thesis using steady_drain [of 2 2 "start_system 2 2 js"] that(2) by (auto simp: steady_run_def)
  qed
  have ok: "\<forall>job \<in> set [?syn, hello_job]. job_ok job" "\<forall>job \<in> set [?syn, ?p, ?q]. job_ok job"
    using job_of_ok by simp_all
  have nc: "\<forall>i \<in> set (of_flow (flow 1) [?syn, hello_job]). \<not> closes i" "\<forall>i \<in> set (of_flow (flow 1) [?syn, ?p, ?q]). \<not> closes i"
    by (simp_all add: closes_def RST_def FIN_def SYN_def PSH_def)
  have fl: "of_flow (flow 1) [?syn, hello_job] = [?syn] @ hello_job # []"
      "of_flow (flow 1) [?syn, ?p, ?q] = [?syn] @ ?p # [?q]" by simp_all
  obtain s where s: "steady_run 0 ?rules 2 2 [?syn, hello_job] s" "in_flight s = []"
    using run [OF ok(1)] by auto
  obtain s' where s': "steady_run 0 ?rules 2 2 [?syn, ?p, ?q] s'" "in_flight s' = []"
    using run [OF ok(2)] by auto
  have "of_flow (flow 1) (written s) = [?syn]"
    using split_hello_evades [OF _ _ _ ok(1) s h(1) ports fl(1) quiet nc(1) o, where tail_bytes = "[]" and n = 1] by simp
  moreover have "of_flow (flow 1) (written s') = [?syn, ?p, ?q]"
    using split_hello_evades [OF _ _ _ ok(2) s' h(1) ports fl(2) quiet nc(2) o, where tail_bytes = "[]" and n = 20] h(2) by simp
  ultimately show ?thesis using s(1) s'(1) by (intro exI [of _ s] exI [of _ s']) simp
qed

end
